(* ===== verification/Kernel_Prelude.thy ===== *)
theory Kernel_Prelude
  imports Main "HOL-Library.Word"
begin

unbundle bit_operations_syntax

text \<open>
  Shared vocabulary of the PanicOS development: the C integer types as words, the result
  type of kernel code that may panic or loop, the byte-addressed kernel memory with
  little-endian loads and stores, and the generic lemmas the component theories rest on.
\<close>

section \<open>Machine types\<close>

type_synonym u8 = "8 word"
type_synonym u16 = "16 word"
type_synonym u32 = "32 word"
type_synonym u64 = "64 word"

text \<open>
  The kernel memory the C code reaches through pointers: one byte per 32-bit kernel
  virtual address. Address arithmetic wraps, as it does on the machine.
\<close>

type_synonym mem = "u32 \<Rightarrow> u8"

named_theorems mem_simps \<open>facts about loads and stores\<close>
named_theorems res_simps \<open>facts about results of kernel code\<close>

section \<open>Results\<close>

text \<open>
  Kernel code returns a value, calls \<^verbatim>\<open>panic(msg)\<close>, never comes back, or does what C leaves
  undefined (\<open>Fault\<close>: an array index out of range or a null pointer followed). Loops that may
  run forever are \<^theory_text>\<open>partial_function (option)\<close>; \<open>of_loop\<close> turns their \<open>None\<close>
  into \<open>Diverge\<close>.
\<close>

datatype 'a kres = Ok 'a | Panic string | Diverge | Fault

definition of_loop :: "'a option \<Rightarrow> 'a kres" where
  "of_loop x = (case x of None \<Rightarrow> Diverge | Some y \<Rightarrow> Ok y)"

definition of_kloop :: "'a kres option \<Rightarrow> 'a kres" where
  "of_kloop x = (case x of None \<Rightarrow> Diverge | Some y \<Rightarrow> y)"

definition kbind :: "'a kres \<Rightarrow> ('a \<Rightarrow> 'b kres) \<Rightarrow> 'b kres" where
  "kbind x f = (case x of Ok y \<Rightarrow> f y | Panic s \<Rightarrow> Panic s | Diverge \<Rightarrow> Diverge | Fault \<Rightarrow> Fault)"

lemma of_loop_simps [simp, res_simps]:
  "of_loop None = Diverge"
  "of_loop (Some y) = Ok y"
  by (simp_all add: of_loop_def)

lemma of_kloop_simps [simp, res_simps]:
  "of_kloop None = Diverge"
  "of_kloop (Some y) = y"
  by (simp_all add: of_kloop_def)

lemma kbind_simps [simp, res_simps]:
  "kbind (Ok y) f = f y"
  "kbind (Panic s) f = Panic s"
  "kbind Diverge f = Diverge"
  "kbind Fault f = Fault"
  by (simp_all add: kbind_def)

lemma kbind_Ok_iff [res_simps]:
  "kbind x f = Ok z \<longleftrightarrow> (\<exists>y. x = Ok y \<and> f y = Ok z)"
  by (cases x) simp_all

lemma kbind_assoc: "kbind (kbind x f) g = kbind x (\<lambda>y. kbind (f y) g)"
  by (cases x) simp_all

lemma of_loop_Ok_iff [res_simps]: "of_loop x = Ok y \<longleftrightarrow> x = Some y"
  by (cases x) simp_all

text \<open>Reading an element of a C array of the length the model gives it.\<close>

definition arr :: "'a list \<Rightarrow> int \<Rightarrow> 'a kres" where
  "arr xs i = (if 0 \<le> i \<and> i < int (length xs) then Ok (xs ! nat i) else Fault)"

lemma arr_Ok [simp]: "0 \<le> i \<Longrightarrow> i < int (length xs) \<Longrightarrow> arr xs i = Ok (xs ! nat i)"
  by (simp add: arr_def)

lemma arr_Fault [simp]: "i < 0 \<or> int (length xs) \<le> i \<Longrightarrow> arr xs i = Fault"
  by (auto simp: arr_def)

section \<open>Error codes (kernel/common/errorcode.h)\<close>

definition ERROR_INVAILD :: int where "ERROR_INVAILD = -1"
definition ERROR_NOT_EXIST :: int where "ERROR_NOT_EXIST = -2"
definition ERROR_EXIST :: int where "ERROR_EXIST = -3"
definition ERROR_NOT_FILE :: int where "ERROR_NOT_FILE = -4"
definition ERROR_NOT_DIRECTORY :: int where "ERROR_NOT_DIRECTORY = -5"
definition ERROR_READ_FAIL :: int where "ERROR_READ_FAIL = -6"
definition ERROR_OUT_OF_SPACE :: int where "ERROR_OUT_OF_SPACE = -7"
definition ERROR_WRITE_FAIL :: int where "ERROR_WRITE_FAIL = -8"
definition ERROR_NO_PERM :: int where "ERROR_NO_PERM = -9"

lemmas errorcode_defs =
  ERROR_INVAILD_def ERROR_NOT_EXIST_def ERROR_EXIST_def ERROR_NOT_FILE_def
  ERROR_NOT_DIRECTORY_def ERROR_READ_FAIL_def ERROR_OUT_OF_SPACE_def
  ERROR_WRITE_FAIL_def ERROR_NO_PERM_def

section \<open>Words\<close>

lemma unat_of_nat_u32 [simp]: "n < 2 ^ 32 \<Longrightarrow> unat (of_nat n :: u32) = n"
  by (simp add: unat_of_nat)

lemma unat_u32_lt [simp]: "unat (x :: u32) < 4294967296"
  using unsigned_less [of x, where ?'a = nat] by simp

lemma unat_u32_le [simp]: "unat (x :: u32) \<le> 4294967296"
  by (rule less_imp_le) (rule unat_u32_lt)

lemma of_nat_eq_u32:
  assumes "i < 2 ^ 32" and "j < 2 ^ 32"
  shows "(of_nat i :: u32) = of_nat j \<longleftrightarrow> i = j"
  using assms by (metis unat_of_nat_u32)

lemma unat_sub_le_u32:
  fixes a b :: u32
  assumes "unat b \<le> unat a"
  shows "unat (a - b) = unat a - unat b"
  using assms by (simp add: unat_sub word_le_nat_alt)

lemma unat_add_lt_u32:
  fixes a b :: u32
  assumes "unat a + unat b < 4294967296"
  shows "unat (a + b) = unat a + unat b"
  using assms by (simp add: unat_word_ariths)

lemma offset_cases_u32:
  fixes a p :: u32
  shows "unat (a - p) = (if unat p \<le> unat a then unat a - unat p
                          else 4294967296 + unat a - unat p)"
proof (cases "unat p \<le> unat a")
  case True
  then show ?thesis by (simp add: unat_sub_le_u32)
next
  case False
  then show ?thesis by (simp add: unat_sub_if')
qed

lemma apart_u32:
  fixes x y :: u32
  assumes "unat x + k \<le> unat y \<or> unat y + k \<le> unat x"
    and "unat x + k \<le> 4294967296" and "unat y + k \<le> 4294967296"
  shows "k \<le> unat (x - y)"
  using assms unat_u32_lt [of x] unat_u32_lt [of y] offset_cases_u32 [of x y]
  by (auto split: if_splits)

lemma unat_ucast_u8_u32: "unat (ucast (b :: u8) :: u32) = unat b"
  using unsigned_less [of b, where ?'a = nat] by (simp add: unsigned_ucast_eq take_bit_nat_eq_self)

lemma all_less_Suc_shift: "(\<forall>i<Suc n. P i) \<longleftrightarrow> P 0 \<and> (\<forall>i<n. P (Suc i))"
  using less_Suc_eq_0_disj by auto

section \<open>Little-endian loads and stores\<close>

definition load16 :: "mem \<Rightarrow> u32 \<Rightarrow> u16" where
  "load16 m p = ucast (m p) OR push_bit 8 (ucast (m (p + 1)))"

definition load32 :: "mem \<Rightarrow> u32 \<Rightarrow> u32" where
  "load32 m p = ucast (m p) OR push_bit 8 (ucast (m (p + 1)))
     OR push_bit 16 (ucast (m (p + 2))) OR push_bit 24 (ucast (m (p + 3)))"

definition store32 :: "mem \<Rightarrow> u32 \<Rightarrow> u32 \<Rightarrow> mem" where
  "store32 m p v = m(p := ucast v, p + 1 := ucast (drop_bit 8 v),
     p + 2 := ucast (drop_bit 16 v), p + 3 := ucast (drop_bit 24 v))"

lemma u8_of_u32_assemble:
  fixes v :: u32
  shows "ucast (ucast v :: u8) OR push_bit 8 (ucast (ucast (drop_bit 8 v) :: u8))
     OR push_bit 16 (ucast (ucast (drop_bit 16 v) :: u8))
     OR push_bit 24 (ucast (ucast (drop_bit 24 v) :: u8)) = v"
  (is "?l = v")
proof (rule bit_word_eqI)
  fix n
  assume n: "n < LENGTH(32)"
  then have "n < 8 \<or> (8 \<le> n \<and> n < 16) \<or> (16 \<le> n \<and> n < 24) \<or> (24 \<le> n \<and> n < 32)"
    by auto
  then show "bit ?l n \<longleftrightarrow> bit v n"
    using n
    by (auto simp: bit_simps)
qed

lemma load32_store32_same [mem_simps]: "load32 (store32 m p v) p = v"
proof -
  have d: "p + 1 \<noteq> p" "p + 2 \<noteq> p" "p + 3 \<noteq> p" "p + 2 \<noteq> p + 1" "p + 3 \<noteq> p + 1" "p + 3 \<noteq> p + 2"
    by simp_all
  show ?thesis
    using d u8_of_u32_assemble [of v]
    by (simp add: load32_def store32_def)
qed

lemma store32_apply:
  "store32 m p v a =
     (if unat (a - p) < 4 then (store32 (\<lambda>_. 0) p v) a else m a)"
proof -
  have "a = p \<or> a = p + 1 \<or> a = p + 2 \<or> a = p + 3" if "unat (a - p) < 4"
  proof -
    define k where "k = unat (a - p)"
    have "a - p = of_nat k" by (simp add: k_def)
    moreover have "k = 0 \<or> k = 1 \<or> k = 2 \<or> k = 3" using that by (auto simp: k_def)
    ultimately have "a - p = 0 \<or> a - p = 1 \<or> a - p = 2 \<or> a - p = 3" by auto
    then show ?thesis by (auto simp: algebra_simps)
  qed
  then show ?thesis
    by (auto simp: store32_def)
qed

lemma store32_other [mem_simps]: "4 \<le> unat (a - p) \<Longrightarrow> store32 m p v a = m a"
  by (subst store32_apply) simp

lemma load32_cong:
  assumes "\<And>i. i < 4 \<Longrightarrow> m' (p + of_nat i) = m (p + of_nat i)"
  shows "load32 m' p = load32 m p"
  using assms [of 0] assms [of 1] assms [of 2] assms [of 3] by (simp add: load32_def)

lemma load32_store32_other [mem_simps]:
  assumes "4 \<le> unat (q - p)" and "4 \<le> unat (p - q)"
  shows "load32 (store32 m p v) q = load32 m q"
proof (rule load32_cong)
  fix i :: nat
  assume i: "i < 4"
  have "4 \<le> unat (q + of_nat i - p)"
  proof (cases "unat (q - p) + i < 2 ^ 32")
    case True
    have "unat (q - p + of_nat i) = unat (q - p) + i"
      by (subst unat_add_lt_u32) (use True i in auto)
    with assms(1) show ?thesis by (simp add: algebra_simps)
  next
    case False
    have "unat p < 4294967296" "unat q < 4294967296" by (rule unat_u32_lt)+
    with assms False i show ?thesis
      using offset_cases_u32 [of p q] offset_cases_u32 [of q p] by (simp split: if_splits)
  qed
  then show "store32 m p v (q + of_nat i) = m (q + of_nat i)"
    by (rule store32_other)
qed

section \<open>Byte buffers\<close>

text \<open>
  Sectors and structures read from a disk are byte lists; packed fields are read and written
  at their offsets. \<open>overlay n src dst\<close> is \<^verbatim>\<open>memmove(dst, src, n)\<close> between such buffers.
\<close>

definition le16 :: "u8 list \<Rightarrow> nat \<Rightarrow> u16" where
  "le16 bs i = ucast (bs ! i) OR push_bit 8 (ucast (bs ! (i + 1)))"

definition le32 :: "u8 list \<Rightarrow> nat \<Rightarrow> u32" where
  "le32 bs i = ucast (bs ! i) OR push_bit 8 (ucast (bs ! (i + 1)))
     OR push_bit 16 (ucast (bs ! (i + 2))) OR push_bit 24 (ucast (bs ! (i + 3)))"

definition le64 :: "u8 list \<Rightarrow> nat \<Rightarrow> u64" where
  "le64 bs i = ucast (le32 bs i) OR push_bit 32 (ucast (le32 bs (i + 4)))"

definition put16 :: "u8 list \<Rightarrow> nat \<Rightarrow> u16 \<Rightarrow> u8 list" where
  "put16 bs i v = bs[i := ucast v, i + 1 := ucast (drop_bit 8 v)]"

definition put32 :: "u8 list \<Rightarrow> nat \<Rightarrow> u32 \<Rightarrow> u8 list" where
  "put32 bs i v = bs[i := ucast v, i + 1 := ucast (drop_bit 8 v),
     i + 2 := ucast (drop_bit 16 v), i + 3 := ucast (drop_bit 24 v)]"

definition overlay :: "nat \<Rightarrow> 'a list \<Rightarrow> 'a list \<Rightarrow> 'a list" where
  "overlay n src dst = take n src @ drop n dst"

text \<open>\<^verbatim>\<open>memmove(dst + off, bs, length bs)\<close>.\<close>

definition blit :: "'a list \<Rightarrow> nat \<Rightarrow> 'a list \<Rightarrow> 'a list" where
  "blit dst off bs = take off dst @ bs @ drop (off + length bs) dst"

lemma length_blit [simp]: "off + length bs \<le> length dst \<Longrightarrow> length (blit dst off bs) = length dst"
  by (simp add: blit_def)

lemma nth_blit:
  "off + length bs \<le> length dst \<Longrightarrow> i < length dst \<Longrightarrow> blit dst off bs ! i =
     (if off \<le> i \<and> i < off + length bs then bs ! (i - off) else dst ! i)"
  by (auto simp: blit_def nth_append)

lemma blit_blit_adjacent:
  "off + length as + length bs \<le> length dst \<Longrightarrow>
     blit (blit dst off as) (off + length as) bs = blit dst off (as @ bs)"
  by (simp add: blit_def add.commute add.left_commute)

lemma blit_drop: "off \<le> length dst \<Longrightarrow> take off dst @ blit (drop off dst) 0 bs = blit dst off bs"
  by (simp add: blit_def add.commute)

lemma length_put32 [simp]: "length (put32 bs i v) = length bs"
  by (simp add: put32_def)

lemma length_put16 [simp]: "length (put16 bs i v) = length bs"
  by (simp add: put16_def)

lemma le32_put32_same [simp]: "i + 4 \<le> length bs \<Longrightarrow> le32 (put32 bs i v) i = v"
  using u8_of_u32_assemble [of v] by (simp add: le32_def put32_def)

lemma le32_put32_other [simp]: "i + 4 \<le> j \<or> j + 4 \<le> i \<Longrightarrow> le32 (put32 bs i v) j = le32 bs j"
  by (auto simp: le32_def put32_def)

lemma le32_take [simp]: "i + 4 \<le> n \<Longrightarrow> le32 (take n bs) i = le32 bs i"
  by (simp add: le32_def)

lemma le32_overlay [simp]:
  "i + 4 \<le> n \<Longrightarrow> n \<le> length src \<Longrightarrow> le32 (overlay n src dst) i = le32 src i"
  by (simp add: le32_def overlay_def nth_append)

lemma length_overlay [simp]:
  "n \<le> length src \<Longrightarrow> n \<le> length dst \<Longrightarrow> length (overlay n src dst) = length dst"
  by (simp add: overlay_def)

lemma take_overlay [simp]: "n \<le> length src \<Longrightarrow> take n (overlay n src dst) = take n src"
  by (simp add: overlay_def)

lemma take_put32 [simp]: "i + 4 \<le> n \<Longrightarrow> take n (put32 bs i v) = put32 (take n bs) i v"
  by (simp add: put32_def take_update_swap)

section \<open>Lists of equally long pieces\<close>

lemma length_concat_pieces:
  assumes "\<And>xs. xs \<in> set xss \<Longrightarrow> length xs = n"
  shows "length (concat xss) = length xss * n"
  using assms by (induction xss) auto

lemma nth_concat_pieces:
  assumes "\<And>xs. xs \<in> set xss \<Longrightarrow> length xs = n" and "k < length xss * n"
  shows "concat xss ! k = xss ! (k div n) ! (k mod n)"
  using assms
proof (induction xss arbitrary: k)
  case Nil
  then show ?case by simp
next
  case (Cons xs xss)
  then have l: "length xs = n" by simp
  show ?case
  proof (cases "k < n")
    case True
    with l show ?thesis by (simp add: nth_append)
  next
    case False
    have n: "0 < n" using Cons.prems(2) False by (cases n) auto
    have "concat xss ! (k - n) = xss ! ((k - n) div n) ! ((k - n) mod n)"
      by (rule Cons.IH) (use Cons.prems False in auto)
    moreover have "k div n = Suc ((k - n) div n)" "k mod n = (k - n) mod n"
      using False n by (simp_all add: div_if le_mod_geq)
    ultimately show ?thesis using False l by (simp add: nth_append)
  qed
qed

lemma concat_blit:
  assumes "\<And>xs. xs \<in> set xss \<Longrightarrow> length xs = n" and "i < length xss" and "r + length p \<le> n"
  shows "concat (xss[i := blit (xss ! i) r p]) = blit (concat xss) (i * n + r) p"
  using assms
proof (induction xss arbitrary: i)
  case Nil
  then show ?case by simp
next
  case (Cons xs xss)
  have l: "length xs = n" using Cons.prems(1) by simp
  show ?case
  proof (cases i)
    case 0
    then show ?thesis using l Cons.prems(3) by (simp add: blit_def)
  next
    case (Suc j)
    have "concat (xss[j := blit (xss ! j) r p]) = blit (concat xss) (j * n + r) p"
      by (rule Cons.IH) (use Cons.prems Suc in auto)
    with Suc l show ?thesis by (simp add: blit_def add.assoc)
  qed
qed

end
