(* ===== verification/Kernel_String.thy ===== *)
theory Kernel_String
  imports Kernel_Prelude
begin

text \<open>
  The kernel's own C library, \<^verbatim>\<open>kernel/common/string.c\<close>, over the byte-addressed memory:
  \<open>memset\<close> (with its word-sized fast path), \<open>memcmp\<close>, \<open>memmove\<close>, \<open>strncmp\<close>,
  \<open>strncpy\<close>, \<open>safestrcpy\<close> and \<open>strlen\<close>. Functions that return their destination
  pointer return only the new memory here. The x86 branch of every \<^verbatim>\<open>#ifdef\<close> is the one
  modelled.
\<close>

section \<open>The operations\<close>

text \<open>\<^verbatim>\<open>rep stosb\<close> and \<^verbatim>\<open>rep stosl\<close> of \<^verbatim>\<open>common/x86.h\<close>: store, advance, count down.\<close>

primrec stosb :: "mem \<Rightarrow> u32 \<Rightarrow> u8 \<Rightarrow> nat \<Rightarrow> mem" where
  "stosb m addr data 0 = m"
| "stosb m addr data (Suc cnt) = stosb (m(addr := data)) (addr + 1) data cnt"

primrec stosl :: "mem \<Rightarrow> u32 \<Rightarrow> u32 \<Rightarrow> nat \<Rightarrow> mem" where
  "stosl m addr data 0 = m"
| "stosl m addr data (Suc cnt) = stosl (store32 m addr data) (addr + 4) data cnt"

text \<open>
  \<^verbatim>\<open>(int)dst % 4 == 0\<close> holds exactly when the unsigned remainder is 0, since 4 divides
  \<open>2 ^ 32\<close>.
\<close>

definition memset :: "mem \<Rightarrow> u32 \<Rightarrow> u32 \<Rightarrow> u32 \<Rightarrow> mem" where
  "memset m dst c n =
     (if dst mod 4 = 0 \<and> n mod 4 = 0
      then let c = c AND 0xFF
           in stosl m dst (push_bit 24 c OR push_bit 16 c OR push_bit 8 c OR c) (unat (n div 4))
      else stosb m dst (ucast c) (unat n))"

text \<open>The \<^verbatim>\<open>volatile\<close> variants are the plain byte loops.\<close>

primrec memset_volatile_loop :: "mem \<Rightarrow> u32 \<Rightarrow> u32 \<Rightarrow> nat \<Rightarrow> mem" where
  "memset_volatile_loop m p c 0 = m"
| "memset_volatile_loop m p c (Suc n) = memset_volatile_loop (m(p := ucast c)) (p + 1) c n"

definition memset_volatile :: "mem \<Rightarrow> u32 \<Rightarrow> u32 \<Rightarrow> u32 \<Rightarrow> mem" where
  "memset_volatile m dst c n = memset_volatile_loop m dst c (unat n)"

primrec memcmp_loop :: "mem \<Rightarrow> u32 \<Rightarrow> u32 \<Rightarrow> nat \<Rightarrow> int" where
  "memcmp_loop m s1 s2 0 = 0"
| "memcmp_loop m s1 s2 (Suc n) =
     (if m s1 \<noteq> m s2 then uint (m s1) - uint (m s2)
      else memcmp_loop m (s1 + 1) (s2 + 1) n)"

definition memcmp :: "mem \<Rightarrow> u32 \<Rightarrow> u32 \<Rightarrow> u32 \<Rightarrow> int" where
  "memcmp m v1 v2 n = memcmp_loop m v1 v2 (unat n)"

primrec memmove_up :: "mem \<Rightarrow> u32 \<Rightarrow> u32 \<Rightarrow> nat \<Rightarrow> mem" where
  "memmove_up m d s 0 = m"
| "memmove_up m d s (Suc n) = memmove_up (m(d := m s)) (d + 1) (s + 1) n"

primrec memmove_down :: "mem \<Rightarrow> u32 \<Rightarrow> u32 \<Rightarrow> nat \<Rightarrow> mem" where
  "memmove_down m d s 0 = m"
| "memmove_down m d s (Suc n) = memmove_down (m(d - 1 := m (s - 1))) (d - 1) (s - 1) n"

definition memmove :: "mem \<Rightarrow> u32 \<Rightarrow> u32 \<Rightarrow> u32 \<Rightarrow> mem" where
  "memmove m dst src n =
     (if src < dst \<and> src + n > dst
      then memmove_down m (dst + n) (src + n) (unat n)
      else memmove_up m dst src (unat n))"

definition memcpy :: "mem \<Rightarrow> u32 \<Rightarrow> u32 \<Rightarrow> u32 \<Rightarrow> mem" where
  "memcpy m dst src n = memmove m dst src n"

primrec strncmp_loop :: "mem \<Rightarrow> u32 \<Rightarrow> u32 \<Rightarrow> nat \<Rightarrow> int" where
  "strncmp_loop m p q 0 = 0"
| "strncmp_loop m p q (Suc n) =
     (if m p \<noteq> 0 \<and> m p = m q then strncmp_loop m (p + 1) (q + 1) n
      else uint (m p) - uint (m q))"

definition strncmp :: "mem \<Rightarrow> u32 \<Rightarrow> u32 \<Rightarrow> u32 \<Rightarrow> int" where
  "strncmp m p q n = strncmp_loop m p q (unat n)"

text \<open>The two loops of \<open>strncpy\<close>: copy up to and including the NUL, then pad with zeros.\<close>

primrec strncpy_pad :: "mem \<Rightarrow> u32 \<Rightarrow> nat \<Rightarrow> mem" where
  "strncpy_pad m s 0 = m"
| "strncpy_pad m s (Suc n) = strncpy_pad (m(s := 0)) (s + 1) n"

primrec strncpy_copy :: "mem \<Rightarrow> u32 \<Rightarrow> u32 \<Rightarrow> nat \<Rightarrow> mem" where
  "strncpy_copy m s t 0 = m"
| "strncpy_copy m s t (Suc n) =
     (if m t \<noteq> 0 then strncpy_copy (m(s := m t)) (s + 1) (t + 1) n
      else strncpy_pad (m(s := m t)) (s + 1) n)"

definition strncpy :: "mem \<Rightarrow> u32 \<Rightarrow> u32 \<Rightarrow> int \<Rightarrow> mem" where
  "strncpy m s t n = strncpy_copy m s t (nat n)"

text \<open>
  \<open>safestrcpy\<close>: the loop runs at most \<open>n - 1\<close> times; the final store \<^verbatim>\<open>*s = 0\<close> goes after the
  last byte stored, so a copied NUL is followed by a second one.
\<close>

primrec safestrcpy_loop :: "mem \<Rightarrow> u32 \<Rightarrow> u32 \<Rightarrow> nat \<Rightarrow> mem" where
  "safestrcpy_loop m s t 0 = m(s := 0)"
| "safestrcpy_loop m s t (Suc n) =
     (if m t \<noteq> 0 then safestrcpy_loop (m(s := m t)) (s + 1) (t + 1) n
      else (m(s := m t))(s + 1 := 0))"

definition safestrcpy :: "mem \<Rightarrow> u32 \<Rightarrow> u32 \<Rightarrow> int \<Rightarrow> mem" where
  "safestrcpy m s t n = (if n \<le> 0 then m else safestrcpy_loop m s t (nat (n - 1)))"

partial_function (option) strlen_loop :: "mem \<Rightarrow> u32 \<Rightarrow> nat \<Rightarrow> nat option" where
  "strlen_loop m s n = (if m (s + of_nat n) \<noteq> 0 then strlen_loop m s (Suc n) else Some n)"

definition strlen :: "mem \<Rightarrow> u32 \<Rightarrow> nat option" where
  "strlen m s = strlen_loop m s 0"

section \<open>Strings as byte lists\<close>

text \<open>
  \<open>cstr m p xs\<close>: the NUL-terminated string at \<open>p\<close> is \<open>xs\<close>. The components that keep names
  in fixed buffers use byte lists directly; \<open>strncmp_str\<close> is \<open>strncmp\<close> on them, a list
  standing for its bytes followed by NULs.
\<close>

primrec cstr :: "mem \<Rightarrow> u32 \<Rightarrow> u8 list \<Rightarrow> bool" where
  "cstr m p [] \<longleftrightarrow> m p = 0"
| "cstr m p (x # xs) \<longleftrightarrow> x \<noteq> 0 \<and> m p = x \<and> cstr m (p + 1) xs"

definition hd0 :: "u8 list \<Rightarrow> u8" where
  "hd0 xs = (case xs of [] \<Rightarrow> 0 | x # _ \<Rightarrow> x)"

primrec strncmp_str :: "u8 list \<Rightarrow> u8 list \<Rightarrow> nat \<Rightarrow> int" where
  "strncmp_str p q 0 = 0"
| "strncmp_str p q (Suc n) =
     (if hd0 p \<noteq> 0 \<and> hd0 p = hd0 q then strncmp_str (tl p) (tl q) n
      else uint (hd0 p) - uint (hd0 q))"

text \<open>A string literal of the source as its bytes.\<close>

definition bytes_of :: "string \<Rightarrow> u8 list" where
  "bytes_of s = map of_char s"

section \<open>memset\<close>

definition fill :: "mem \<Rightarrow> u32 \<Rightarrow> u8 \<Rightarrow> nat \<Rightarrow> mem" where
  "fill m p c n = (\<lambda>a. if unat (a - p) < n then c else m a)"

lemma unat_diff_Suc:
  fixes a p :: u32
  assumes "a \<noteq> p"
  shows "unat (a - (p + 1)) = unat (a - p) - 1" and "0 < unat (a - p)"
proof -
  have nz: "a - p \<noteq> 0" using assms by simp
  then show "0 < unat (a - p)" by (simp add: unat_gt_0)
  have "unat (a - p - 1) = unat (a - p) - 1"
    using nz by (metis unat_1 unat_minus_one)
  then show "unat (a - (p + 1)) = unat (a - p) - 1" by (simp add: algebra_simps)
qed

lemma fill_step:
  assumes "Suc n \<le> 2 ^ 32"
  shows "fill (m(p := c)) (p + 1) c n = fill m p c (Suc n)"
proof
  fix a
  show "fill (m(p := c)) (p + 1) c n a = fill m p c (Suc n) a"
  proof (cases "a = p")
    case True
    then show ?thesis by (simp add: fill_def)
  next
    case False
    with unat_diff_Suc [OF False] show ?thesis by (auto simp: fill_def)
  qed
qed

lemma stosb_fill: "n \<le> 2 ^ 32 \<Longrightarrow> stosb m p c n = fill m p c n"
proof (induction n arbitrary: m p)
  case 0
  then show ?case by (simp add: fill_def)
next
  case (Suc n)
  then show ?case by (simp add: fill_step)
qed

lemma fill_add: "fill (fill m p c i) (p + of_nat i) c j = fill m p c (i + j)"
  if "i + j \<le> 2 ^ 32"
  using that
proof (induction i arbitrary: m p)
  case 0
  then show ?case by (simp add: fill_def)
next
  case (Suc i)
  have "fill m p c (Suc i) = fill (m(p := c)) (p + 1) c i"
    using Suc.prems by (simp add: fill_step)
  moreover have "fill m p c (Suc i + j) = fill (m(p := c)) (p + 1) c (i + j)"
    using Suc.prems fill_step [of "i + j"] by simp
  moreover have "p + of_nat (Suc i) = (p + 1) + of_nat i" by simp
  moreover have "fill (fill (m(p := c)) (p + 1) c i) ((p + 1) + of_nat i) c j
      = fill (m(p := c)) (p + 1) c (i + j)"
    by (rule Suc.IH) (use Suc.prems in simp)
  ultimately show ?case by (simp only:)
qed

text \<open>The word that \<open>memset\<close> replicates holds the byte in each of its four bytes.\<close>

definition rep4 :: "u8 \<Rightarrow> u32" where
  "rep4 b = (let c = (ucast b :: u32)
     in push_bit 24 c OR push_bit 16 c OR push_bit 8 c OR c)"

lemma rep4_bytes:
  "ucast (rep4 b) = b" "ucast (drop_bit 8 (rep4 b)) = b"
  "ucast (drop_bit 16 (rep4 b)) = b" "ucast (drop_bit 24 (rep4 b)) = b"
proof -
  have lt: "bit b n \<Longrightarrow> n < 8" for n
    using bit_imp_le_length [of b n] by simp
  show "ucast (rep4 b) = b" "ucast (drop_bit 8 (rep4 b)) = b"
    "ucast (drop_bit 16 (rep4 b)) = b" "ucast (drop_bit 24 (rep4 b)) = b"
    by (rule bit_word_eqI; auto simp: rep4_def Let_def bit_simps dest: lt)+
qed

lemma store32_rep4: "store32 m p (rep4 b) = fill m p b 4"
proof -
  have "fill m p b 4 = m(p := b, p + 1 := b, p + 1 + 1 := b, p + 1 + 1 + 1 := b)"
  proof -
    have "stosb m p b 4 = fill m p b 4" by (rule stosb_fill) simp
    moreover have "stosb m p b 4 = stosb m p b (Suc (Suc (Suc (Suc 0))))"
      by (simp add: numeral_eq_Suc)
    ultimately show ?thesis by (simp only: stosb.simps)
  qed
  then show ?thesis
    by (simp add: store32_def rep4_bytes add.assoc)
qed

lemma stosl_fill: "4 * n \<le> 2 ^ 32 \<Longrightarrow> stosl m p (rep4 b) n = fill m p b (4 * n)"
proof (induction n arbitrary: m p)
  case 0
  then show ?case by (simp add: fill_def)
next
  case (Suc n)
  have "fill (fill m p b 4) (p + of_nat 4) b (4 * n) = fill m p b (4 + 4 * n)"
    by (rule fill_add) (use Suc.prems in simp)
  with Suc show ?case by (simp add: store32_rep4)
qed

lemma mask_ucast_u8: "(c :: u32) AND 0xFF = ucast (ucast c :: u8)"
proof (rule bit_word_eqI)
  fix n
  assume "n < LENGTH(32)"
  have "(0xFF :: u32) = mask 8" by (simp add: mask_eq_exp_minus_1)
  then have "bit (c AND 0xFF) n \<longleftrightarrow> bit (c AND mask 8) n" by (simp only:)
  also have "\<dots> \<longleftrightarrow> bit (ucast (ucast c :: u8) :: u32) n"
    by (auto simp: bit_simps)
  finally show "bit (c AND 0xFF) n \<longleftrightarrow> bit (ucast (ucast c :: u8) :: u32) n" .
qed

lemma memset_fill: "memset m dst c n = fill m dst (ucast c) (unat n)"
proof (cases "dst mod 4 = 0 \<and> n mod 4 = 0")
  case True
  then have "unat n mod 4 = 0"
    using unat_mod [of n 4] by simp
  then have eq: "4 * unat (n div 4) = unat n"
    by (simp add: unat_div) presburger
  have "unat n \<le> 2 ^ 32" by simp
  then have "stosl m dst (rep4 (ucast c)) (unat (n div 4)) = fill m dst (ucast c) (unat n)"
    using stosl_fill [of "unat (n div 4)"] eq by simp
  then show ?thesis
    using True by (simp add: memset_def mask_ucast_u8 rep4_def Let_def)
next
  case False
  have "unat n \<le> 2 ^ 32" by simp
  with False show ?thesis by (auto simp: memset_def stosb_fill)
qed

lemma memset_volatile_fill: "memset_volatile m dst c n = fill m dst (ucast c) (unat n)"
proof -
  have "memset_volatile_loop m p c k = stosb m p (ucast c) k" for m p k
    by (induction k arbitrary: m p) simp_all
  then show ?thesis by (simp add: memset_volatile_def stosb_fill)
qed

section \<open>memcmp\<close>

lemma memcmp_loop_zero_iff:
  "memcmp_loop m p q n = 0 \<longleftrightarrow> (\<forall>i<n. m (p + of_nat i) = m (q + of_nat i))"
proof (induction n arbitrary: p q)
  case 0
  then show ?case by simp
next
  case (Suc n)
  have "(\<forall>i<Suc n. m (p + of_nat i) = m (q + of_nat i)) \<longleftrightarrow>
      m p = m q \<and> (\<forall>i<n. m (p + 1 + of_nat i) = m (q + 1 + of_nat i))"
    by (simp add: all_less_Suc_shift add.assoc)
  then show ?case using Suc by (auto simp: word_uint_eq_iff)
qed

section \<open>memmove\<close>

text \<open>What a copy of \<open>n\<close> bytes should do: the destination gets the old source bytes.\<close>

definition copied :: "mem \<Rightarrow> u32 \<Rightarrow> u32 \<Rightarrow> nat \<Rightarrow> mem" where
  "copied m d s n = (\<lambda>a. if unat (a - d) < n then m (s + (a - d)) else m a)"

lemma memmove_up_copied:
  assumes "n \<le> 2 ^ 32"
    and "\<And>i j. i < j \<Longrightarrow> j < n \<Longrightarrow> d + of_nat i \<noteq> s + of_nat j"
  shows "memmove_up m d s n = copied m d s n"
  using assms
proof (induction n arbitrary: m d s)
  case 0
  then show ?case by (simp add: copied_def)
next
  case (Suc n)
  have IH: "memmove_up (m(d := m s)) (d + 1) (s + 1) n = copied (m(d := m s)) (d + 1) (s + 1) n"
  proof (rule Suc.IH)
    show "n \<le> 2 ^ 32" using Suc.prems(1) by simp
    fix i j :: nat
    assume "i < j" "j < n"
    then show "d + 1 + of_nat i \<noteq> s + 1 + of_nat j"
      using Suc.prems(2) [of "Suc i" "Suc j"] by (simp add: algebra_simps)
  qed
  have "copied (m(d := m s)) (d + 1) (s + 1) n = copied m d s (Suc n)"
  proof
    fix a
    show "copied (m(d := m s)) (d + 1) (s + 1) n a = copied m d s (Suc n) a"
    proof (cases "a = d")
      case True
      have "unat (d - (d + 1)) = 2 ^ 32 - 1"
        by (simp add: unsigned_minus_1_eq_mask mask_eq_exp_minus_1)
      then have "\<not> unat (d - (d + 1)) < n"
        using Suc.prems(1) by simp
      with True show ?thesis by (simp add: copied_def)
    next
      case False
      note u = unat_diff_Suc [OF False]
      have "s + (a - d) \<noteq> d" if "unat (a - d) < Suc n"
        using Suc.prems(2) [of 0 "unat (a - d)"] that u(2) by auto
      with False u show ?thesis by (auto simp: copied_def algebra_simps)
    qed
  qed
  with IH show ?case by simp
qed

lemma memmove_down_copied:
  assumes "n \<le> 2 ^ 32"
    and "\<And>i j. j < i \<Longrightarrow> i < n \<Longrightarrow> d + of_nat i \<noteq> s + of_nat j"
  shows "memmove_down m (d + of_nat n) (s + of_nat n) n = copied m d s n"
  using assms
proof (induction n arbitrary: m)
  case 0
  then show ?case by (simp add: copied_def)
next
  case (Suc n)
  define m' where "m' = m(d + of_nat n := m (s + of_nat n))"
  have IH: "memmove_down m' (d + of_nat n) (s + of_nat n) n = copied m' d s n"
    by (rule Suc.IH) (use Suc.prems in auto)
  have n: "n < 2 ^ 32" using Suc.prems(1) by simp
  have "copied m' d s n = copied m d s (Suc n)"
  proof
    fix a
    show "copied m' d s n a = copied m d s (Suc n) a"
    proof (cases "a = d + of_nat n")
      case True
      then show ?thesis using n by (simp add: copied_def m'_def)
    next
      case False
      have ne: "unat (a - d) \<noteq> n"
      proof
        assume "unat (a - d) = n"
        then have "of_nat (unat (a - d)) = (of_nat n :: u32)" by simp
        then have "a - d = of_nat n" by simp
        with False show False by (simp add: algebra_simps)
      qed
      have "s + (a - d) \<noteq> d + of_nat n" if "unat (a - d) < n"
        using Suc.prems(2) [of "unat (a - d)" n] that by auto
      with False ne show ?thesis by (auto simp: copied_def m'_def)
    qed
  qed
  with IH show ?case by (simp add: m'_def algebra_simps)
qed

lemma memmove_copied:
  assumes "unat src + unat n \<le> 2 ^ 32" and "unat dst + unat n \<le> 2 ^ 32"
  shows "memmove m dst src n = copied m dst src (unat n)"
proof -
  have idx: "unat (p + of_nat i) = unat p + i" if "i < unat n" "unat p + unat n \<le> 2 ^ 32" for p :: u32 and i
    using that by (simp add: unat_word_ariths)
  show ?thesis
  proof (cases "src < dst \<and> src + n > dst")
    case True
    then have lt: "unat src < unat dst" by (simp add: word_less_nat_alt)
    have "dst + of_nat i \<noteq> src + of_nat j" if ij: "j < i" "i < unat n" for i j
    proof
      assume "dst + of_nat i = src + of_nat j"
      then have "unat (dst + of_nat i) = unat (src + of_nat j)" by simp
      then have "unat dst + i = unat src + j"
        using ij idx [of i dst] idx [of j src] assms by simp
      with ij lt show False by simp
    qed
    then have "memmove_down m (dst + of_nat (unat n)) (src + of_nat (unat n)) (unat n)
        = copied m dst src (unat n)"
      by (intro memmove_down_copied) auto
    with True show ?thesis by (simp add: memmove_def)
  next
    case False
    have "dst + of_nat i \<noteq> src + of_nat j" if ij: "i < j" "j < unat n" for i j
    proof
      assume "dst + of_nat i = src + of_nat j"
      then have "unat (dst + of_nat i) = unat (src + of_nat j)" by simp
      then have eq: "unat dst + i = unat src + j"
        using ij idx [of i dst] idx [of j src] assms by simp
      with ij have "unat src < unat dst" by simp
      moreover have "unat (src + n) = unat src + unat n"
        using eq ij assms by (simp add: unat_word_ariths)
      ultimately show False
        using False eq ij by (simp add: word_less_nat_alt)
    qed
    then have "memmove_up m dst src (unat n) = copied m dst src (unat n)"
      by (intro memmove_up_copied) auto
    with False show ?thesis by (auto simp: memmove_def)
  qed
qed

section \<open>Strings\<close>

lemma cstr_head: "cstr m p xs \<Longrightarrow> m p = hd0 xs"
  by (cases xs) (simp_all add: hd0_def)

lemma cstr_tail: "cstr m p xs \<Longrightarrow> m p \<noteq> 0 \<Longrightarrow> cstr m (p + 1) (tl xs)"
  by (cases xs) simp_all

lemma cstr_nonzero: "cstr m p xs \<Longrightarrow> 0 \<notin> set xs"
  by (induction xs arbitrary: p) auto

lemma strncmp_loop_str:
  "cstr m p xs \<Longrightarrow> cstr m q ys \<Longrightarrow> strncmp_loop m p q n = strncmp_str xs ys n"
proof (induction n arbitrary: p q xs ys)
  case 0
  then show ?case by simp
next
  case (Suc n)
  have h: "m p = hd0 xs" "m q = hd0 ys" using Suc.prems by (simp_all add: cstr_head)
  show ?case
  proof (cases "m p \<noteq> 0 \<and> m p = m q")
    case True
    then have "cstr m (p + 1) (tl xs)" "cstr m (q + 1) (tl ys)"
      using Suc.prems by (auto intro: cstr_tail)
    then have "strncmp_loop m (p + 1) (q + 1) n = strncmp_str (tl xs) (tl ys) n"
      by (rule Suc.IH)
    with True h show ?thesis by simp
  next
    case False
    with h show ?thesis by auto
  qed
qed

lemma strncmp_str_zero_iff:
  assumes "0 \<notin> set xs" and "0 \<notin> set ys"
  shows "strncmp_str xs ys n = 0 \<longleftrightarrow> take n xs = take n ys"
  using assms
proof (induction n arbitrary: xs ys)
  case 0
  then show ?case by simp
next
  case (Suc n)
  have tl: "0 \<notin> set (tl xs)" "0 \<notin> set (tl ys)"
    using Suc.prems by (cases xs; cases ys; simp)+
  show ?case
    using Suc tl by (cases xs; cases ys) (auto simp: hd0_def word_uint_eq_iff)
qed

text \<open>The C string in the first \<open>n\<close> bytes of an array.\<close>

definition cname :: "nat \<Rightarrow> u8 list \<Rightarrow> u8 list" where
  "cname n xs = takeWhile (\<lambda>b. b \<noteq> 0) (take n xs)"

lemma strncmp_str_cname: "strncmp_str xs ys n = 0 \<longleftrightarrow> cname n xs = cname n ys"
proof (induction n arbitrary: xs ys)
  case 0
  then show ?case by (simp add: cname_def)
next
  case (Suc n)
  then show ?case
    by (cases xs; cases ys) (auto simp: cname_def hd0_def word_uint_eq_iff)
qed

lemma strncmp_str_refl: "strncmp_str xs xs n = 0"
  by (induction n arbitrary: xs) simp_all

lemma strlen_loop_cstr:
  "cstr m (s + of_nat k) xs \<Longrightarrow> strlen_loop m s k = Some (k + length xs)"
proof (induction xs arbitrary: k)
  case Nil
  then show ?case by (simp add: strlen_loop.simps [of m s k])
next
  case (Cons x xs)
  then have "cstr m (s + of_nat (Suc k)) xs" by (simp add: algebra_simps)
  then have "strlen_loop m s (Suc k) = Some (Suc k + length xs)" by (rule Cons.IH)
  with Cons.prems show ?case by (simp add: strlen_loop.simps [of m s k])
qed

lemma strlen_cstr: "cstr m s xs \<Longrightarrow> strlen m s = Some (length xs)"
  using strlen_loop_cstr [of m s 0 xs] by (simp add: strlen_def)

text \<open>A store outside a string leaves the string alone.\<close>

lemma cstr_upd:
  assumes "\<And>j. j \<le> length xs \<Longrightarrow> a \<noteq> p + of_nat j"
  shows "cstr (m(a := v)) p xs = cstr m p xs"
  using assms
proof (induction xs arbitrary: p)
  case Nil
  from Nil [of 0] show ?case by simp
next
  case (Cons x xs)
  have "a \<noteq> p" using Cons.prems [of 0] by simp
  moreover have "cstr (m(a := v)) (p + 1) xs = cstr m (p + 1) xs"
  proof (rule Cons.IH)
    fix j :: nat
    assume "j \<le> length xs"
    then show "a \<noteq> p + 1 + of_nat j" using Cons.prems [of "Suc j"] by (simp add: algebra_simps)
  qed
  ultimately show ?case by (simp add: fun_upd_def)
qed

text \<open>
  \<open>safestrcpy\<close> on disjoint buffers: the destination holds a NUL-terminated prefix of the
  source, and no byte outside the \<open>n\<close> bytes of the destination changes.
\<close>

definition apart :: "u32 \<Rightarrow> nat \<Rightarrow> u32 \<Rightarrow> nat \<Rightarrow> bool" where
  "apart s n t k \<longleftrightarrow> (\<forall>i<n. \<forall>j<k. s + of_nat i \<noteq> t + of_nat j)"

lemma apartD: "apart s n t k \<Longrightarrow> i < n \<Longrightarrow> j < k \<Longrightarrow> s + of_nat i \<noteq> t + of_nat j"
  by (simp add: apart_def)

lemma apart_Suc: "apart s (Suc n) t (Suc k) \<Longrightarrow> apart (s + 1) n (t + 1) k"
  unfolding apart_def
proof (intro allI impI)
  fix i j
  assume a: "\<forall>i<Suc n. \<forall>j<Suc k. s + of_nat i \<noteq> t + of_nat j" and "i < n" "j < k"
  then have "s + of_nat (Suc i) \<noteq> t + of_nat (Suc j)" by blast
  then show "s + 1 + of_nat i \<noteq> t + 1 + of_nat j" by (simp add: algebra_simps)
qed

lemma safestrcpy_loop_frame:
  assumes "Suc n \<le> 2 ^ 32" and "Suc n \<le> unat (a - s)"
  shows "safestrcpy_loop m s t n a = m a"
  using assms
proof (induction n arbitrary: m s t)
  case 0
  then have "a \<noteq> s" by auto
  then show ?case by simp
next
  case (Suc n)
  then have as: "a \<noteq> s" by auto
  note u = unat_diff_Suc [OF as]
  have "a \<noteq> s + 1" using Suc.prems u by auto
  with Suc as u show ?case by auto
qed

lemma safestrcpy_loop_cstr:
  assumes "cstr m t xs" and "apart s (Suc n) t (Suc (length xs))" and "Suc n < 2 ^ 32"
  shows "cstr (safestrcpy_loop m s t n) s (take n xs)"
  using assms
proof (induction n arbitrary: m s t xs)
  case 0
  then show ?case by simp
next
  case (Suc n)
  show ?case
  proof (cases xs)
    case Nil
    with Suc.prems show ?thesis by simp
  next
    case (Cons x ys)
    have neq: "s \<noteq> t + of_nat j" if "j < Suc (length xs)" for j
      using apartD [OF Suc.prems(2), of 0 j] that by simp
    have ys: "cstr (m(s := x)) (t + 1) ys"
      using Suc.prems(1) Cons
      by (subst cstr_upd) (use neq [of "Suc _"] in \<open>auto simp: algebra_simps Cons\<close>)
    have "cstr (safestrcpy_loop (m(s := x)) (s + 1) (t + 1) n) (s + 1) (take n ys)"
    proof (rule Suc.IH [OF ys])
      show "apart (s + 1) (Suc n) (t + 1) (Suc (length ys))"
        using apart_Suc Suc.prems(2) Cons by simp
      show "Suc n < 2 ^ 32" using Suc.prems(3) by simp
    qed
    moreover have "safestrcpy_loop (m(s := x)) (s + 1) (t + 1) n s = x"
    proof -
      have "unat (s - (s + 1)) = 2 ^ 32 - 1"
        by (simp add: unsigned_minus_1_eq_mask mask_eq_exp_minus_1)
      then show ?thesis
        using Suc.prems(3) by (subst safestrcpy_loop_frame) auto
    qed
    ultimately show ?thesis using Suc.prems(1) Cons by simp
  qed
qed

lemma safestrcpy_cstr:
  assumes "cstr m t xs" and "apart s (nat n) t (Suc (length xs))" and "0 < n" and "n < 2 ^ 32"
  shows "cstr (safestrcpy m s t n) s (take (nat n - 1) xs)"
proof -
  have n: "Suc (nat (n - 1)) = nat n" "nat (n - 1) = nat n - 1" using assms(3) by auto
  have "cstr (safestrcpy_loop m s t (nat (n - 1))) s (take (nat (n - 1)) xs)"
    by (rule safestrcpy_loop_cstr) (use assms n in auto)
  with assms(3) n show ?thesis by (simp add: safestrcpy_def)
qed

lemma safestrcpy_frame:
  assumes "n < 2 ^ 32" and "nat n \<le> unat (a - s)"
  shows "safestrcpy m s t n a = m a"
proof (cases "n \<le> 0")
  case True
  then show ?thesis by (simp add: safestrcpy_def)
next
  case False
  then have "Suc (nat (n - 1)) = nat n" by auto
  with False assms show ?thesis
    by (simp add: safestrcpy_def safestrcpy_loop_frame)
qed

text \<open>\<open>strncpy\<close>: the first \<open>n\<close> bytes become the string padded with NULs.\<close>

lemma strncpy_pad_fill: "n \<le> 2 ^ 32 \<Longrightarrow> strncpy_pad m s n = fill m s 0 n"
proof (induction n arbitrary: m s)
  case 0
  then show ?case by (simp add: fill_def)
next
  case (Suc n)
  then show ?case by (simp add: fill_step)
qed

lemma strncpy_copy_bytes:
  assumes "cstr m t xs" and "apart s n t (Suc (length xs))" and "n \<le> 2 ^ 32"
  shows "strncpy_copy m s t n =
     (\<lambda>a. if unat (a - s) < n
           then if unat (a - s) < length xs then xs ! unat (a - s) else 0
           else m a)"
  using assms
proof (induction n arbitrary: m s t xs)
  case 0
  then show ?case by simp
next
  case (Suc n)
  show ?case
  proof (cases xs)
    case Nil
    have "strncpy_copy m s t (Suc n) = fill (m(s := 0)) (s + 1) 0 n"
      using Suc.prems Nil by (simp add: strncpy_pad_fill)
    also have "\<dots> = fill m s 0 (Suc n)"
      by (rule fill_step) (use Suc.prems in simp)
    finally have "strncpy_copy m s t (Suc n) = fill m s 0 (Suc n)" .
    then show ?thesis using \<open>xs = []\<close> by (simp add: fill_def fun_eq_iff)
  next
    case (Cons x ys)
    have neq: "s \<noteq> t + of_nat j" if "j < Suc (length xs)" for j
      using apartD [OF Suc.prems(2), of 0 j] that by simp
    have "cstr (m(s := x)) (t + 1) ys"
      using Suc.prems(1) Cons
      by (subst cstr_upd) (use neq [of "Suc _"] in \<open>auto simp: algebra_simps Cons\<close>)
    moreover have "apart (s + 1) n (t + 1) (Suc (length ys))"
      using apart_Suc Suc.prems(2) Cons by simp
    ultimately have IH: "strncpy_copy (m(s := x)) (s + 1) (t + 1) n =
       (\<lambda>a. if unat (a - (s + 1)) < n
             then if unat (a - (s + 1)) < length ys then ys ! unat (a - (s + 1)) else 0
             else (m(s := x)) a)"
      by (rule Suc.IH) (use Suc.prems in simp)
    show ?thesis
    proof
      fix a
      have max: "unat (s - (s + 1)) = 2 ^ 32 - 1"
        by (simp add: unsigned_minus_1_eq_mask mask_eq_exp_minus_1)
      show "strncpy_copy m s t (Suc n) a = (if unat (a - s) < Suc n
           then if unat (a - s) < length xs then xs ! unat (a - s) else 0 else m a)"
      proof (cases "a = s")
        case True
        then show ?thesis using Suc.prems Cons IH max by auto
      next
        case False
        note u = unat_diff_Suc [OF False]
        show ?thesis
          using False u(2) Suc.prems Cons IH by (auto simp: u(1) nth_Cons' )
      qed
    qed
  qed
qed

lemma strncpy_bytes:
  assumes "cstr m t xs" and "apart s (nat n) t (Suc (length xs))" and "n \<le> 2 ^ 32"
  shows "strncpy m s t n a =
     (if unat (a - s) < nat n
      then if unat (a - s) < length xs then xs ! unat (a - s) else 0
      else m a)"
  unfolding strncpy_def by (subst strncpy_copy_bytes [OF assms(1,2)]) (use assms(3) in auto)

section \<open>Properties\<close>

text \<open>
  C4. \<open>memset\<close> writes the low byte of \<open>c\<close> to the \<open>n\<close> bytes from \<open>dst\<close> on and changes
  nothing else, on the word-sized \<^verbatim>\<open>stosl\<close> path as on the byte-sized \<^verbatim>\<open>stosb\<close> path, also
  when the region wraps around the address space. So it agrees with the byte loop of
  \<open>memset_volatile\<close>.
\<close>

theorem memset_correct:
  "memset m dst c n a = (if unat (a - dst) < unat n then ucast c else m a)
   \<and> memset m dst c n = memset_volatile m dst c n"
  by (simp add: memset_fill memset_volatile_fill fill_def)

text \<open>
  C5. \<open>memmove\<close> copies: every destination byte gets the byte the source had before the call,
  however the two regions overlap, and no other byte changes.
\<close>

theorem memmove_correct:
  assumes "unat src + unat n \<le> 2 ^ 32" and "unat dst + unat n \<le> 2 ^ 32"
  shows "memmove m dst src n a = (if unat (a - dst) < unat n then m (src + (a - dst)) else m a)"
  using memmove_copied [OF assms] by (simp add: copied_def)

theorem memmove_correct_witness:
  "memmove (\<lambda>a. ucast a) 102 100 4 105 = 103 \<and> memmove (\<lambda>a. ucast a) 100 102 4 103 = 105"
  using memmove_correct [of 100 4 102 "\<lambda>a. ucast a" 105] memmove_correct [of 102 4 100 "\<lambda>a. ucast a" 103]
  by simp

text \<open>
  \<open>safestrcpy\<close> with a positive size on disjoint buffers leaves a NUL-terminated string in
  the destination, the longest prefix of the source that fits with its terminator, and writes
  no byte beyond the \<open>n\<close> bytes it was given.
\<close>

theorem safestrcpy_correct:
  assumes "cstr m t xs" and "apart s (nat n) t (Suc (length xs))" and "0 < n" and "n < 2 ^ 32"
  shows "cstr (safestrcpy m s t n) s (take (nat n - 1) xs)
     \<and> (\<forall>a. nat n \<le> unat (a - s) \<longrightarrow> safestrcpy m s t n a = m a)"
  using safestrcpy_cstr [OF assms] safestrcpy_frame [OF assms(4)] by auto

theorem safestrcpy_correct_witness:
  "cstr (safestrcpy ((\<lambda>_. 7)(8 := 65, 9 := 66, 10 := 67, 11 := 0)) 16 8 3) 16 [65, 66]"
proof -
  have "apart 16 3 8 (Suc (Suc (Suc (Suc 0))))"
    unfolding apart_def
  proof (intro allI impI)
    fix i j :: nat
    assume "i < 3" "j < Suc (Suc (Suc (Suc 0)))"
    then have "i \<in> {0, 1, 2}" "j \<in> {0, 1, 2, 3}" by auto
    then show "16 + of_nat i \<noteq> (8 + of_nat j :: u32)" by auto
  qed
  then show ?thesis
    using safestrcpy_correct [of "(\<lambda>_. 7)(8 := 65, 9 := 66, 10 := 67, 11 := 0)" 8 "[65, 66, 67]" 16 3]
    by simp
qed

end
