(* ===== verification/Page_Alloc.thy ===== *)
theory Page_Alloc
  imports Kernel_String
begin

text \<open>
  The physical page allocator, \<^verbatim>\<open>kernel/core/kalloc.c\<close>. The free list lives in the memory it
  manages: a free run starts with its header (\<^verbatim>\<open>next\<close> at offset 0, \<^verbatim>\<open>num_pages\<close> at offset 4)
  in its own first page. The model works on the byte memory, so the aliasing between the
  headers and the pages handed out is the program's own. \<^verbatim>\<open>kmem.lock\<close> brackets every
  operation; each call is taken as one critical section.
\<close>

section \<open>State and operations\<close>

record kmem_state =
  use_lock :: bool
  freelist :: u32
  ram :: mem

definition PGSIZE :: u32 where "PGSIZE = 4096"

definition PGROUNDUP :: "u32 \<Rightarrow> u32" where
  "PGROUNDUP sz = (sz + PGSIZE - 1) AND NOT (PGSIZE - 1)"

definition PGROUNDDOWN :: "u32 \<Rightarrow> u32" where
  "PGROUNDDOWN a = a AND NOT (PGSIZE - 1)"

text \<open>The fields of \<^verbatim>\<open>struct run\<close> behind a pointer.\<close>

abbreviation run_next :: "mem \<Rightarrow> u32 \<Rightarrow> u32" where
  "run_next m r \<equiv> load32 m r"

abbreviation run_num_pages :: "mem \<Rightarrow> u32 \<Rightarrow> u32" where
  "run_num_pages m r \<equiv> load32 m (r + 4)"

abbreviation set_run_next :: "mem \<Rightarrow> u32 \<Rightarrow> u32 \<Rightarrow> mem" where
  "set_run_next m r v \<equiv> store32 m r v"

abbreviation set_run_num_pages :: "mem \<Rightarrow> u32 \<Rightarrow> u32 \<Rightarrow> mem" where
  "set_run_num_pages m r v \<equiv> store32 m (r + 4) v"

definition kinit1 :: "kmem_state \<Rightarrow> u32 \<Rightarrow> u32 \<Rightarrow> kmem_state" where
  "kinit1 st vstart vend =
     (let fl = PGROUNDUP vstart;
          m1 = set_run_next (ram st) fl 0;
          m2 = set_run_num_pages m1 fl ((vend - PGROUNDUP vstart) div PGSIZE)
      in st\<lparr>use_lock := False, freelist := fl, ram := m2\<rparr>)"

definition kinit2 :: "kmem_state \<Rightarrow> u32 \<Rightarrow> u32 \<Rightarrow> kmem_state" where
  "kinit2 st vstart vend =
     (let m1 = set_run_next (ram st) (freelist st) (PGROUNDUP vstart);
          m2 = set_run_next m1 (run_next m1 (freelist st)) 0;
          m3 = set_run_num_pages m2 (run_next m2 (freelist st))
                 ((vend - PGROUNDUP vstart) div PGSIZE)
      in st\<lparr>ram := m3, use_lock := True\<rparr>)"

text \<open>
  The \<^verbatim>\<open>while (r->next)\<close> loop of \<open>pgalloc\<close>: the run found (0 when the list ends) and the
  memory after unlinking or splitting it.
\<close>

partial_function (option) pgalloc_search :: "mem \<Rightarrow> u32 \<Rightarrow> u32 \<Rightarrow> (u32 \<times> mem) option" where
  "pgalloc_search m r num_pages =
     (if run_next m r = 0 then Some (0, m)
      else if run_num_pages m (run_next m r) \<ge> num_pages
      then Some (run_next m r,
             if run_num_pages m (run_next m r) > num_pages
             then let newrun = run_next m r + num_pages * PGSIZE;
                      m1 = set_run_next m newrun (run_next m (run_next m r));
                      m2 = set_run_num_pages m1 newrun
                             (run_num_pages m1 (run_next m1 r) - num_pages)
                  in set_run_next m2 r newrun
             else if run_num_pages m (run_next m r) = num_pages
             then set_run_next m r (run_next m (run_next m r))
             else m)
      else pgalloc_search m (run_next m r) num_pages)"

definition pgalloc :: "kmem_state \<Rightarrow> u32 \<Rightarrow> (u32 \<times> kmem_state) kres" where
  "pgalloc st num_pages =
     (if freelist st = 0 then Panic ''out of memory''
      else let m = ram st; fl = freelist st in
        if run_num_pages m fl \<ge> num_pages
        then if run_num_pages m fl > num_pages
             then let newfl = fl + num_pages * PGSIZE;
                      m1 = set_run_next m newfl (run_next m fl);
                      m2 = set_run_num_pages m1 newfl (run_num_pages m1 fl - num_pages)
                  in Ok (fl, st\<lparr>ram := m2, freelist := newfl\<rparr>)
             else if run_num_pages m fl = num_pages
             then Ok (fl, st\<lparr>freelist := run_next m fl\<rparr>)
             else Ok (fl, st)
        else kbind (of_loop (pgalloc_search m fl num_pages))
               (\<lambda>(p, m'). if p = 0 then Panic ''out of memory'' else Ok (p, st\<lparr>ram := m'\<rparr>)))"

definition pgfree :: "kmem_state \<Rightarrow> u32 \<Rightarrow> u32 \<Rightarrow> kmem_state" where
  "pgfree st ptr num_pages =
     (let m = memset (ram st) ptr 1 (num_pages * PGSIZE);
          orighead = freelist st;
          m1 = set_run_num_pages m ptr num_pages;
          m2 = set_run_next m1 ptr orighead
      in st\<lparr>freelist := ptr, ram := m2\<rparr>)"

definition kalloc :: "kmem_state \<Rightarrow> (u32 \<times> kmem_state) kres" where
  "kalloc st = pgalloc st 1"

definition kfree :: "kmem_state \<Rightarrow> u32 \<Rightarrow> kmem_state" where
  "kfree st ptr = pgfree st ptr 1"

text \<open>The counting loop of \<open>print_memory_usage\<close>: pages and clusters (runs).\<close>

partial_function (option) memory_usage :: "mem \<Rightarrow> u32 \<Rightarrow> u32 \<Rightarrow> u32 \<Rightarrow> (u32 \<times> u32) option" where
  "memory_usage m r pages clusters =
     (if r = 0 then Some (pages, clusters)
      else memory_usage m (run_next m r) (pages + run_num_pages m r) (clusters + 1))"

definition print_memory_usage :: "kmem_state \<Rightarrow> (u32 \<times> u32) option" where
  "print_memory_usage st = memory_usage (ram st) (freelist st) 0 0"

section \<open>The free list as a list of runs\<close>

type_synonym run = "u32 \<times> nat"

primrec runs :: "mem \<Rightarrow> u32 \<Rightarrow> run list \<Rightarrow> bool" where
  "runs m p [] \<longleftrightarrow> p = 0"
| "runs m p (r # rs) \<longleftrightarrow> p = fst r \<and> p \<noteq> 0 \<and> unat (run_num_pages m p) = snd r
     \<and> runs m (run_next m p) rs"

text \<open>Page numbers of a run; runs are non-empty, page-aligned and do not wrap.\<close>

definition run_pages :: "run \<Rightarrow> nat set" where
  "run_pages r = {unat (fst r) div 4096 ..< unat (fst r) div 4096 + snd r}"

definition good_run :: "run \<Rightarrow> bool" where
  "good_run r \<longleftrightarrow> fst r \<noteq> 0 \<and> unat (fst r) mod 4096 = 0 \<and> 0 < snd r
     \<and> unat (fst r) + snd r * 4096 \<le> 2 ^ 32"

primrec wf_runs :: "run list \<Rightarrow> bool" where
  "wf_runs [] \<longleftrightarrow> True"
| "wf_runs (r # rs) \<longleftrightarrow> good_run r \<and> (\<forall>r' \<in> set rs. run_pages r \<inter> run_pages r' = {})
     \<and> wf_runs rs"

definition free_pages :: "run list \<Rightarrow> nat set" where
  "free_pages rs = (\<Union>r \<in> set rs. run_pages r)"

definition kmem_runs :: "kmem_state \<Rightarrow> run list \<Rightarrow> bool" where
  "kmem_runs st rs \<longleftrightarrow> runs (ram st) (freelist st) rs \<and> wf_runs rs"

text \<open>First fit on the list of runs: the specification \<open>pgalloc\<close> is proved to refine.\<close>

fun first_fit :: "run list \<Rightarrow> nat \<Rightarrow> (u32 \<times> run list) option" where
  "first_fit [] n = None"
| "first_fit ((a, k) # rs) n =
     (if n \<le> k then Some (a, if n < k then (a + of_nat n * 4096, k - n) # rs else rs)
      else (case first_fit rs n of None \<Rightarrow> None | Some (p, rs') \<Rightarrow> Some (p, (a, k) # rs')))"

section \<open>Headers and pages\<close>

definition page_of :: "u32 \<Rightarrow> nat" where
  "page_of a = unat a div 4096"

abbreviation aligned :: "u32 \<Rightarrow> bool" where
  "aligned a \<equiv> unat a mod 4096 = 0"

lemma alignedE:
  assumes "aligned a"
  obtains k where "unat a = 4096 * k" and "k < 1048576"
proof
  show "unat a = 4096 * (unat a div 4096)" using assms by auto
  then show "unat a div 4096 < 1048576" using unat_u32_lt [of a] by linarith
qed

lemma aligned_le: "aligned a \<Longrightarrow> unat a \<le> 4294963200"
  by (erule alignedE) simp

lemma aligned_plus4: "aligned a \<Longrightarrow> unat (a + 4) = unat a + 4"
  using aligned_le [of a] by (subst unat_add_lt_u32) auto

lemma aligned_gap:
  assumes "aligned a" and "aligned b" and "a \<noteq> b"
  shows "unat a + 4096 \<le> unat b \<or> unat b + 4096 \<le> unat a"
proof -
  have "unat a \<noteq> unat b" using assms(3) by (simp add: word_unat_eq_iff)
  moreover obtain k l where "unat a = 4096 * k" "unat b = 4096 * l"
    using assms by (metis alignedE)
  ultimately show ?thesis by auto
qed

lemma hdr_apart:
  assumes "aligned a" and "aligned b" and "a \<noteq> b"
  shows "4 \<le> unat (a - b)" "4 \<le> unat (a - (b + 4))" "4 \<le> unat (a + 4 - b)"
    "4 \<le> unat (a + 4 - (b + 4))"
proof -
  note f = aligned_gap [OF assms] aligned_plus4 [OF assms(1)] aligned_plus4 [OF assms(2)]
    aligned_le [OF assms(1)] aligned_le [OF assms(2)]
  show "4 \<le> unat (a - b)" "4 \<le> unat (a - (b + 4))" "4 \<le> unat (a + 4 - b)"
    "4 \<le> unat (a + 4 - (b + 4))"
    using f by (rule_tac [!] apart_u32) linarith+
qed

lemma load32_hdr [simp]:
  "load32 (store32 m a v) (a + 4) = load32 m (a + 4)"
  "load32 (store32 m (a + 4) v) a = load32 m a"
proof -
  have u: "unat (a + 4 - a) = 4" "unat (a - (a + 4)) = 4294967292" by simp_all
  have d: "4 \<le> unat (a + 4 - a)" "4 \<le> unat (a - (a + 4))"
    unfolding u by (rule order_refl, simp)
  show "load32 (store32 m a v) (a + 4) = load32 m (a + 4)"
    "load32 (store32 m (a + 4) v) a = load32 m a"
    by (rule load32_store32_other [OF d] load32_store32_other [OF d(2) d(1)])+
qed

lemma load32_hdr_other [simp]:
  assumes "aligned a" and "aligned b" and "a \<noteq> b"
  shows "load32 (store32 m b v) a = load32 m a"
    "load32 (store32 m (b + 4) v) a = load32 m a"
    "load32 (store32 m b v) (a + 4) = load32 m (a + 4)"
    "load32 (store32 m (b + 4) v) (a + 4) = load32 m (a + 4)"
  using hdr_apart [OF assms] hdr_apart [OF assms(2,1) assms(3) [symmetric]]
  by (simp_all only: load32_store32_other)

lemma page_of_hdr:
  assumes "aligned a" and "i < 8"
  shows "page_of (a + of_nat i) = page_of a"
proof -
  obtain k where k: "unat a = 4096 * k" and "k < 1048576" using assms(1) by (rule alignedE)
  then have "unat (a + of_nat i) = 4096 * k + i"
    using assms(2) by (subst unat_add_lt_u32) auto
  then show ?thesis using k assms(2) by (simp add: page_of_def)
qed

lemma load32_page:
  assumes "aligned a" and "\<And>x. page_of x = page_of a \<Longrightarrow> m' x = m x"
  shows "load32 m' a = load32 m a" "load32 m' (a + 4) = load32 m (a + 4)"
proof -
  show "load32 m' a = load32 m a"
    by (rule load32_cong) (use assms page_of_hdr in auto)
  show "load32 m' (a + 4) = load32 m (a + 4)"
  proof (rule load32_cong)
    fix i :: nat
    assume "i < 4"
    then have "page_of (a + of_nat (4 + i)) = page_of a" using assms(1) by (intro page_of_hdr) auto
    then show "m' (a + 4 + of_nat i) = m (a + 4 + of_nat i)"
      using assms(2) [of "a + of_nat (4 + i)"] by (simp add: add.assoc)
  qed
qed

lemma store32_hdr_page:
  assumes "aligned a" and "page_of x \<noteq> page_of a"
  shows "store32 m a v x = m x" "store32 m (a + 4) v x = m x"
proof -
  have "\<not> unat (x - (a + of_nat j)) < 4" if "j \<le> 4" for j
  proof
    assume lt: "unat (x - (a + of_nat j)) < 4"
    define i where "i = unat (x - (a + of_nat j))"
    have "x = a + of_nat (j + i)" by (simp add: i_def)
    moreover have "j + i < 8" using lt that by (simp add: i_def)
    ultimately show False using page_of_hdr [OF assms(1)] assms(2) by blast
  qed
  from this [of 0] this [of 4] show "store32 m a v x = m x" "store32 m (a + 4) v x = m x"
    by (simp_all add: store32_other)
qed

section \<open>Runs\<close>

lemma runs_cong:
  assumes "\<And>r. r \<in> set rs \<Longrightarrow> load32 m' (fst r) = load32 m (fst r)"
    and "\<And>r. r \<in> set rs \<Longrightarrow> load32 m' (fst r + 4) = load32 m (fst r + 4)"
  shows "runs m' p rs = runs m p rs"
  using assms
proof (induction rs arbitrary: p)
  case Nil
  then show ?case by simp
next
  case (Cons r rs)
  have "runs m' (load32 m p) rs = runs m (load32 m p) rs"
    by (rule Cons.IH) (use Cons.prems in simp_all)
  with Cons.prems(1) [of r] Cons.prems(2) [of r] show ?case by auto
qed

lemma runs_unique: "runs m p rs \<Longrightarrow> runs m p rs' \<Longrightarrow> rs = rs'"
proof (induction rs arbitrary: p rs')
  case Nil
  then show ?case by (cases rs') auto
next
  case (Cons r rs)
  then obtain r' rs2 where rs': "rs' = r' # rs2" by (cases rs') auto
  with Cons.prems have "r = r'" "runs m (load32 m p) rs" "runs m (load32 m p) rs2"
    by (auto simp: prod_eq_iff)
  with rs' show ?case using Cons.IH by simp
qed

lemma wf_runs_good: "wf_runs rs \<Longrightarrow> r \<in> set rs \<Longrightarrow> good_run r"
  by (induction rs) auto

lemma good_run_aligned: "good_run r \<Longrightarrow> aligned (fst r)"
  by (simp add: good_run_def)

lemma first_page: "good_run r \<Longrightarrow> page_of (fst r) \<in> run_pages r"
  by (simp add: good_run_def run_pages_def page_of_def)

lemma store32_head_page:
  assumes "good_run (a, k)" and "page_of x \<notin> run_pages (a, k)"
  shows "store32 m a v x = m x"
proof (rule store32_hdr_page(1))
  show "aligned a" using good_run_aligned [OF assms(1)] by simp
  show "page_of x \<noteq> page_of a" using first_page [OF assms(1)] assms(2) by auto
qed

lemma free_pages_simps [simp]:
  "free_pages [] = {}"
  "free_pages (r # rs) = run_pages r \<union> free_pages rs"
  by (simp_all add: free_pages_def)

lemma run_pages_free: "r \<in> set rs \<Longrightarrow> run_pages r \<subseteq> free_pages rs"
  by (auto simp: free_pages_def)

lemma wf_runs_free: "wf_runs rs \<Longrightarrow> r \<in> set rs \<Longrightarrow> good_run r \<and> run_pages r \<subseteq> free_pages rs"
  using wf_runs_good run_pages_free by blast

lemma wf_runs_Cons:
  "wf_runs (r # rs) \<longleftrightarrow> good_run r \<and> run_pages r \<inter> free_pages rs = {} \<and> wf_runs rs"
  by (auto simp: free_pages_def)

text \<open>Splitting a run after its first \<open>n\<close> pages.\<close>

definition rest_run :: "u32 \<Rightarrow> nat \<Rightarrow> nat \<Rightarrow> run" where
  "rest_run a k n = (a + of_nat n * 4096, k - n)"

lemma split_run:
  assumes "good_run (a, k)" and "0 < n" and "n < k"
  shows "unat (a + of_nat n * 4096) = unat a + n * 4096"
    and "good_run (rest_run a k n)" and "good_run (a, n)"
    and "run_pages (a, k) = run_pages (a, n) \<union> run_pages (rest_run a k n)"
    and "run_pages (a, n) \<inter> run_pages (rest_run a k n) = {}"
proof -
  have b: "unat a + k * 4096 \<le> 4294967296" "aligned a" "a \<noteq> 0"
    using assms(1) by (simp_all add: good_run_def)
  have "unat (of_nat n * 4096 :: u32) = n * 4096"
    using b(1) assms(3) unat_of_nat_u32 [of "n * 4096"] by simp
  then show u: "unat (a + of_nat n * 4096) = unat a + n * 4096"
    using b(1) assms(3) by (subst unat_add_lt_u32) auto
  then have nz: "a + of_nat n * 4096 \<noteq> 0" using assms(2) by (metis add_is_0 mult_is_0 not_gr_zero unat_0 zero_neq_numeral)
  have d: "(unat a + n * 4096) div 4096 = unat a div 4096 + n" by simp
  show "good_run (a, n)" using assms by (auto simp: good_run_def)
  show "good_run (rest_run a k n)"
    using b assms(3) nz by (simp add: good_run_def rest_run_def u diff_mult_distrib)
  show "run_pages (a, k) = run_pages (a, n) \<union> run_pages (rest_run a k n)"
    and "run_pages (a, n) \<inter> run_pages (rest_run a k n) = {}"
    using assms(3) by (auto simp: run_pages_def rest_run_def u d)
qed

section \<open>Allocation\<close>

text \<open>
  The header written when a run is split: the rest of the run \<open>(b, l)\<close> after \<open>n\<close> pages, and
  the other runs keep their headers.
\<close>

definition split_mem :: "mem \<Rightarrow> u32 \<Rightarrow> u32 \<Rightarrow> mem" where
  "split_mem m b n = store32 (store32 m (b + n * PGSIZE) (load32 m b)) (b + n * PGSIZE + 4)
     (load32 m (b + 4) - n)"

lemma split_mem:
  assumes "runs m b ((b, l) # rs)" and "wf_runs ((b, l) # rs)" and "0 < n" and "unat n < l"
  shows "runs (split_mem m b n) (b + n * PGSIZE) (rest_run b l (unat n) # rs)"
    and "\<And>r. good_run r \<Longrightarrow> run_pages r \<inter> run_pages (b, l) = {} \<Longrightarrow>
        load32 (split_mem m b n) (fst r) = load32 m (fst r) \<and>
        load32 (split_mem m b n) (fst r + 4) = load32 m (fst r + 4)"
    and "\<And>x. page_of x \<notin> run_pages (b, l) \<Longrightarrow> split_mem m b n x = m x"
proof -
  let ?c = "b + n * PGSIZE"
  have c: "fst (rest_run b l (unat n)) = ?c" by (simp add: rest_run_def PGSIZE_def)
  have n0: "0 < unat n" using assms(3) by (simp add: unat_gt_0)
  have g: "good_run (b, l)" using assms(2) by simp
  note sp = split_run [OF g n0 assms(4)]
  have al: "aligned ?c" using sp(2) good_run_aligned c by metis
  have pc: "page_of ?c \<in> run_pages (b, l)" using first_page [OF sp(2)] sp(4) c by auto
  show frame: "load32 (split_mem m b n) (fst r) = load32 m (fst r) \<and>
        load32 (split_mem m b n) (fst r + 4) = load32 m (fst r + 4)"
    if r: "good_run r" "run_pages r \<inter> run_pages (b, l) = {}" for r
  proof -
    have "fst r \<noteq> ?c" using first_page [OF r(1)] r(2) pc by auto
    then show ?thesis using good_run_aligned [OF r(1)] al by (simp add: split_mem_def)
  qed
  show "split_mem m b n x = m x" if "page_of x \<notin> run_pages (b, l)" for x
  proof -
    have "page_of x \<noteq> page_of ?c" using that pc by auto
    then show ?thesis using al by (simp add: split_mem_def store32_hdr_page)
  qed
  have "runs (split_mem m b n) (load32 m b) rs = runs m (load32 m b) rs"
    by (rule runs_cong; rule frame [THEN conjunct1] frame [THEN conjunct2])
      (use assms(2) wf_runs_good in auto)
  moreover have "unat (load32 m (b + 4) - n) = l - unat n"
    using assms by (simp add: unat_sub_le_u32)
  moreover have "?c \<noteq> 0" using sp(2) c by (simp add: good_run_def)
  ultimately show "runs (split_mem m b n) ?c (rest_run b l (unat n) # rs)"
    using assms(1) by (simp add: split_mem_def load32_store32_same rest_run_def PGSIZE_def)
qed

text \<open>What an allocation from the list \<open>rs\<close> with header memory \<open>m\<close> leaves behind.\<close>

definition alloc_post :: "mem \<Rightarrow> run list \<Rightarrow> mem \<Rightarrow> bool" where
  "alloc_post m rs m' \<longleftrightarrow> (\<forall>x. page_of x \<notin> free_pages rs \<longrightarrow> m' x = m x)"

lemma runs_relink:
  assumes "wf_runs ((a, k) # rs)" and "runs m a ((a, k) # rs0)"
    and "runs m' c rs'" and "\<And>r. r \<in> set rs' \<Longrightarrow> good_run r \<and> run_pages r \<subseteq> free_pages rs"
    and "load32 m' (a + 4) = load32 m (a + 4)"
  shows "runs (store32 m' a c) a ((a, k) # rs')"
proof -
  have "runs (store32 m' a c) c rs' = runs m' c rs'"
  proof (rule runs_cong)
    fix r
    assume "r \<in> set rs'"
    then have r: "good_run r" "run_pages r \<subseteq> free_pages rs" using assms(4) by auto
    have "page_of (fst r) \<in> free_pages rs" using first_page [OF r(1)] r(2) by auto
    moreover have "page_of a \<notin> free_pages rs"
      using first_page [of "(a, k)"] assms(1) unfolding wf_runs_Cons by auto
    ultimately have "fst r \<noteq> a" by auto
    then show "load32 (store32 m' a c) (fst r) = load32 m' (fst r)"
      "load32 (store32 m' a c) (fst r + 4) = load32 m' (fst r + 4)"
      using good_run_aligned [OF r(1)] assms(1) by (auto simp: good_run_def)
  qed
  with assms(2,3,5) show ?thesis by (simp add: load32_store32_same)
qed

lemma pgalloc_search_found:
  assumes "runs m a ((a, k) # (b, l) # rs)" and "wf_runs ((a, k) # (b, l) # rs)"
    and "0 < n" and "unat n \<le> l"
  shows "\<exists>m'. pgalloc_search m a n = Some (b, m')
     \<and> runs m' a ((a, k) # (if unat n < l then rest_run b l (unat n) # rs else rs))
     \<and> alloc_post m ((a, k) # (b, l) # rs) m'"
proof (cases "unat n < l")
  case True
  have b: "load32 m a = b" "b \<noteq> 0" "unat (load32 m (b + 4)) = l" "runs m b ((b, l) # rs)"
    using assms(1) by auto
  have wf: "wf_runs ((b, l) # rs)" and ga: "good_run (a, k)"
    and dj: "run_pages (a, k) \<inter> run_pages (b, l) = {}" using assms(2) by auto
  note sm = split_mem [OF b(4) wf assms(3) True]
  have n0: "0 < unat n" using assms(3) by (simp add: unat_gt_0)
  note sp = split_run [OF _ n0 True]
  have gc: "good_run (rest_run b l (unat n))" and gb: "good_run (b, l)" using sp(2) wf by auto
  have c: "fst (rest_run b l (unat n)) = b + n * PGSIZE" by (simp add: rest_run_def PGSIZE_def)
  have al: "aligned a" "aligned b" "aligned (b + n * PGSIZE)"
    using good_run_aligned [OF ga] good_run_aligned [OF gb] good_run_aligned [OF gc] c by simp_all
  have "page_of (b + n * PGSIZE) \<in> run_pages (b, l)" "page_of a \<in> run_pages (a, k)"
    using first_page [OF gc] sp(4) [OF gb] first_page [OF ga] c by auto
  then have ne: "a \<noteq> b + n * PGSIZE" using dj by auto
  have neb: "b \<noteq> b + n * PGSIZE"
    using sp(1) [OF gb] n0 by (auto simp: PGSIZE_def dest: arg_cong [of _ _ unat])
  let ?m' = "store32 (split_mem m b n) a (b + n * PGSIZE)"
  have "pgalloc_search m a n = Some (b, ?m')"
    using b al ne neb True assms(4)
    by (simp add: pgalloc_search.simps [of m a] split_mem_def Let_def word_le_nat_alt word_less_nat_alt)
  moreover have "runs ?m' a ((a, k) # rest_run b l (unat n) # rs)"
    by (rule runs_relink [OF assms(2) assms(1) sm(1)])
      (use gc sp(4) [OF gb] sm(2) [OF ga dj] wf_runs_free [OF wf] in auto)
  moreover have "alloc_post m ((a, k) # (b, l) # rs) ?m'"
    using sm(3) store32_head_page [OF ga] by (simp add: alloc_post_def)
  ultimately show ?thesis using True by auto
next
  case False
  have b: "load32 m a = b" "b \<noteq> 0" "unat (load32 m (b + 4)) = l" "runs m (load32 m b) rs"
    using assms(1) by auto
  have nl: "load32 m (b + 4) = n" using False b(3) assms(4) by (simp add: word_unat_eq_iff)
  have ga: "good_run (a, k)" using assms(2) by simp
  let ?m' = "store32 m a (load32 m b)"
  have "pgalloc_search m a n = Some (b, ?m')"
    using b nl by (simp add: pgalloc_search.simps [of m a])
  moreover have "runs ?m' a ((a, k) # rs)"
    by (rule runs_relink [OF assms(2) assms(1) b(4)]) (use assms(2) wf_runs_free in auto)
  moreover have "alloc_post m ((a, k) # (b, l) # rs) ?m'"
    using store32_head_page [OF ga] by (simp add: alloc_post_def)
  ultimately show ?thesis using False by auto
qed

lemma pgalloc_search_refines:
  assumes "runs m a ((a, k) # rs)" and "wf_runs ((a, k) # rs)" and "0 < n"
  shows "case first_fit rs (unat n) of
     None \<Rightarrow> pgalloc_search m a n = Some (0, m)
   | Some (p, rs') \<Rightarrow> \<exists>m'. pgalloc_search m a n = Some (p, m')
       \<and> runs m' a ((a, k) # rs') \<and> alloc_post m ((a, k) # rs) m'"
  using assms
proof (induction rs arbitrary: a k)
  case Nil
  then show ?case by (simp add: pgalloc_search.simps [of m a])
next
  case (Cons r rs)
  obtain b l where r: "r = (b, l)" by (cases r)
  show ?case
  proof (cases "unat n \<le> l")
    case True
    from pgalloc_search_found [OF Cons.prems [unfolded r] True] show ?thesis
      using r True by (auto simp: rest_run_def)
  next
    case False
    have b: "load32 m a = b" "b \<noteq> 0" "unat (load32 m (b + 4)) = l" "runs m b ((b, l) # rs)"
      using Cons.prems(1) r by auto
    have wf: "wf_runs ((b, l) # rs)" and ga: "good_run (a, k)"
      using Cons.prems(2) r by auto
    have go: "pgalloc_search m a n = pgalloc_search m b n"
      using b False by (simp add: pgalloc_search.simps [of m a] word_le_nat_alt)
    note IH = Cons.IH [OF b(4) wf Cons.prems(3)]
    show ?thesis
    proof (cases "first_fit rs (unat n)")
      case None
      with IH go r False show ?thesis by simp
    next
      case (Some q)
      then obtain p rs' where q: "first_fit rs (unat n) = Some (p, rs')" by (cases q) auto
      with IH obtain m' where m': "pgalloc_search m b n = Some (p, m')"
        "runs m' b ((b, l) # rs')" "alloc_post m ((b, l) # rs) m'" by auto
      have "page_of a \<notin> free_pages ((b, l) # rs)"
        using first_page [OF ga] Cons.prems(2) r unfolding wf_runs_Cons by auto
      then have "load32 m' a = load32 m a" "load32 m' (a + 4) = load32 m (a + 4)"
        using m'(3) load32_page [of a m' m] good_run_aligned [OF ga]
        by (auto simp: alloc_post_def simp del: free_pages_simps)
      then have "runs m' a ((a, k) # (b, l) # rs')"
        using Cons.prems(1) m'(2) b by simp
      moreover have "alloc_post m ((a, k) # (b, l) # rs) m'"
        using m'(3) by (auto simp: alloc_post_def)
      ultimately show ?thesis using q r False go m'(1) by auto
    qed
  qed
qed

lemma pgalloc_refines_first_fit:
  assumes "kmem_runs st rs" and "0 < n"
  shows "case first_fit rs (unat n) of
     None \<Rightarrow> pgalloc st n = Panic ''out of memory''
   | Some (p, rs') \<Rightarrow> \<exists>st'. pgalloc st n = Ok (p, st')
       \<and> runs (ram st') (freelist st') rs' \<and> use_lock st' = use_lock st
       \<and> alloc_post (ram st) rs (ram st')"
proof (cases rs)
  case Nil
  with assms show ?thesis by (simp add: kmem_runs_def pgalloc_def)
next
  case (Cons r rest)
  obtain a k where r: "r = (a, k)" by (cases r)
  let ?m = "ram st"
  have fl: "freelist st = a" "a \<noteq> 0" "unat (load32 ?m (a + 4)) = k" "runs ?m (load32 ?m a) rest"
    and ra: "runs ?m a ((a, k) # rest)" and wf: "wf_runs ((a, k) # rest)"
    using assms(1) Cons r by (auto simp: kmem_runs_def)
  show ?thesis
  proof (cases "unat n \<le> k")
    case False
    then have "pgalloc st n = kbind (of_loop (pgalloc_search ?m a n))
        (\<lambda>(p, m'). if p = 0 then Panic ''out of memory'' else Ok (p, st\<lparr>ram := m'\<rparr>))"
      using fl by (simp add: pgalloc_def Let_def word_le_nat_alt)
    moreover have "p \<noteq> 0" if "first_fit rest (unat n) = Some (p, rs')" for p rs'
    proof -
      have "wf_runs rest" using wf by simp
      then show ?thesis using that
        by (induction rest arbitrary: p rs') (auto simp: good_run_def split: if_splits option.splits)
    qed
    ultimately show ?thesis
      using pgalloc_search_refines [OF ra wf assms(2)] False Cons r fl(1)
      by (auto split: option.splits)
  next
    case True
    note le = True
    show ?thesis
    proof (cases "unat n < k")
      case False
      with le have "load32 ?m (a + 4) = n" using fl(3) by (simp add: word_unat_eq_iff)
      with fl True False Cons r show ?thesis
        by (simp add: pgalloc_def Let_def alloc_post_def)
    next
      case True
      note sm = split_mem [OF ra wf assms(2) True]
      have n0: "0 < unat n" using assms(2) by (simp add: unat_gt_0)
      have ga: "good_run (a, k)" using wf by simp
      note sp = split_run [OF ga n0 True]
      have c: "fst (rest_run a k (unat n)) = a + n * PGSIZE" by (simp add: rest_run_def PGSIZE_def)
      have "aligned a" "aligned (a + n * PGSIZE)"
        using good_run_aligned [OF ga] good_run_aligned [OF sp(2)] c by simp_all
      moreover have "a \<noteq> a + n * PGSIZE"
        using sp(1) n0 by (auto simp: PGSIZE_def dest: arg_cong [of _ _ unat])
      ultimately have "pgalloc st n =
          Ok (a, st\<lparr>ram := split_mem ?m a n, freelist := a + n * PGSIZE\<rparr>)"
        using fl True le
        by (simp add: pgalloc_def Let_def split_mem_def word_le_nat_alt word_less_nat_alt)
      then show ?thesis
        using sm(1,3) True Cons r le by (auto simp: rest_run_def alloc_post_def)
    qed
  qed
qed

lemma first_fit_None_iff: "first_fit rs n = None \<longleftrightarrow> (\<forall>r \<in> set rs. snd r < n)"
  by (induction rs n rule: first_fit.induct) (auto split: option.splits)

lemma first_fit_spec:
  assumes "first_fit rs n = Some (p, rs')" and "wf_runs rs" and "0 < n"
  shows "wf_runs rs' \<and> good_run (p, n) \<and> run_pages (p, n) \<inter> free_pages rs' = {}
     \<and> free_pages rs = run_pages (p, n) \<union> free_pages rs'"
  using assms
proof (induction rs n arbitrary: p rs' rule: first_fit.induct)
  case (1 n)
  then show ?case by simp
next
  case (2 a k rs n)
  have wf: "good_run (a, k)" "run_pages (a, k) \<inter> free_pages rs = {}" "wf_runs rs"
    using "2.prems"(2) unfolding wf_runs_Cons by auto
  consider "n < k" | "n = k" | "k < n" by linarith
  then show ?case
  proof cases
    case 1
    note sp = split_run [OF wf(1) "2.prems"(3) 1]
    have "p = a" "rs' = rest_run a k n # rs" using "2.prems"(1) 1 by (auto simp: rest_run_def)
    then show ?thesis using sp wf by (auto simp: wf_runs_Cons simp del: wf_runs.simps(2))
  next
    case 2
    with "2.prems"(1) have "p = a" "rs' = rs" by auto
    with 2 wf show ?thesis by auto
  next
    case 3
    with "2.prems"(1) obtain rs2 where f: "first_fit rs n = Some (p, rs2)" "rs' = (a, k) # rs2"
      by (auto split: option.splits)
    have "wf_runs rs2 \<and> good_run (p, n) \<and> run_pages (p, n) \<inter> free_pages rs2 = {}
        \<and> free_pages rs = run_pages (p, n) \<union> free_pages rs2"
      by (rule "2.IH") (use 3 f wf "2.prems" in auto)
    then show ?thesis using f wf by (auto simp: wf_runs_Cons simp del: wf_runs.simps(2))
  qed
qed

section \<open>Freeing\<close>

lemma run_bytes:
  assumes "good_run (p, unat n)"
  shows "unat (n * PGSIZE) = unat n * 4096"
    and "page_of x \<notin> run_pages (p, unat n) \<Longrightarrow> \<not> unat (x - p) < unat n * 4096"
proof -
  have g: "aligned p" "p \<noteq> 0" "unat p + unat n * 4096 \<le> 4294967296"
    using assms by (simp_all add: good_run_def)
  have "0 < unat p" using g(2) by (simp add: unat_gt_0)
  then show "unat (n * PGSIZE) = unat n * 4096"
    using g(3) by (simp add: PGSIZE_def unat_word_ariths)
  show "\<not> unat (x - p) < unat n * 4096" if "page_of x \<notin> run_pages (p, unat n)"
  proof
    assume lt: "unat (x - p) < unat n * 4096"
    have "unat (p + (x - p)) = unat p + unat (x - p)"
      by (rule unat_add_lt_u32) (use lt g(3) in linarith)
    then have "unat x = unat p + unat (x - p)" by simp
    moreover obtain k where "unat p = 4096 * k" using g(1) by (rule alignedE)
    ultimately show False using lt that by (auto simp: run_pages_def page_of_def)
  qed
qed

lemma pgfree_frame:
  assumes "good_run (p, unat n)" and "page_of x \<notin> run_pages (p, unat n)"
  shows "ram (pgfree st p n) x = ram st x"
proof -
  have "page_of x \<noteq> page_of p" using first_page [OF assms(1)] assms(2) by auto
  then have "ram (pgfree st p n) x = fill (ram st) p 1 (unat (n * PGSIZE)) x"
    using good_run_aligned [OF assms(1)]
    by (simp add: pgfree_def Let_def memset_fill store32_hdr_page)
  then show ?thesis using run_bytes [OF assms(1)] assms(2) by (simp add: fill_def)
qed

lemma pgfree_runs:
  assumes "kmem_runs st rs" and "good_run (p, unat n)"
    and "run_pages (p, unat n) \<inter> free_pages rs = {}"
  shows "kmem_runs (pgfree st p n) ((p, unat n) # rs)"
proof -
  have wf: "wf_runs ((p, unat n) # rs)"
    using assms by (simp add: kmem_runs_def wf_runs_Cons del: wf_runs.simps(2))
  let ?m' = "ram (pgfree st p n)"
  have hdr: "load32 ?m' p = freelist st" "load32 ?m' (p + 4) = n"
    by (simp_all add: pgfree_def Let_def load32_store32_same)
  have keep: "load32 ?m' (fst r) = load32 (ram st) (fst r)"
    "load32 ?m' (fst r + 4) = load32 (ram st) (fst r + 4)" if "r \<in> set rs" for r
  proof -
    have r: "good_run r" "run_pages r \<subseteq> free_pages rs"
      using that assms(1) wf_runs_free [of rs r] by (auto simp: kmem_runs_def)
    have "page_of (fst r) \<notin> run_pages (p, unat n)" using first_page [OF r(1)] r(2) assms(3) by auto
    then have "\<And>x. page_of x = page_of (fst r) \<Longrightarrow> ?m' x = ram st x"
      using pgfree_frame [OF assms(2)] by simp
    then show "load32 ?m' (fst r) = load32 (ram st) (fst r)"
      "load32 ?m' (fst r + 4) = load32 (ram st) (fst r + 4)"
      using load32_page [OF good_run_aligned [OF r(1)], of ?m' "ram st"] by auto
  qed
  have "runs ?m' (freelist st) rs = runs (ram st) (freelist st) rs"
    by (rule runs_cong) (rule keep; assumption)+
  moreover have "freelist (pgfree st p n) = p" "p \<noteq> 0"
    using assms(2) by (simp_all add: pgfree_def Let_def good_run_def)
  ultimately show ?thesis using wf hdr assms(1) by (simp add: kmem_runs_def)
qed

section \<open>Boot\<close>

lemma and_not_mask_u32: "(x :: u32) AND NOT (mask n) = push_bit n (drop_bit n x)"
  by (rule bit_word_eqI) (auto simp: bit_simps)

lemma unat_PGROUNDDOWN: "unat (PGROUNDDOWN a) = unat a div 4096 * 4096"
proof -
  have "PGSIZE - 1 = mask 12" by (simp add: PGSIZE_def mask_eq_exp_minus_1)
  then have "PGROUNDDOWN a = push_bit 12 (drop_bit 12 a)"
    by (simp add: PGROUNDDOWN_def and_not_mask_u32)
  moreover have "unat a div 4096 * 4096 < 4294967296"
    using unat_u32_lt [of a] by (rule le_less_trans [rotated]) simp
  ultimately show ?thesis
    by (simp add: push_bit_eq_mult drop_bit_eq_div unat_word_ariths unat_div)
qed

lemma unat_PGROUNDUP:
  assumes "unat sz \<le> 4294963200"
  shows "unat (PGROUNDUP sz) = (unat sz + 4095) div 4096 * 4096"
proof -
  have "PGROUNDUP sz = PGROUNDDOWN (sz + 4095)"
    by (simp add: PGROUNDUP_def PGROUNDDOWN_def PGSIZE_def add.commute)
  moreover have "unat (sz + 4095) = unat sz + 4095"
    using assms by (subst unat_add_lt_u32) auto
  ultimately show ?thesis by (simp add: unat_PGROUNDDOWN)
qed

lemma memory_usage_runs:
  "runs m p rs \<Longrightarrow> memory_usage m p pages clusters =
     Some (pages + of_nat (sum_list (map snd rs)), clusters + of_nat (length rs))"
proof (induction rs arbitrary: p pages clusters)
  case Nil
  then show ?case by (simp add: memory_usage.simps [of m 0])
next
  case (Cons r rs)
  then have p: "p \<noteq> 0" "runs m (load32 m p) rs" "unat (load32 m (p + 4)) = snd r" by auto
  from p(3) have "of_nat (unat (load32 m (p + 4))) = (of_nat (snd r) :: u32)" by (rule arg_cong)
  then have "load32 m (p + 4) = of_nat (snd r)" by simp
  with p Cons.IH [OF p(2)] show ?case by (simp add: memory_usage.simps [of m p] add.assoc)
qed

lemma kinit1_runs:
  assumes "0 < unat vstart" and "unat (PGROUNDUP vstart) + 4096 \<le> unat vend"
    and "unat vstart \<le> 4294963200"
  shows "kmem_runs (kinit1 st vstart vend)
     [(PGROUNDUP vstart, (unat vend - unat (PGROUNDUP vstart)) div 4096)]"
proof -
  let ?a = "PGROUNDUP vstart"
  have u: "unat ?a = (unat vstart + 4095) div 4096 * 4096" by (rule unat_PGROUNDUP) (rule assms(3))
  then have a: "aligned ?a" by simp
  have "0 < unat ?a" using u assms(1) by (simp add: div_greater_zero_iff)
  then have nz: "?a \<noteq> 0" by auto
  have k: "unat ((vend - ?a) div PGSIZE) = (unat vend - unat ?a) div 4096"
    using assms(2) by (simp add: PGSIZE_def unat_div unat_sub_le_u32)
  have "(unat vend - unat ?a) div 4096 * 4096 \<le> unat vend - unat ?a" by simp
  then have "unat ?a + (unat vend - unat ?a) div 4096 * 4096 \<le> 4294967296"
    using assms(2) unat_u32_lt [of vend] by linarith
  moreover have "0 < (unat vend - unat ?a) div 4096"
    using assms(2) by (simp add: div_greater_zero_iff)
  ultimately show ?thesis
    using a nz k by (simp add: kmem_runs_def kinit1_def Let_def good_run_def load32_store32_same)
qed

lemma kinit2_runs:
  assumes "kmem_runs st [(a, k)]"
    and "0 < unat vstart" and "unat (PGROUNDUP vstart) + 4096 \<le> unat vend"
    and "unat vstart \<le> 4294963200"
    and new: "b = PGROUNDUP vstart" "l = (unat vend - unat b) div 4096"
    and "run_pages (a, k) \<inter> run_pages (b, l) = {}"
  shows "kmem_runs (kinit2 st vstart vend) [(a, k), (b, l)]"
proof -
  have kb: "kmem_runs (kinit1 st vstart vend) [(b, l)]"
    using kinit1_runs [OF assms(2-4)] new by simp
  then have gb: "good_run (b, l)" by (simp add: kmem_runs_def)
  have ga: "good_run (a, k)" and fl: "freelist st = a" "unat (load32 (ram st) (a + 4)) = k"
    using assms(1) by (auto simp: kmem_runs_def)
  have "page_of a \<noteq> page_of b" using first_page [OF ga] first_page [OF gb] assms(7) by auto
  then have ne: "a \<noteq> b" "b \<noteq> a" by auto
  have al: "aligned a" "aligned b" using good_run_aligned ga gb by (metis fst_conv)+
  have l: "unat ((vend - b) div PGSIZE) = l"
    using kb by (simp add: kmem_runs_def kinit1_def Let_def load32_store32_same new)
  show ?thesis
    using ga gb fl al ne l assms(7)
    by (simp add: kmem_runs_def kinit2_def Let_def load32_store32_same good_run_def flip: new(1))
qed

section \<open>The contract of a page allocator\<close>

text \<open>
  A client allocates and frees runs of pages. \<open>owned\<close> lists the runs it holds; it frees
  only what it holds.
\<close>

inductive client_step :: "('s \<Rightarrow> u32 \<Rightarrow> (u32 \<times> 's) kres) \<Rightarrow> ('s \<Rightarrow> u32 \<Rightarrow> u32 \<Rightarrow> 's)
    \<Rightarrow> 's \<times> run list \<Rightarrow> 's \<times> run list \<Rightarrow> bool"
  for alloc free where
  client_alloc: "0 < n \<Longrightarrow> alloc s n = Ok (p, s') \<Longrightarrow>
     client_step alloc free (s, owned) (s', (p, unat n) # owned)"
| client_free: "owned = xs @ (p, unat n) # ys \<Longrightarrow>
     client_step alloc free (s, owned) (free s p n, xs @ ys)"

inductive_cases client_stepE: "client_step alloc free (s, owned) c"

lemma wf_runs_append:
  "wf_runs (xs @ ys) \<longleftrightarrow> wf_runs xs \<and> wf_runs ys \<and> free_pages xs \<inter> free_pages ys = {}"
  by (induction xs) (auto simp: wf_runs_Cons free_pages_def simp del: wf_runs.simps(2))

lemma free_pages_append [simp]: "free_pages (xs @ ys) = free_pages xs \<union> free_pages ys"
  by (simp add: free_pages_def)

locale page_allocator =
  fixes alloc :: "'s \<Rightarrow> u32 \<Rightarrow> (u32 \<times> 's) kres"
    and free :: "'s \<Rightarrow> u32 \<Rightarrow> u32 \<Rightarrow> 's"
    and ok :: "'s \<Rightarrow> bool"
    and avail :: "'s \<Rightarrow> nat set"
    and peek :: "'s \<Rightarrow> mem"
  assumes alloc_ok: "ok s \<Longrightarrow> 0 < n \<Longrightarrow> alloc s n = Ok (p, s') \<Longrightarrow>
      ok s' \<and> good_run (p, unat n) \<and> run_pages (p, unat n) \<inter> avail s' = {}
      \<and> avail s = run_pages (p, unat n) \<union> avail s'"
    and alloc_frame: "ok s \<Longrightarrow> 0 < n \<Longrightarrow> alloc s n = Ok (p, s') \<Longrightarrow> page_of x \<notin> avail s \<Longrightarrow>
      peek s' x = peek s x"
    and alloc_total: "ok s \<Longrightarrow> 0 < n \<Longrightarrow>
      alloc s n = Panic ''out of memory'' \<or> (\<exists>p s'. alloc s n = Ok (p, s'))"
    and free_ok: "ok s \<Longrightarrow> good_run (p, unat n) \<Longrightarrow> run_pages (p, unat n) \<inter> avail s = {} \<Longrightarrow>
      ok (free s p n) \<and> avail (free s p n) = run_pages (p, unat n) \<union> avail s"
    and free_frame: "ok s \<Longrightarrow> good_run (p, unat n) \<Longrightarrow> page_of x \<notin> run_pages (p, unat n) \<Longrightarrow>
      peek (free s p n) x = peek s x"
begin

text \<open>Ownership: no page is handed out twice and none is lost, over any run of the client.\<close>

lemma step_keeps:
  assumes "client_step alloc free (s, owned) (s', owned')"
    and "ok s" and "wf_runs owned" and "avail s \<inter> free_pages owned = {}"
  shows "ok s' \<and> wf_runs owned' \<and> avail s' \<inter> free_pages owned' = {}
     \<and> avail s' \<union> free_pages owned' = avail s \<union> free_pages owned"
  using assms(1)
proof cases
  case (client_alloc n p)
  note a = alloc_ok [OF assms(2) client_alloc(2,3)]
  show ?thesis
    using a assms(3,4) client_alloc(1) by (auto simp: wf_runs_Cons simp del: wf_runs.simps(2))
next
  case (client_free xs p n ys)
  have w: "wf_runs (xs @ ys)" "good_run (p, unat n)"
    "run_pages (p, unat n) \<inter> free_pages (xs @ ys) = {}"
    "free_pages owned = run_pages (p, unat n) \<union> free_pages (xs @ ys)"
    using assms(3) client_free
    by (auto simp: wf_runs_append wf_runs_Cons simp del: wf_runs.simps(2))
  have d: "run_pages (p, unat n) \<inter> avail s = {}" using w(4) assms(4) by auto
  show ?thesis using free_ok [OF assms(2) w(2) d] w assms(4) client_free by auto
qed

lemma run_keeps:
  assumes "(client_step alloc free)\<^sup>*\<^sup>* (s, owned) (s', owned')"
    and "ok s" and "wf_runs owned" and "avail s \<inter> free_pages owned = {}"
  shows "ok s' \<and> wf_runs owned' \<and> avail s' \<inter> free_pages owned' = {}
     \<and> avail s' \<union> free_pages owned' = avail s \<union> free_pages owned"
  using assms(1)
proof (induction rule: rtranclp_induct2)
  case refl
  then show ?case using assms by simp
next
  case (step t o1 t' o2)
  then have k: "ok t" "wf_runs o1" "avail t \<inter> free_pages o1 = {}" by blast+
  from step_keeps [OF step.hyps(2) k] step.IH show ?case by auto
qed

text \<open>A client's pages change only through the client: allocator calls do not touch them.\<close>

lemma step_frame:
  assumes "client_step alloc free (s, owned) (s', owned')"
    and "ok s" and "wf_runs owned" and "avail s \<inter> free_pages owned = {}"
    and "page_of x \<in> free_pages owned" and "page_of x \<in> free_pages owned'"
  shows "peek s' x = peek s x"
  using assms(1)
proof cases
  case (client_alloc n p)
  then show ?thesis using alloc_frame assms by blast
next
  case (client_free xs p n ys)
  then have "good_run (p, unat n)" "run_pages (p, unat n) \<inter> free_pages owned' = {}"
    using assms(3) by (auto simp: wf_runs_append wf_runs_Cons simp del: wf_runs.simps(2))
  then show ?thesis using free_frame [OF assms(2)] client_free assms(6) by auto
qed

end

section \<open>kalloc.c meets the contract\<close>

definition kmem_ok :: "kmem_state \<Rightarrow> bool" where
  "kmem_ok st \<longleftrightarrow> (\<exists>rs. kmem_runs st rs)"

definition kmem_avail :: "kmem_state \<Rightarrow> nat set" where
  "kmem_avail st = {pg. \<exists>rs. kmem_runs st rs \<and> pg \<in> free_pages rs}"

lemma kmem_avail_runs: "kmem_runs st rs \<Longrightarrow> kmem_avail st = free_pages rs"
  unfolding kmem_avail_def kmem_runs_def using runs_unique by blast

lemma pgalloc_step:
  assumes "kmem_runs st rs" and "0 < n" and "pgalloc st n = Ok (p, st')"
  obtains rs' where "first_fit rs (unat n) = Some (p, rs')" and "kmem_runs st' rs'"
    and "alloc_post (ram st) rs (ram st')"
proof (cases "first_fit rs (unat n)")
  case None
  then show ?thesis using pgalloc_refines_first_fit [OF assms(1,2)] assms(3) by simp
next
  case (Some q)
  then obtain q1 rs' where q: "first_fit rs (unat n) = Some (q1, rs')" by (cases q) auto
  have "wf_runs rs" using assms(1) by (simp add: kmem_runs_def)
  moreover have "0 < unat n" using assms(2) by (simp add: unat_gt_0)
  ultimately have "wf_runs rs'" using first_fit_spec [OF q] by simp
  then show ?thesis
    using pgalloc_refines_first_fit [OF assms(1,2)] q assms(3) that by (auto simp: kmem_runs_def)
qed

interpretation kpages: page_allocator pgalloc pgfree kmem_ok kmem_avail ram
proof
  fix s :: kmem_state and n :: u32 and p :: u32 and s' :: kmem_state and x :: u32
  show "kmem_ok s' \<and> good_run (p, unat n) \<and> run_pages (p, unat n) \<inter> kmem_avail s' = {}
      \<and> kmem_avail s = run_pages (p, unat n) \<union> kmem_avail s'"
    if h: "kmem_ok s" "0 < n" "pgalloc s n = Ok (p, s')"
  proof -
    obtain rs where rs: "kmem_runs s rs" using h(1) by (auto simp: kmem_ok_def)
    obtain rs' where f: "first_fit rs (unat n) = Some (p, rs')" "kmem_runs s' rs'"
      by (rule pgalloc_step [OF rs h(2,3)])
    have "0 < unat n" using h(2) by (simp add: unat_gt_0)
    then show ?thesis
      using first_fit_spec [OF f(1)] rs f(2) kmem_avail_runs [OF rs] kmem_avail_runs [OF f(2)]
      by (auto simp: kmem_runs_def kmem_ok_def)
  qed
  show "ram s' x = ram s x" if h: "kmem_ok s" "0 < n" "pgalloc s n = Ok (p, s')"
      "page_of x \<notin> kmem_avail s"
  proof -
    obtain rs where rs: "kmem_runs s rs" using h(1) by (auto simp: kmem_ok_def)
    show ?thesis
      using pgalloc_step [OF rs h(2,3)] h(4) kmem_avail_runs [OF rs] by (metis alloc_post_def)
  qed
  show "pgalloc s n = Panic ''out of memory'' \<or> (\<exists>p s'. pgalloc s n = Ok (p, s'))"
    if h: "kmem_ok s" "0 < n"
  proof -
    obtain rs where rs: "kmem_runs s rs" using h(1) by (auto simp: kmem_ok_def)
    show ?thesis
      using pgalloc_refines_first_fit [OF rs h(2)] by (auto split: option.splits)
  qed
  show "kmem_ok (pgfree s p n) \<and> kmem_avail (pgfree s p n) = run_pages (p, unat n) \<union> kmem_avail s"
    if h: "kmem_ok s" "good_run (p, unat n)" "run_pages (p, unat n) \<inter> kmem_avail s = {}"
  proof -
    obtain rs where rs: "kmem_runs s rs" using h(1) by (auto simp: kmem_ok_def)
    have "kmem_runs (pgfree s p n) ((p, unat n) # rs)"
      by (rule pgfree_runs [OF rs h(2)]) (use h(3) kmem_avail_runs [OF rs] in simp)
    then show ?thesis using kmem_avail_runs rs by (auto simp: kmem_ok_def)
  qed
  show "ram (pgfree s p n) x = ram s x"
    if "kmem_ok s" "good_run (p, unat n)" "page_of x \<notin> run_pages (p, unat n)"
    using that by (simp add: pgfree_frame)
qed

section \<open>Zero-page requests\<close>

text \<open>A run that is its own successor and is too small keeps the search from ever ending.\<close>

lemma pgalloc_search_cycle:
  assumes "load32 m r = r" and "r \<noteq> 0" and "load32 m (r + 4) < n"
  shows "pgalloc_search m r n = None"
proof (rule ccontr)
  assume "pgalloc_search m r n \<noteq> None"
  then obtain y where "pgalloc_search m r n = Some y" by auto
  then have "\<not> (load32 m r = r \<and> r \<noteq> 0 \<and> load32 m (r + 4) < n)"
    by (rule pgalloc_search.raw_induct [rotated]) (fastforce simp: not_le split: if_splits)
  with assms show False by simp
qed

lemma pgalloc_zero:
  assumes "kmem_runs st ((a, k) # rs)"
  shows "\<exists>st'. pgalloc st 0 = Ok (a, st') \<and> freelist st' = a"
proof -
  have "freelist st = a" "a \<noteq> 0" "unat (load32 (ram st) (a + 4)) = k" "0 < k"
    using assms by (auto simp: kmem_runs_def good_run_def)
  moreover from this have "0 < load32 (ram st) (a + 4)" by (metis unat_gt_0 word_gt_0)
  ultimately show ?thesis by (simp add: pgalloc_def Let_def)
qed

lemma pgfree_zero_cycle:
  assumes "freelist st = a" and "a \<noteq> 0" and "0 < n"
  shows "pgalloc (pgfree st a 0) n = Diverge"
  using assms
  by (simp add: pgfree_def pgalloc_def Let_def memset_fill fill_def load32_store32_same
      pgalloc_search_cycle word_gt_0)

section \<open>Properties\<close>

text \<open>
  C1. \<open>pgalloc\<close> implements first fit. On a well-formed free list a request for \<open>n > 0\<close> pages
  panics exactly when no run is long enough; otherwise it returns the first run that fits, the
  list in memory becomes the first-fit remainder and is again well-formed, and no byte outside
  the free pages changes. In particular the search loop ends.
\<close>

theorem pgalloc_first_fit:
  assumes "kmem_runs st rs" and "0 < n"
  shows "case first_fit rs (unat n) of
     None \<Rightarrow> pgalloc st n = Panic ''out of memory'' \<and> (\<forall>r \<in> set rs. snd r < unat n)
   | Some (p, rs') \<Rightarrow> \<exists>st'. pgalloc st n = Ok (p, st') \<and> kmem_runs st' rs'
       \<and> good_run (p, unat n)
       \<and> run_pages (p, unat n) \<inter> free_pages rs' = {}
       \<and> free_pages rs = run_pages (p, unat n) \<union> free_pages rs'
       \<and> (\<forall>x. page_of x \<notin> free_pages rs \<longrightarrow> ram st' x = ram st x)"
proof -
  have w: "wf_runs rs" "0 < unat n" using assms by (simp_all add: kmem_runs_def unat_gt_0)
  note ref = pgalloc_refines_first_fit [OF assms]
  show ?thesis
  proof (cases "first_fit rs (unat n)")
    case None
    then show ?thesis using ref first_fit_None_iff [of rs "unat n"] by simp
  next
    case (Some q)
    then obtain p rs' where q: "first_fit rs (unat n) = Some (p, rs')" by (cases q) auto
    show ?thesis
      using ref first_fit_spec [OF q w] unfolding q by (auto simp: kmem_runs_def alloc_post_def)
  qed
qed

definition boot_state :: kmem_state where
  "boot_state = kinit1 \<lparr>use_lock = True, freelist = 0, ram = \<lambda>_. 0\<rparr> 0x1000 0x5000"

lemma boot_state_runs: "kmem_runs boot_state [(0x1000, 4)]"
proof -
  have "unat (PGROUNDUP 0x1000) = 0x1000" by (subst unat_PGROUNDUP) simp_all
  moreover from this have "PGROUNDUP 0x1000 = 0x1000"
    by (simp add: PGROUNDUP_def PGSIZE_def)
  ultimately show ?thesis
    using kinit1_runs [of "0x1000" "0x5000"] by (simp add: boot_state_def)
qed

theorem pgalloc_first_fit_witness:
  "kmem_runs boot_state [(0x1000, 4)] \<and> (0 :: u32) < 3
   \<and> (\<exists>st'. pgalloc boot_state 3 = Ok (0x1000, st') \<and> kmem_runs st' [(0x4000, 1)])"
  using pgalloc_first_fit [OF boot_state_runs, of 3] boot_state_runs by auto



text \<open>
  C3. A request for zero pages hands out the head of the free list without removing it, and
  giving that run back makes the head its own successor: from then on \<open>pgalloc\<close> never returns
  for any request. (A message of size 0 makes exactly this pair of calls.)
\<close>

theorem zero_page_request_hangs_allocator:
  assumes "kmem_runs st ((a, k) # rs)" and "0 < n"
  shows "\<exists>st'. pgalloc st 0 = Ok (a, st') \<and> pgalloc (pgfree st' a 0) n = Diverge"
proof -
  have "a \<noteq> 0" using assms(1) by (auto simp: kmem_runs_def)
  then show ?thesis using pgalloc_zero [OF assms(1)] pgfree_zero_cycle assms(2) by blast
qed

theorem zero_page_request_hangs_allocator_witness:
  "kmem_runs boot_state [(0x1000, 4)]
   \<and> (\<exists>st'. pgalloc boot_state 0 = Ok (0x1000, st') \<and> pgalloc (pgfree st' 0x1000 0) 1 = Diverge)"
  using zero_page_request_hangs_allocator [OF boot_state_runs, of 1] boot_state_runs by simp

end
