(* ===== verification/Spinlock.thy ===== *)
theory Spinlock
  imports Kernel_Prelude
begin

text \<open>
  Spinlocks and interrupt nesting, \<^verbatim>\<open>kernel/arch/x86/spinlock.c\<close> and \<open>mycpu\<close> of
  \<^verbatim>\<open>kernel/core/proc.c\<close>. The operations are first given as functions on one CPU's state;
  \<open>lock_step\<close> then interleaves the atomic pieces of \<open>acquire\<close> and \<open>release\<close> of any number
  of CPUs on one lock, and mutual exclusion is proved of it. Debugging fields (\<^verbatim>\<open>name\<close>,
  \<^verbatim>\<open>pcs\<close>) are left out; FL_IF of the EFLAGS register is the field \<open>iflag\<close>.
\<close>

section \<open>State and operations\<close>

record cpu =
  apicid :: u8
  ncli :: int
  intena :: bool
  iflag :: bool

record spinlock =
  locked :: bool
  holder :: "nat option"

definition initlock :: spinlock where
  "initlock = \<lparr>locked = False, holder = None\<rparr>"

text \<open>\<open>mycpu\<close>: the index of the running CPU in \<^verbatim>\<open>cpus[0..ncpu)\<close>, found by its APIC id.\<close>

fun mycpu_loop :: "cpu list \<Rightarrow> u8 \<Rightarrow> nat \<Rightarrow> nat kres" where
  "mycpu_loop [] lapicid i = Panic (''unknown apicid'' @ [CHR 0x0A])"
| "mycpu_loop (c # cs) lapicid i = (if apicid c = lapicid then Ok i else mycpu_loop cs lapicid (Suc i))"

definition mycpu :: "bool \<Rightarrow> cpu list \<Rightarrow> u8 \<Rightarrow> nat kres" where
  "mycpu fl_if cpus lapicid =
     (if fl_if then Panic (''mycpu called with interrupts enabled'' @ [CHR 0x0A])
      else mycpu_loop cpus lapicid 0)"

text \<open>The functions below run on CPU number \<open>i\<close> whose record is \<open>c\<close>.\<close>

definition pushcli :: "cpu \<Rightarrow> cpu" where
  "pushcli c =
     (let eflags = iflag c;
          c = c\<lparr>iflag := False\<rparr>;
          c = (if ncli c = 0 then c\<lparr>intena := eflags\<rparr> else c)
      in c\<lparr>ncli := ncli c + 1\<rparr>)"

definition popcli :: "cpu \<Rightarrow> cpu kres" where
  "popcli c =
     (if iflag c then Panic ''popcli - interruptible''
      else let c = c\<lparr>ncli := ncli c - 1\<rparr> in
        if ncli c < 0 then Panic ''popcli''
        else if ncli c = 0 \<and> intena c then Ok (c\<lparr>iflag := True\<rparr>)
        else Ok c)"

definition holding :: "spinlock \<Rightarrow> nat \<Rightarrow> cpu \<Rightarrow> (bool \<times> cpu) kres" where
  "holding lk i c =
     (let c = pushcli c;
          r = (locked lk \<and> holder lk = Some i)
      in kbind (popcli c) (\<lambda>c. Ok (r, c)))"

text \<open>\<open>acquire\<close>: up to the spin loop; one \<^verbatim>\<open>xchg\<close>; recording the holder.\<close>

definition acquire_begin :: "spinlock \<Rightarrow> nat \<Rightarrow> cpu \<Rightarrow> cpu kres" where
  "acquire_begin lk i c =
     (let c = pushcli c in
      kbind (holding lk i c) (\<lambda>(h, c). if h then Panic ''acquire'' else Ok c))"

definition xchg_locked :: "spinlock \<Rightarrow> bool \<times> spinlock" where
  "xchg_locked lk = (locked lk, lk\<lparr>locked := True\<rparr>)"

definition acquire_end :: "spinlock \<Rightarrow> nat \<Rightarrow> spinlock" where
  "acquire_end lk i = lk\<lparr>holder := Some i\<rparr>"

text \<open>\<open>acquire\<close> with no other CPU running: the loop ends at once or never.\<close>

definition acquire :: "spinlock \<Rightarrow> nat \<Rightarrow> cpu \<Rightarrow> (spinlock \<times> cpu) kres" where
  "acquire lk i c =
     kbind (acquire_begin lk i c)
       (\<lambda>c. case xchg_locked lk of (old, lk) \<Rightarrow>
          if old then Diverge else Ok (acquire_end lk i, c))"

definition release_begin :: "spinlock \<Rightarrow> nat \<Rightarrow> cpu \<Rightarrow> (spinlock \<times> cpu) kres" where
  "release_begin lk i c =
     kbind (holding lk i c)
       (\<lambda>(h, c). if \<not> h then Panic ''release'' else Ok (lk\<lparr>holder := None\<rparr>, c))"

definition release_unlock :: "spinlock \<Rightarrow> spinlock" where
  "release_unlock lk = lk\<lparr>locked := False\<rparr>"

definition release :: "spinlock \<Rightarrow> nat \<Rightarrow> cpu \<Rightarrow> (spinlock \<times> cpu) kres" where
  "release lk i c =
     kbind (release_begin lk i c)
       (\<lambda>(lk, c). let lk = release_unlock lk in kbind (popcli c) (\<lambda>c. Ok (lk, c)))"

section \<open>Several CPUs on one lock\<close>

datatype lock_pc = Out | Spin | Got | Crit | Unlock | Pop

record smp =
  smp_cpus :: "nat \<Rightarrow> cpu"
  smp_pc :: "nat \<Rightarrow> lock_pc"
  smp_lock :: spinlock
  smp_panic :: "string option"

inductive lock_step :: "smp \<Rightarrow> smp \<Rightarrow> bool" where
  acq_begin: "smp_pc s i = Out \<Longrightarrow> acquire_begin (smp_lock s) i (smp_cpus s i) = Ok c \<Longrightarrow>
    lock_step s (s\<lparr>smp_cpus := (smp_cpus s)(i := c), smp_pc := (smp_pc s)(i := Spin)\<rparr>)"
| acq_panic: "smp_pc s i = Out \<Longrightarrow> acquire_begin (smp_lock s) i (smp_cpus s i) = Panic msg \<Longrightarrow>
    lock_step s (s\<lparr>smp_panic := Some msg\<rparr>)"
| acq_spin: "smp_pc s i = Spin \<Longrightarrow> xchg_locked (smp_lock s) = (True, lk) \<Longrightarrow>
    lock_step s (s\<lparr>smp_lock := lk\<rparr>)"
| acq_win: "smp_pc s i = Spin \<Longrightarrow> xchg_locked (smp_lock s) = (False, lk) \<Longrightarrow>
    lock_step s (s\<lparr>smp_lock := lk, smp_pc := (smp_pc s)(i := Got)\<rparr>)"
| acq_end: "smp_pc s i = Got \<Longrightarrow>
    lock_step s (s\<lparr>smp_lock := acquire_end (smp_lock s) i, smp_pc := (smp_pc s)(i := Crit)\<rparr>)"
| rel_begin: "smp_pc s i = Crit \<Longrightarrow> release_begin (smp_lock s) i (smp_cpus s i) = Ok (lk, c) \<Longrightarrow>
    lock_step s (s\<lparr>smp_cpus := (smp_cpus s)(i := c), smp_lock := lk, smp_pc := (smp_pc s)(i := Unlock)\<rparr>)"
| rel_panic: "smp_pc s i = Crit \<Longrightarrow> release_begin (smp_lock s) i (smp_cpus s i) = Panic msg \<Longrightarrow>
    lock_step s (s\<lparr>smp_panic := Some msg\<rparr>)"
| rel_unlock: "smp_pc s i = Unlock \<Longrightarrow>
    lock_step s (s\<lparr>smp_lock := release_unlock (smp_lock s), smp_pc := (smp_pc s)(i := Pop)\<rparr>)"
| rel_pop: "smp_pc s i = Pop \<Longrightarrow> popcli (smp_cpus s i) = Ok c \<Longrightarrow>
    lock_step s (s\<lparr>smp_cpus := (smp_cpus s)(i := c), smp_pc := (smp_pc s)(i := Out)\<rparr>)"
| pop_panic: "smp_pc s i = Pop \<Longrightarrow> popcli (smp_cpus s i) = Panic msg \<Longrightarrow>
    lock_step s (s\<lparr>smp_panic := Some msg\<rparr>)"

definition smp_start :: "smp \<Rightarrow> bool" where
  "smp_start s \<longleftrightarrow> smp_lock s = initlock \<and> smp_panic s = None
     \<and> (\<forall>i. smp_pc s i = Out \<and> ncli (smp_cpus s i) = 0)"

section \<open>Interrupt nesting\<close>

lemma pushcli_simps [simp]:
  "iflag (pushcli c) = False"
  "ncli (pushcli c) = ncli c + 1"
  "intena (pushcli c) = (if ncli c = 0 then iflag c else intena c)"
  "apicid (pushcli c) = apicid c"
  by (simp_all add: pushcli_def Let_def)

lemma popcli_pushcli:
  assumes "0 \<le> ncli c"
  shows "popcli (pushcli c) = Ok (c\<lparr>iflag := ncli c = 0 \<and> iflag c,
     intena := if ncli c = 0 then iflag c else intena c\<rparr>)"
  using assms by (cases c) (auto simp: popcli_def pushcli_def Let_def)

lemma holding_nested:
  assumes "0 < ncli c" and "\<not> iflag c"
  shows "holding lk i c = Ok (locked lk \<and> holder lk = Some i, c)"
  using assms popcli_pushcli [of c] by (cases c) (auto simp: holding_def Let_def)

lemma acquire_begin_eq:
  assumes "0 \<le> ncli c"
  shows "acquire_begin lk i c =
     (if locked lk \<and> holder lk = Some i then Panic ''acquire'' else Ok (pushcli c))"
  using assms by (simp add: acquire_begin_def Let_def holding_nested)

lemma release_begin_eq:
  assumes "0 < ncli c" and "\<not> iflag c"
  shows "release_begin lk i c =
     (if locked lk \<and> holder lk = Some i then Ok (lk\<lparr>holder := None\<rparr>, c) else Panic ''release'')"
  using assms by (auto simp: release_begin_def holding_nested)

lemma popcli_last:
  assumes "ncli c = 1" and "\<not> iflag c"
  shows "popcli c = Ok (c\<lparr>ncli := 0, iflag := intena c\<rparr>)"
  using assms by (cases c) (auto simp: popcli_def Let_def)

section \<open>Mutual exclusion\<close>

definition holds_lock :: "lock_pc \<Rightarrow> bool" where
  "holds_lock p \<longleftrightarrow> p \<in> {Got, Crit, Unlock}"

lemma holds_lock_simps [simp]:
  "holds_lock Got" "holds_lock Crit" "holds_lock Unlock"
  "\<not> holds_lock Out" "\<not> holds_lock Spin" "\<not> holds_lock Pop"
  by (simp_all add: holds_lock_def)

lemma ex_holds_upd:
  "holds_lock v = holds_lock (f i) \<Longrightarrow>
     (\<exists>j. holds_lock (if j = i then v else f j)) \<longleftrightarrow> (\<exists>j. holds_lock (f j))"
  by metis

definition smp_inv :: "smp \<Rightarrow> bool" where
  "smp_inv s \<longleftrightarrow> smp_panic s = None
     \<and> (\<forall>i. if smp_pc s i = Out then ncli (smp_cpus s i) = 0
            else ncli (smp_cpus s i) = 1 \<and> \<not> iflag (smp_cpus s i))
     \<and> (locked (smp_lock s) \<longleftrightarrow> (\<exists>i. holds_lock (smp_pc s i)))
     \<and> (\<forall>i j. holds_lock (smp_pc s i) \<and> holds_lock (smp_pc s j) \<longrightarrow> i = j)
     \<and> (\<forall>i. holder (smp_lock s) = Some i \<longleftrightarrow> smp_pc s i = Crit)"

lemma smp_inv_start: "smp_start s \<Longrightarrow> smp_inv s"
  by (auto simp: smp_start_def smp_inv_def initlock_def holds_lock_def)

lemma smp_invD:
  assumes "smp_inv s"
  shows "smp_panic s = None"
    and "smp_pc s i = Out \<Longrightarrow> ncli (smp_cpus s i) = 0"
    and "smp_pc s i \<noteq> Out \<Longrightarrow> ncli (smp_cpus s i) = 1 \<and> \<not> iflag (smp_cpus s i)"
    and "holds_lock (smp_pc s i) \<Longrightarrow> locked (smp_lock s)"
    and "\<not> locked (smp_lock s) \<Longrightarrow> \<not> holds_lock (smp_pc s i)"
    and "holds_lock (smp_pc s i) \<Longrightarrow> holds_lock (smp_pc s j) \<Longrightarrow> i = j"
    and "holder (smp_lock s) = Some i \<longleftrightarrow> smp_pc s i = Crit"
  using assms unfolding smp_inv_def by (auto split: if_splits)

lemma smp_inv_step:
  assumes "lock_step s s'" and "smp_inv s"
  shows "smp_inv s'"
  using assms(1)
proof cases
  case (acq_begin i c)
  then have "c = pushcli (smp_cpus s i)"
    using smp_invD(2) [OF assms(2)] by (auto simp: acquire_begin_eq split: if_splits)
  then show ?thesis
    using acq_begin assms(2) unfolding smp_inv_def by (auto simp: ex_holds_upd fun_upd_def split: if_splits)
next
  case (acq_panic i msg)
  then show ?thesis
    using smp_invD(2,7) [OF assms(2), of i] by (simp add: acquire_begin_eq split: if_splits)
next
  case (acq_spin i lk)
  then have "s' = s" by (auto simp: xchg_locked_def)
  then show ?thesis using assms(2) by simp
next
  case (acq_win i lk)
  then show ?thesis
    using assms(2) unfolding smp_inv_def xchg_locked_def
    by (auto split: if_splits)
next
  case (acq_end i)
  have "smp_pc s j \<noteq> Crit" if "j \<noteq> i" for j
    using smp_invD(6) [OF assms(2), of i j] acq_end that by auto
  then show ?thesis
    using acq_end assms(2) unfolding smp_inv_def acquire_end_def
    by (auto simp: ex_holds_upd fun_upd_def split: if_splits)
next
  case (rel_begin i lk c)
  have "lk = (smp_lock s)\<lparr>holder := None\<rparr>" "c = smp_cpus s i"
    using rel_begin smp_invD(3) [OF assms(2), of i] by (auto simp: release_begin_eq split: if_splits)
  moreover have "smp_pc s j \<noteq> Crit" if "j \<noteq> i" for j
    using smp_invD(6) [OF assms(2), of i j] rel_begin that by auto
  ultimately show ?thesis
    using rel_begin assms(2) unfolding smp_inv_def
    by (auto simp: ex_holds_upd fun_upd_def split: if_splits)
next
  case (rel_panic i msg)
  then show ?thesis
    using smp_invD(3,4,7) [OF assms(2), of i]
    by (simp add: release_begin_eq split: if_splits)
next
  case (rel_unlock i)
  have "\<not> holds_lock (smp_pc s j)" if "j \<noteq> i" for j
    using smp_invD(6) [OF assms(2), of i j] rel_unlock that by auto
  then show ?thesis
    using rel_unlock assms(2) unfolding smp_inv_def release_unlock_def
    by (auto split: if_splits)
next
  case (rel_pop i c)
  have "c = (smp_cpus s i)\<lparr>ncli := 0, iflag := intena (smp_cpus s i)\<rparr>"
    using rel_pop smp_invD(3) [OF assms(2), of i] by (simp add: popcli_last)
  then show ?thesis
    using rel_pop assms(2) unfolding smp_inv_def
    by (auto simp: ex_holds_upd fun_upd_def split: if_splits)
next
  case (pop_panic i msg)
  then show ?thesis using smp_invD(3) [OF assms(2), of i] by (simp add: popcli_last)
qed

lemma smp_inv_reachable: "lock_step\<^sup>*\<^sup>* s s' \<Longrightarrow> smp_inv s \<Longrightarrow> smp_inv s'"
  by (induction rule: rtranclp_induct) (auto intro: smp_inv_step)

lemma mycpu_loop_ok:
  "k < length cs \<Longrightarrow> distinct (map apicid cs) \<Longrightarrow> mycpu_loop cs (apicid (cs ! k)) i = Ok (i + k)"
proof (induction cs arbitrary: k i)
  case Nil
  then show ?case by simp
next
  case (Cons c cs)
  show ?case
  proof (cases k)
    case 0
    then show ?thesis by simp
  next
    case (Suc j)
    with Cons.prems have "apicid c \<noteq> apicid (cs ! j)" by auto
    with Suc Cons show ?thesis by simp
  qed
qed

section \<open>Properties\<close>

text \<open>
  C6. Mutual exclusion. However the atomic pieces of \<open>acquire\<close> and \<open>release\<close> of any number of
  CPUs interleave, at most one CPU is in its critical section, it is the recorded holder, the
  lock word is set, its interrupts are off, and none of the panics of \<open>acquire\<close>,
  \<open>release\<close> and \<open>popcli\<close> fires.
\<close>

theorem spinlock_mutual_exclusion:
  assumes "smp_start s" and "lock_step\<^sup>*\<^sup>* s s'"
  shows "smp_panic s' = None
     \<and> (\<forall>i. smp_pc s' i = Crit \<longrightarrow> locked (smp_lock s') \<and> holder (smp_lock s') = Some i
            \<and> \<not> iflag (smp_cpus s' i) \<and> (\<forall>j. smp_pc s' j = Crit \<longrightarrow> j = i))"
proof -
  have inv: "smp_inv s'" using assms smp_inv_start smp_inv_reachable by blast
  show ?thesis
    using smp_invD(1,3,4,6,7) [OF inv] by (auto simp: holds_lock_def)
qed

definition two_cpus :: smp where
  "two_cpus = \<lparr>smp_cpus = \<lambda>_. \<lparr>apicid = 0, ncli = 0, intena = False, iflag = True\<rparr>,
     smp_pc = \<lambda>_. Out, smp_lock = initlock, smp_panic = None\<rparr>"

theorem spinlock_mutual_exclusion_witness:
  "smp_start two_cpus \<and> (\<exists>s'. lock_step\<^sup>*\<^sup>* two_cpus s' \<and> smp_pc s' 1 = Crit
     \<and> smp_pc s' 0 = Spin \<and> holder (smp_lock s') = Some 1)"
proof -
  let ?c = "pushcli \<lparr>apicid = 0, ncli = 0, intena = False, iflag = True\<rparr>"
  define s1 where "s1 = two_cpus\<lparr>smp_cpus := (smp_cpus two_cpus)(0 := ?c), smp_pc := (smp_pc two_cpus)(0 := Spin)\<rparr>"
  define s2 where "s2 = s1\<lparr>smp_cpus := (smp_cpus s1)(1 := ?c), smp_pc := (smp_pc s1)(1 := Spin)\<rparr>"
  define s3 where "s3 = s2\<lparr>smp_lock := \<lparr>locked = True, holder = None\<rparr>, smp_pc := (smp_pc s2)(1 := Got)\<rparr>"
  define s4 where "s4 = s3\<lparr>smp_lock := acquire_end (smp_lock s3) 1, smp_pc := (smp_pc s3)(1 := Crit)\<rparr>"
  have "lock_step two_cpus s1"
    unfolding s1_def by (rule acq_begin) (simp_all add: two_cpus_def acquire_begin_eq initlock_def)
  moreover have "lock_step s1 s2"
    unfolding s2_def
    by (rule acq_begin) (simp_all add: s1_def two_cpus_def acquire_begin_eq initlock_def)
  moreover have "lock_step s2 s3"
    unfolding s3_def
    by (rule acq_win) (simp_all add: s2_def s1_def two_cpus_def xchg_locked_def initlock_def)
  moreover have "lock_step s3 s4"
    unfolding s4_def by (rule acq_end) (simp add: s3_def)
  ultimately have r: "lock_step\<^sup>*\<^sup>* two_cpus s4" by (meson converse_rtranclp_into_rtranclp r_into_rtranclp)
  have st: "smp_start two_cpus" by (simp add: smp_start_def two_cpus_def)
  have pc: "smp_pc s4 1 = Crit" "smp_pc s4 0 = Spin" by (simp_all add: s4_def s3_def s2_def s1_def)
  from spinlock_mutual_exclusion [OF st r] pc have "holder (smp_lock s4) = Some 1" by simp
  with st r pc show ?thesis by blast
qed

text \<open>
  \<open>acquire\<close> followed by \<open>release\<close> of a free lock succeeds, leaves the lock free and
  restores the nesting depth and the interrupt flag the CPU had before; in between interrupts
  are off.
\<close>

theorem acquire_release_restores:
  assumes "0 \<le> ncli c" and "ncli c = 0 \<or> \<not> iflag c" and "\<not> locked lk"
  shows "\<exists>lk' c'. acquire lk i c = Ok (lk', c') \<and> locked lk' \<and> \<not> iflag c'
     \<and> (\<exists>lk'' c''. release lk' i c' = Ok (lk'', c'') \<and> \<not> locked lk''
          \<and> ncli c'' = ncli c \<and> iflag c'' = iflag c)"
  using assms popcli_pushcli [OF assms(1)]
  by (auto simp: acquire_def acquire_begin_eq xchg_locked_def acquire_end_def release_def
      release_begin_eq release_unlock_def Let_def)

theorem acquire_release_restores_witness:
  "\<exists>lk' c'. acquire initlock 0 \<lparr>apicid = 3, ncli = 0, intena = False, iflag = True\<rparr> = Ok (lk', c')
     \<and> (\<exists>lk'' c''. release lk' 0 c' = Ok (lk'', c'') \<and> iflag c'')"
  using acquire_release_restores
    [of "\<lparr>apicid = 3, ncli = 0, intena = False, iflag = True\<rparr>" initlock 0]
  by (auto simp: initlock_def)

end
