(* ===== verification/Kcall.thy ===== *)
theory Kcall
  imports Kernel_String
begin

text \<open>
  The kernel call table, \<^verbatim>\<open>kernel/proc/kcall.c\<close>: 256 slots of a 32-byte name and a handler.
  Names are byte lists; a handler is a function of the argument and of the state \<open>'s\<close> the
  kernel is in. An empty slot is one whose handler is the null pointer.
\<close>

section \<open>State and operations\<close>

record 'h kcall_entry =
  kname :: "u8 list"
  khandler :: "'h option"

definition KCALL_MAX :: nat where "KCALL_MAX = 256"

text \<open>\<^verbatim>\<open>strncpy(dst, name, 32)\<close> into the 32-byte array.\<close>

definition pad32 :: "u8 list \<Rightarrow> u8 list" where
  "pad32 name = take 32 (takeWhile (\<lambda>b. b \<noteq> 0) name @ replicate 32 0)"

fun kcall_set :: "'h kcall_entry list \<Rightarrow> u8 list \<Rightarrow> 'h option \<Rightarrow> 'h kcall_entry list kres" where
  "kcall_set [] name handler = Panic ''out ouf kcall table''"
| "kcall_set (e # es) name handler =
     (if strncmp_str (kname e) name 32 = 0
      then Ok ((case handler of
                  Some h \<Rightarrow> e\<lparr>khandler := Some h\<rparr>
                | None \<Rightarrow> e\<lparr>kname := (kname e)[0 := 0], khandler := None\<rparr>) # es)
      else if khandler e = None
      then Ok (e\<lparr>kname := pad32 name, khandler := handler\<rparr> # es)
      else kbind (kcall_set es name handler) (\<lambda>es'. Ok (e # es')))"

fun kcall_find :: "'h kcall_entry list \<Rightarrow> u8 list \<Rightarrow> 'h kcall_entry option" where
  "kcall_find [] name = None"
| "kcall_find (e # es) name =
     (if strncmp_str (kname e) name 32 = 0 then Some e else kcall_find es name)"

definition kcall :: "(u32 \<Rightarrow> 's \<Rightarrow> int \<times> 's) kcall_entry list \<Rightarrow> u8 list \<Rightarrow> u32 \<Rightarrow> 's \<Rightarrow> (int \<times> 's) kres" where
  "kcall tbl name arg s =
     (case kcall_find tbl name of
        None \<Rightarrow> Ok (-1, s)
      | Some e \<Rightarrow> (case khandler e of None \<Rightarrow> Fault | Some h \<Rightarrow> Ok (h arg s)))"

definition kcall_true :: "u32 \<Rightarrow> 's \<Rightarrow> int \<times> 's" where
  "kcall_true arg s = (123, s)"

definition kcall_init :: "(u32 \<Rightarrow> 's \<Rightarrow> int \<times> 's) kcall_entry list kres" where
  "kcall_init =
     kcall_set (replicate KCALL_MAX \<lparr>kname = replicate 32 0, khandler = None\<rparr>)
       (bytes_of ''true'') (Some kcall_true)"

section \<open>Names\<close>

lemma cname_pad32: "cname 32 (pad32 name) = cname 32 name"
proof -
  have "takeWhile (\<lambda>b. b \<noteq> 0) (take n (takeWhile (\<lambda>b. b \<noteq> 0) xs @ replicate k 0)) =
      takeWhile (\<lambda>b. b \<noteq> 0) (take n xs)" for n k and xs :: "u8 list"
  proof (induction xs arbitrary: n)
    case Nil
    then show ?case by (cases n; cases k) simp_all
  next
    case (Cons x xs)
    then show ?case by (cases n; cases k) simp_all
  qed
  then show ?thesis by (simp only: cname_def pad32_def take_take min.idem)
qed

lemma kcall_find_cname:
  "kcall_find (e # es) name = (if cname 32 (kname e) = cname 32 name then Some e else kcall_find es name)"
  by (simp add: strncmp_str_cname)

section \<open>The contract of a service table\<close>

primrec reg_all :: "('t \<Rightarrow> u8 list \<Rightarrow> 'h \<Rightarrow> 't kres) \<Rightarrow> (u8 list \<times> 'h) list \<Rightarrow> 't \<Rightarrow> 't kres" where
  "reg_all reg [] t = Ok t"
| "reg_all reg (nh # nhs) t = kbind (reg t (fst nh) (snd nh)) (reg_all reg nhs)"

locale service_table =
  fixes reg :: "'t \<Rightarrow> u8 list \<Rightarrow> 'h \<Rightarrow> 't kres"
    and look :: "'t \<Rightarrow> u8 list \<Rightarrow> 'h option"
    and ok :: "'t \<Rightarrow> bool"
  assumes reg_ok: "ok t \<Longrightarrow> reg t n h = Ok t' \<Longrightarrow> ok t'"
    and look_same: "ok t \<Longrightarrow> reg t n h = Ok t' \<Longrightarrow> look t' n = Some h"
    and look_other: "ok t \<Longrightarrow> reg t n h = Ok t' \<Longrightarrow> cname 32 k \<noteq> cname 32 n \<Longrightarrow>
      cname 32 k \<noteq> [] \<Longrightarrow> look t' k = look t k"
begin

lemma reg_all_other:
  assumes "ok t" and "reg_all reg nhs t = Ok t'" and "cname 32 k \<noteq> []"
    and "cname 32 k \<notin> (cname 32 \<circ> fst) ` set nhs"
  shows "look t' k = look t k"
  using assms
proof (induction nhs arbitrary: t)
  case Nil
  then show ?case by simp
next
  case (Cons nh nhs)
  then obtain t1 where t1: "reg t (fst nh) (snd nh) = Ok t1" "reg_all reg nhs t1 = Ok t'"
    by (auto simp: kbind_Ok_iff)
  with Cons.IH [of t1] Cons.prems reg_ok look_other show ?case by auto
qed

text \<open>Services registered under different names are all found afterwards.\<close>

lemma reg_all_look:
  assumes "ok t" and "reg_all reg nhs t = Ok t'" and "distinct (map (cname 32 \<circ> fst) nhs)"
    and "(n, h) \<in> set nhs" and "cname 32 n \<noteq> []"
  shows "look t' n = Some h"
  using assms
proof (induction nhs arbitrary: t)
  case Nil
  then show ?case by simp
next
  case (Cons nh nhs)
  then obtain t1 where t1: "reg t (fst nh) (snd nh) = Ok t1" "reg_all reg nhs t1 = Ok t'"
    by (auto simp: kbind_Ok_iff)
  have ok1: "ok t1" using reg_ok Cons.prems(1) t1(1) by blast
  show ?case
  proof (cases "(n, h) \<in> set nhs")
    case True
    then show ?thesis using Cons.IH [OF ok1 t1(2)] Cons.prems by simp
  next
    case False
    then have nh: "nh = (n, h)" using Cons.prems(4) by auto
    then have "cname 32 n \<notin> (cname 32 \<circ> fst) ` set nhs" using Cons.prems(3) by auto
    then have "look t' n = look t1 n"
      using reg_all_other [OF ok1 t1(2) Cons.prems(5)] by simp
    then show ?thesis using look_same Cons.prems(1) t1(1) nh by auto
  qed
qed

end

section \<open>kcall.c meets the contract\<close>

text \<open>Slots without a handler carry no name. \<open>kcall_handler\<close> is what a call by name reaches.\<close>

definition kcall_ok :: "'h kcall_entry list \<Rightarrow> bool" where
  "kcall_ok tbl \<longleftrightarrow> (\<forall>e \<in> set tbl. khandler e = None \<longrightarrow> cname 32 (kname e) = [])"

definition kcall_handler :: "'h kcall_entry list \<Rightarrow> u8 list \<Rightarrow> 'h option" where
  "kcall_handler tbl name = (case kcall_find tbl name of None \<Rightarrow> None | Some e \<Rightarrow> khandler e)"

lemma kcall_handler_Cons:
  "kcall_handler (e # es) name =
     (if cname 32 (kname e) = cname 32 name then khandler e else kcall_handler es name)"
  by (simp add: kcall_handler_def strncmp_str_cname)

lemma kcall_set_Cons:
  "kcall_set (e # es) name (Some h) =
     (if cname 32 (kname e) = cname 32 name then Ok (e\<lparr>khandler := Some h\<rparr> # es)
      else if khandler e = None then Ok (e\<lparr>kname := pad32 name, khandler := Some h\<rparr> # es)
      else kbind (kcall_set es name (Some h)) (\<lambda>es'. Ok (e # es')))"
  by (simp add: strncmp_str_cname)

lemmas kcall_Cons = kcall_handler_Cons kcall_set_Cons cname_pad32

interpretation kcalls: service_table "\<lambda>t n h. kcall_set t n (Some h)" kcall_handler kcall_ok
proof
  fix t :: "'h kcall_entry list" and n k :: "u8 list" and h :: 'h and t'
  assume ok: "kcall_ok t" and set: "kcall_set t n (Some h) = Ok t'"
  show "kcall_ok t'" using ok set
  proof (induction t arbitrary: t')
    case Nil
    then show ?case by simp
  next
    case (Cons e es)
    then show ?case
      by (auto simp: kcall_Cons kcall_ok_def kbind_Ok_iff simp del: kcall_set.simps split: if_splits)
  qed
  show "kcall_handler t' n = Some h" using ok set
  proof (induction t arbitrary: t')
    case Nil
    then show ?case by simp
  next
    case (Cons e es)
    then show ?case
      by (auto simp: kcall_Cons kcall_ok_def kbind_Ok_iff simp del: kcall_set.simps split: if_splits)
  qed
  show "kcall_handler t' k = kcall_handler t k"
    if "cname 32 k \<noteq> cname 32 n" and "cname 32 k \<noteq> []"
    using ok set that
  proof (induction t arbitrary: t')
    case Nil
    then show ?case by simp
  next
    case (Cons e es)
    then show ?case
      by (auto simp: kcall_Cons kcall_ok_def kbind_Ok_iff simp del: kcall_set.simps split: if_splits)
  qed
qed

lemma kcall_via_handler: "kcall_handler tbl n = Some h \<Longrightarrow> kcall tbl n arg s = Ok (h arg s)"
  by (auto simp: kcall_handler_def kcall_def split: option.splits)

section \<open>Properties\<close>


definition two_slots :: "(u32 \<Rightarrow> nat \<Rightarrow> int \<times> nat) kcall_entry list" where
  "two_slots = [\<lparr>kname = replicate 32 0, khandler = None\<rparr>, \<lparr>kname = replicate 32 0, khandler = None\<rparr>]"


text \<open>
  Unregistering a name that is not in the table does not leave the table unchanged: it
  claims the first free slot for that name with a null handler, and the next call by the name
  jumps through the null pointer.
\<close>

theorem kcall_null_handler:
  assumes "kcall_find tbl n = None" and "\<exists>e \<in> set tbl. khandler e = None"
  shows "\<exists>tbl'. kcall_set tbl n None = Ok tbl' \<and> kcall tbl' n arg s = Fault"
  using assms
proof (induction tbl)
  case Nil
  then show ?case by simp
next
  case (Cons e es)
  have ne: "cname 32 (kname e) \<noteq> cname 32 n" and es: "kcall_find es n = None"
    using Cons.prems(1) by (auto simp: strncmp_str_cname split: if_splits)
  show ?case
  proof (cases "khandler e = None")
    case True
    with ne show ?thesis by (simp add: kcall_def strncmp_str_cname cname_pad32)
  next
    case False
    with Cons.IH [OF es] Cons.prems(2)
    obtain es' where "kcall_set es n None = Ok es'" "kcall es' n arg s = Fault" by auto
    with ne False show ?thesis by (auto simp: kcall_def strncmp_str_cname)
  qed
qed

theorem kcall_null_handler_witness:
  "\<exists>tbl'. kcall_set two_slots [65] None = Ok tbl' \<and> kcall tbl' [65] 0 0 = Fault"
  by (rule kcall_null_handler) (simp_all add: two_slots_def strncmp_str_cname cname_def)

end
