(* ===== verification/Ring_Queue.thy ===== *)
theory Ring_Queue
  imports Kernel_Prelude
begin

text \<open>
  The ring buffers of the kernel. Several components (mouse and keyboard events, process
  messages, pseudo terminals) keep a queue in a fixed array with a write index \<^verbatim>\<open>begin\<close> and a
  read index \<^verbatim>\<open>end\<close>, equal when the queue is empty, and none of them checks for a full array.
  This theory holds the arithmetic of such indices once, over an array seen as a function,
  and the contract \<open>ring_fifo\<close> that each component is shown to meet.
\<close>

section \<open>Indices\<close>

text \<open>\<^verbatim>\<open>i++; if (i == N) i = 0;\<close>\<close>

definition ring_next :: "nat \<Rightarrow> nat \<Rightarrow> nat" where
  "ring_next N i = (if Suc i = N then 0 else Suc i)"

definition ring_count :: "nat \<Rightarrow> nat \<Rightarrow> nat \<Rightarrow> nat" where
  "ring_count N b e = (if e \<le> b then b - e else N + b - e)"

fun ring_content :: "nat \<Rightarrow> (nat \<Rightarrow> 'a) \<Rightarrow> nat \<Rightarrow> nat \<Rightarrow> 'a list" where
  "ring_content N f e 0 = []"
| "ring_content N f e (Suc k) = f e # ring_content N f (ring_next N e) k"

definition ring_items :: "nat \<Rightarrow> (nat \<Rightarrow> 'a) \<Rightarrow> nat \<Rightarrow> nat \<Rightarrow> 'a list" where
  "ring_items N f b e = ring_content N f e (ring_count N b e)"

lemma ring_next_less [simp]: "i < N \<Longrightarrow> ring_next N i < N"
  by (auto simp: ring_next_def)

lemma ring_count_less: "b < N \<Longrightarrow> e < N \<Longrightarrow> ring_count N b e < N"
  by (auto simp: ring_count_def)

lemma ring_count_put:
  "b < N \<Longrightarrow> e < N \<Longrightarrow> ring_next N b \<noteq> e \<Longrightarrow> ring_count N (ring_next N b) e = Suc (ring_count N b e)"
  by (auto simp: ring_count_def ring_next_def split: if_splits)

lemma ring_count_get:
  "b < N \<Longrightarrow> e < N \<Longrightarrow> b \<noteq> e \<Longrightarrow> ring_count N b e = Suc (ring_count N b (ring_next N e))"
  by (auto simp: ring_count_def ring_next_def split: if_splits)

lemma ring_count_zero: "b < N \<Longrightarrow> e < N \<Longrightarrow> ring_count N b e = 0 \<longleftrightarrow> b = e"
  by (auto simp: ring_count_def)

lemma ring_full_iff:
  "b < N \<Longrightarrow> e < N \<Longrightarrow> ring_next N b = e \<longleftrightarrow> Suc (ring_count N b e) = N"
  by (auto simp: ring_count_def ring_next_def split: if_splits)

lemma length_ring_content [simp]: "length (ring_content N f e k) = k"
  by (induction k arbitrary: e) auto

lemma ring_content_snoc:
  "ring_content N f e (Suc k) = ring_content N f e k @ [f ((ring_next N ^^ k) e)]"
  by (induction k arbitrary: e) (simp_all add: funpow_swap1)

lemma ring_content_cong:
  assumes "e < N" and "\<And>i. i < N \<Longrightarrow> f i = g i"
  shows "ring_content N f e k = ring_content N g e k"
  using assms(1) by (induction k arbitrary: e) (auto simp: assms(2))

lemma ring_advance:
  assumes "b < N" and "e < N"
  shows "(ring_next N ^^ ring_count N b e) e = b"
proof -
  have "(ring_next N ^^ k) e = b" if "ring_count N b e = k" for k
    using assms(2) that
  proof (induction k arbitrary: e)
    case 0
    then show ?case using assms(1) ring_count_zero by auto
  next
    case (Suc k)
    then have "b \<noteq> e" using assms(1) ring_count_zero [of b N e] by auto
    then have "ring_count N b (ring_next N e) = k"
      using Suc.prems assms(1) ring_count_get [of b N e] by simp
    with Suc show ?case by (simp add: funpow_swap1)
  qed
  then show ?thesis by simp
qed

text \<open>A store at the write index is not seen by the items already queued.\<close>

lemma ring_content_upd:
  assumes "b < N" and "e < N" and "k \<le> ring_count N b e"
  shows "ring_content N (f(b := x)) e k = ring_content N f e k"
  using assms
proof (induction k arbitrary: e)
  case 0
  then show ?case by simp
next
  case (Suc k)
  then have ne: "b \<noteq> e" using ring_count_zero [of b N e] by auto
  then have "k \<le> ring_count N b (ring_next N e)"
    using Suc.prems ring_count_get [of b N e] by simp
  with Suc ne show ?case by simp
qed

section \<open>Items\<close>

lemma ring_items_empty: "b < N \<Longrightarrow> e < N \<Longrightarrow> ring_items N f b e = [] \<longleftrightarrow> b = e"
  by (metis length_0_conv length_ring_content ring_count_zero ring_items_def)

lemma length_ring_items [simp]: "length (ring_items N f b e) = ring_count N b e"
  by (simp add: ring_items_def)

lemma ring_items_put:
  assumes "b < N" and "e < N" and "Suc (ring_count N b e) < N"
  shows "ring_items N (f(b := x)) (ring_next N b) e = ring_items N f b e @ [x]"
proof -
  have "ring_next N b \<noteq> e" using assms ring_full_iff [of b N e] by auto
  then have c: "ring_count N (ring_next N b) e = Suc (ring_count N b e)"
    using assms by (simp add: ring_count_put)
  show ?thesis
    unfolding ring_items_def c ring_content_snoc
    using assms by (simp add: ring_content_upd ring_advance)
qed

lemma ring_items_overflow:
  assumes "b < N" and "e < N" and "Suc (ring_count N b e) = N"
  shows "ring_items N f' (ring_next N b) e = []"
  using assms ring_full_iff [of b N e] by (simp add: ring_items_empty)

lemma ring_items_get:
  assumes "b < N" and "e < N" and "b \<noteq> e"
  shows "ring_items N f b e = f e # ring_items N f b (ring_next N e)"
  using assms ring_count_get [of b N e] by (simp add: ring_items_def)

text \<open>The same for an array modelled as a list.\<close>

lemma ring_items_list_put:
  assumes "length xs = N" and "b < N" and "e < N" and "Suc (ring_count N b e) < N"
  shows "ring_items N (\<lambda>i. xs[b := x] ! i) (ring_next N b) e = ring_items N (\<lambda>i. xs ! i) b e @ [x]"
proof -
  have "ring_items N (\<lambda>i. xs[b := x] ! i) (ring_next N b) e =
      ring_items N ((\<lambda>i. xs ! i)(b := x)) (ring_next N b) e"
    unfolding ring_items_def using assms
    by (intro ring_content_cong) (auto simp: nth_list_update)
  then show ?thesis using assms by (simp add: ring_items_put)
qed

section \<open>The contract\<close>

primrec get_many :: "('q \<Rightarrow> 'a \<times> 'q) \<Rightarrow> nat \<Rightarrow> 'q \<Rightarrow> 'a list \<times> 'q" where
  "get_many get 0 q = ([], q)"
| "get_many get (Suc n) q = (case get q of (x, q') \<Rightarrow>
     case get_many get n q' of (xs, q'') \<Rightarrow> (x # xs, q''))"

locale ring_fifo =
  fixes put :: "'q \<Rightarrow> 'a \<Rightarrow> 'q"
    and get :: "'q \<Rightarrow> 'a \<times> 'q"
    and ok :: "'q \<Rightarrow> bool"
    and items :: "'q \<Rightarrow> 'a list"
    and accepts :: "'a \<Rightarrow> bool"
    and cap :: nat
  assumes cap_bound: "ok q \<Longrightarrow> length (items q) < cap"
    and put_room: "ok q \<Longrightarrow> accepts x \<Longrightarrow> Suc (length (items q)) < cap \<Longrightarrow>
      ok (put q x) \<and> items (put q x) = items q @ [x]"
    and put_full: "ok q \<Longrightarrow> accepts x \<Longrightarrow> Suc (length (items q)) = cap \<Longrightarrow>
      ok (put q x) \<and> items (put q x) = []"
    and get_item: "ok q \<Longrightarrow> items q = x # xs \<Longrightarrow>
      fst (get q) = x \<and> ok (snd (get q)) \<and> items (snd (get q)) = xs"
begin

lemma put_many:
  assumes "ok q" and "\<forall>x \<in> set xs. accepts x" and "length (items q) + length xs < cap"
  shows "ok (foldl put q xs) \<and> items (foldl put q xs) = items q @ xs"
  using assms
proof (induction xs arbitrary: q)
  case Nil
  then show ?case by simp
next
  case (Cons x xs)
  have "ok (put q x) \<and> items (put q x) = items q @ [x]"
    using put_room [OF Cons.prems(1), of x] Cons.prems(2,3) by simp
  with Cons show ?case by simp
qed

lemma put_overflow:
  assumes "ok q" and "\<forall>x \<in> set xs. accepts x" and "length (items q) + length xs = cap"
  shows "ok (foldl put q xs) \<and> items (foldl put q xs) = []"
proof (cases xs rule: rev_cases)
  case Nil
  then show ?thesis using assms cap_bound by auto
next
  case (snoc ys y)
  have "ok (foldl put q ys) \<and> items (foldl put q ys) = items q @ ys"
    by (rule put_many) (use assms snoc in auto)
  then show ?thesis using put_full [of "foldl put q ys" y] assms(2,3) snoc by simp
qed

lemma get_prefix:
  assumes "ok q" and "items q = xs @ ys"
  shows "\<exists>q'. get_many get (length xs) q = (xs, q') \<and> ok q' \<and> items q' = ys"
  using assms
proof (induction xs arbitrary: q)
  case Nil
  then show ?case by simp
next
  case (Cons x xs)
  obtain x' q1 where g: "get q = (x', q1)" by (cases "get q")
  then have "x' = x" "ok q1" "items q1 = xs @ ys"
    using get_item [OF Cons.prems(1), of x "xs @ ys"] Cons.prems(2) by auto
  with Cons.IH [of q1] g show ?case by auto
qed

text \<open>What is put comes out once, in order, as long as the array never fills.\<close>

lemma put_get:
  assumes "ok q" and "items q = []" and "\<forall>x \<in> set xs. accepts x" and "length xs < cap"
  shows "\<exists>q'. get_many get (length xs) (foldl put q xs) = (xs, q') \<and> ok q' \<and> items q' = []"
  using put_many [OF assms(1,3)] assms(2,4) get_prefix [of "foldl put q xs" xs "[]"] by simp

end

end
