(* ===== verification/Hid.thy ===== *)
theory Hid
  imports Ring_Queue Kcall
begin

text \<open>
  Mouse and keyboard events, \<^verbatim>\<open>kernel/hal/hid.c\<close>: two rings of 16 words filled by interrupt
  handlers and drained by the kernel calls \<^verbatim>\<open>mouse\<close> and \<^verbatim>\<open>keyboard\<close>. The locks bracket each
  operation, taken as one critical section.
\<close>

section \<open>State and operations\<close>

definition MOUSE_QUEUE_SIZE :: nat where "MOUSE_QUEUE_SIZE = 16"
definition KEYBOARD_QUEUE_SIZE :: nat where "KEYBOARD_QUEUE_SIZE = 16"

record hid_state =
  mouse_queue :: "u32 list"
  mouse_queue_begin :: nat
  mouse_queue_end :: nat
  keyboard_queue :: "u32 list"
  keyboard_queue_begin :: nat
  keyboard_queue_end :: nat
  hal_kbd_send_legacy :: bool

text \<open>The kernel call handlers return 0; what they store through their argument is the first component.\<close>

definition mouse_kcall_handler :: "hid_state \<Rightarrow> u32 \<times> hid_state" where
  "mouse_kcall_handler h =
     (if mouse_queue_begin h = mouse_queue_end h then (0, h)
      else let m = mouse_queue h ! mouse_queue_end h;
               h = h\<lparr>mouse_queue_end := mouse_queue_end h + 1\<rparr>;
               h = (if mouse_queue_end h = MOUSE_QUEUE_SIZE then h\<lparr>mouse_queue_end := 0\<rparr> else h)
           in (m, h))"

definition hal_mouse_update :: "hid_state \<Rightarrow> u32 \<Rightarrow> hid_state" where
  "hal_mouse_update h data =
     (let h = h\<lparr>mouse_queue := (mouse_queue h)[mouse_queue_begin h := data]\<rparr>;
          h = h\<lparr>mouse_queue_begin := mouse_queue_begin h + 1\<rparr>
      in if mouse_queue_begin h = MOUSE_QUEUE_SIZE then h\<lparr>mouse_queue_begin := 0\<rparr> else h)"

definition keyboard_kcall_handler :: "hid_state \<Rightarrow> u32 \<times> hid_state" where
  "keyboard_kcall_handler h =
     (let h = h\<lparr>hal_kbd_send_legacy := False\<rparr> in
      if keyboard_queue_begin h = keyboard_queue_end h then (0, h)
      else let m = keyboard_queue h ! keyboard_queue_end h;
               h = h\<lparr>keyboard_queue_end := keyboard_queue_end h + 1\<rparr>;
               h = (if keyboard_queue_end h = KEYBOARD_QUEUE_SIZE then h\<lparr>keyboard_queue_end := 0\<rparr> else h)
           in (m, h))"

text \<open>Key 144 (num lock) only prints debugging information.\<close>

definition hal_keyboard_update :: "hid_state \<Rightarrow> u32 \<Rightarrow> hid_state" where
  "hal_keyboard_update h data =
     (if data = 144 then h
      else let h = h\<lparr>keyboard_queue := (keyboard_queue h)[keyboard_queue_begin h := data]\<rparr>;
               h = h\<lparr>keyboard_queue_begin := keyboard_queue_begin h + 1\<rparr>
           in if keyboard_queue_begin h = KEYBOARD_QUEUE_SIZE
              then h\<lparr>keyboard_queue_begin := 0\<rparr> else h)"

definition hal_hid_init :: "hid_state \<Rightarrow> 'h kcall_entry list \<Rightarrow> 'h \<Rightarrow> 'h
    \<Rightarrow> (hid_state \<times> 'h kcall_entry list) kres" where
  "hal_hid_init h tbl mouse_handler keyboard_handler =
     kbind (kcall_set tbl (bytes_of ''mouse'') (Some mouse_handler))
       (\<lambda>tbl. kbind (kcall_set tbl (bytes_of ''keyboard'') (Some keyboard_handler))
         (\<lambda>tbl. Ok (h\<lparr>mouse_queue := replicate MOUSE_QUEUE_SIZE 0,
                       keyboard_queue := replicate KEYBOARD_QUEUE_SIZE 0\<rparr>, tbl)))"

definition hid_boot :: hid_state where
  "hid_boot = \<lparr>mouse_queue = replicate 16 0, mouse_queue_begin = 0, mouse_queue_end = 0,
     keyboard_queue = replicate 16 0, keyboard_queue_begin = 0, keyboard_queue_end = 0,
     hal_kbd_send_legacy = True\<rparr>"

section \<open>Both queues meet the ring contract\<close>

definition mouse_ok :: "hid_state \<Rightarrow> bool" where
  "mouse_ok h \<longleftrightarrow> length (mouse_queue h) = 16 \<and> mouse_queue_begin h < 16 \<and> mouse_queue_end h < 16"

definition mouse_items :: "hid_state \<Rightarrow> u32 list" where
  "mouse_items h = ring_items 16 (\<lambda>i. mouse_queue h ! i) (mouse_queue_begin h) (mouse_queue_end h)"

definition keyboard_ok :: "hid_state \<Rightarrow> bool" where
  "keyboard_ok h \<longleftrightarrow> length (keyboard_queue h) = 16 \<and> keyboard_queue_begin h < 16
     \<and> keyboard_queue_end h < 16"

definition keyboard_items :: "hid_state \<Rightarrow> u32 list" where
  "keyboard_items h =
     ring_items 16 (\<lambda>i. keyboard_queue h ! i) (keyboard_queue_begin h) (keyboard_queue_end h)"

lemma hal_mouse_update_ring:
  "hal_mouse_update h x = h\<lparr>mouse_queue := (mouse_queue h)[mouse_queue_begin h := x],
     mouse_queue_begin := ring_next 16 (mouse_queue_begin h)\<rparr>"
  by (simp add: hal_mouse_update_def ring_next_def MOUSE_QUEUE_SIZE_def Let_def)

lemma mouse_kcall_handler_ring:
  "mouse_queue_begin h \<noteq> mouse_queue_end h \<Longrightarrow> mouse_kcall_handler h =
     (mouse_queue h ! mouse_queue_end h, h\<lparr>mouse_queue_end := ring_next 16 (mouse_queue_end h)\<rparr>)"
  by (simp add: mouse_kcall_handler_def ring_next_def MOUSE_QUEUE_SIZE_def Let_def)

lemma hal_keyboard_update_ring:
  "x \<noteq> 144 \<Longrightarrow> hal_keyboard_update h x =
     h\<lparr>keyboard_queue := (keyboard_queue h)[keyboard_queue_begin h := x],
       keyboard_queue_begin := ring_next 16 (keyboard_queue_begin h)\<rparr>"
  by (simp add: hal_keyboard_update_def ring_next_def KEYBOARD_QUEUE_SIZE_def Let_def)

lemma keyboard_kcall_handler_ring:
  "keyboard_queue_begin h \<noteq> keyboard_queue_end h \<Longrightarrow> keyboard_kcall_handler h =
     (keyboard_queue h ! keyboard_queue_end h,
      h\<lparr>hal_kbd_send_legacy := False, keyboard_queue_end := ring_next 16 (keyboard_queue_end h)\<rparr>)"
  by (simp add: keyboard_kcall_handler_def ring_next_def KEYBOARD_QUEUE_SIZE_def Let_def)

interpretation mouse: ring_fifo hal_mouse_update mouse_kcall_handler mouse_ok mouse_items
  "\<lambda>_. True" 16
proof
  fix h x xs
  assume ok: "mouse_ok h"
  then have b: "mouse_queue_begin h < 16" "mouse_queue_end h < 16" "length (mouse_queue h) = 16"
    by (simp_all add: mouse_ok_def)
  show "length (mouse_items h) < 16"
    using b by (simp add: mouse_items_def ring_count_less)
  show "mouse_ok (hal_mouse_update h x) \<and> mouse_items (hal_mouse_update h x) = mouse_items h @ [x]"
    if "Suc (length (mouse_items h)) < 16"
    using that b ring_items_list_put [of "mouse_queue h" 16]
    by (simp add: hal_mouse_update_ring mouse_ok_def mouse_items_def)
  show "mouse_ok (hal_mouse_update h x) \<and> mouse_items (hal_mouse_update h x) = []"
    if "Suc (length (mouse_items h)) = 16"
    using that b
    by (simp add: hal_mouse_update_ring mouse_ok_def mouse_items_def ring_items_overflow)
  show "fst (mouse_kcall_handler h) = x \<and> mouse_ok (snd (mouse_kcall_handler h))
      \<and> mouse_items (snd (mouse_kcall_handler h)) = xs" if "mouse_items h = x # xs"
  proof -
    have ne: "mouse_queue_begin h \<noteq> mouse_queue_end h"
      using that ring_items_empty [OF b(1,2), of "\<lambda>i. mouse_queue h ! i"] by (auto simp: mouse_items_def)
    show ?thesis
      using that b ring_items_get [OF b(1,2) ne, of "\<lambda>i. mouse_queue h ! i"]
      by (simp add: mouse_kcall_handler_ring [OF ne] mouse_ok_def mouse_items_def)
  qed
qed

interpretation keyboard: ring_fifo hal_keyboard_update keyboard_kcall_handler keyboard_ok keyboard_items
  "\<lambda>x. x \<noteq> 144" 16
proof
  fix h x xs
  assume ok: "keyboard_ok h"
  then have b: "keyboard_queue_begin h < 16" "keyboard_queue_end h < 16" "length (keyboard_queue h) = 16"
    by (simp_all add: keyboard_ok_def)
  show "length (keyboard_items h) < 16"
    using b by (simp add: keyboard_items_def ring_count_less)
  show "keyboard_ok (hal_keyboard_update h x) \<and> keyboard_items (hal_keyboard_update h x) = keyboard_items h @ [x]"
    if "x \<noteq> 144" "Suc (length (keyboard_items h)) < 16"
    using that b ring_items_list_put [of "keyboard_queue h" 16]
    by (simp add: hal_keyboard_update_ring keyboard_ok_def keyboard_items_def)
  show "keyboard_ok (hal_keyboard_update h x) \<and> keyboard_items (hal_keyboard_update h x) = []"
    if "x \<noteq> 144" "Suc (length (keyboard_items h)) = 16"
    using that b
    by (simp add: hal_keyboard_update_ring keyboard_ok_def keyboard_items_def ring_items_overflow)
  show "fst (keyboard_kcall_handler h) = x \<and> keyboard_ok (snd (keyboard_kcall_handler h))
      \<and> keyboard_items (snd (keyboard_kcall_handler h)) = xs" if "keyboard_items h = x # xs"
  proof -
    have ne: "keyboard_queue_begin h \<noteq> keyboard_queue_end h"
      using that ring_items_empty [OF b(1,2), of "\<lambda>i. keyboard_queue h ! i"] by (auto simp: keyboard_items_def)
    show ?thesis
      using that b ring_items_get [OF b(1,2) ne, of "\<lambda>i. keyboard_queue h ! i"]
      by (simp add: keyboard_kcall_handler_ring [OF ne] keyboard_ok_def keyboard_items_def)
  qed
qed

lemma hid_boot_ok [simp]:
  "mouse_ok hid_boot" "mouse_items hid_boot = []" "keyboard_ok hid_boot" "keyboard_items hid_boot = []"
  by (simp_all add: hid_boot_def mouse_ok_def keyboard_ok_def mouse_items_def keyboard_items_def
      ring_items_empty)

section \<open>Properties\<close>

text \<open>
  Keyboard events come out of the \<^verbatim>\<open>keyboard\<close> kernel call once each and in the order they
  happened, as long as fewer than 16 are pending.
\<close>

theorem keyboard_events_fifo:
  assumes "keyboard_ok h" and "keyboard_items h = []" and "\<forall>x \<in> set xs. x \<noteq> 144" and "length xs < 16"
  shows "\<exists>h'. get_many keyboard_kcall_handler (length xs) (foldl hal_keyboard_update h xs) = (xs, h')
     \<and> keyboard_ok h' \<and> keyboard_items h' = []"
  using assms by (rule keyboard.put_get)

theorem keyboard_events_fifo_witness:
  "\<exists>h'. get_many keyboard_kcall_handler 3 (foldl hal_keyboard_update hid_boot [30, 48, 46])
     = ([30, 48, 46], h') \<and> keyboard_items h' = []"
proof -
  let ?xs = "[30, 48, 46] :: u32 list"
  have "\<exists>h'. get_many keyboard_kcall_handler (length ?xs) (foldl hal_keyboard_update hid_boot ?xs)
      = (?xs, h') \<and> keyboard_ok h' \<and> keyboard_items h' = []"
    by (rule keyboard_events_fifo) simp_all
  moreover have "length ?xs = 3" by simp
  ultimately show ?thesis by metis
qed

text \<open>
  The mouse queue has no check for a full ring: the event that makes 16 pending makes the
  queue look empty, so every pending event is lost and the next \<^verbatim>\<open>mouse\<close> call reports 0.
\<close>

theorem mouse_overflow_loses_all:
  assumes "mouse_ok h" and "length (mouse_items h) + length xs = 16"
  shows "mouse_items (foldl hal_mouse_update h xs) = []
     \<and> fst (mouse_kcall_handler (foldl hal_mouse_update h xs)) = 0"
proof -
  have o: "mouse_ok (foldl hal_mouse_update h xs) \<and> mouse_items (foldl hal_mouse_update h xs) = []"
    by (rule mouse.put_overflow) (use assms in auto)
  then have "mouse_queue_begin (foldl hal_mouse_update h xs) = mouse_queue_end (foldl hal_mouse_update h xs)"
    by (auto simp: mouse_ok_def mouse_items_def ring_items_empty)
  with o show ?thesis by (simp add: mouse_kcall_handler_def)
qed

theorem mouse_overflow_loses_all_witness:
  "fst (mouse_kcall_handler (foldl hal_mouse_update hid_boot (replicate 16 7))) = 0"
  using mouse_overflow_loses_all [of hid_boot "replicate 16 7"] by simp

end
