(* ===== verification/Pty.thy ===== *)
theory Pty
  imports Ring_Queue Page_Alloc
begin

text \<open>
  Pseudo terminals, \<^verbatim>\<open>kernel/proc/pty.c\<close>: eight terminals, each with an input and an output ring
  of 4096 bytes in pages from the page allocator. A process is named by its slot in the process
  table; \<open>me\<close> is the slot of the caller. A terminal number out of range indexes past the
  array (\<open>Fault\<close>). \<open>pty_read\<close> sleeps while its ring is empty: the result \<open>None\<close>.
\<close>

section \<open>State and operations\<close>

definition PTY_MAX :: nat where "PTY_MAX = 8"

record PseudoTerminal =
  owner :: "nat option"
  input_buffer :: u32
  output_buffer :: u32
  input_begin :: nat
  input_end :: nat
  output_begin :: nat
  output_end :: nat

record pty_state =
  pty :: "PseudoTerminal list"
  pty_kmem :: kmem_state

definition pty_init :: "pty_state \<Rightarrow> pty_state" where
  "pty_init st = st\<lparr>pty := replicate PTY_MAX \<lparr>owner = None, input_buffer = 0, output_buffer = 0,
     input_begin = 0, input_end = 0, output_begin = 0, output_end = 0\<rparr>\<rparr>"

fun pty_create_loop :: "PseudoTerminal list \<Rightarrow> int \<Rightarrow> int \<Rightarrow> int" where
  "pty_create_loop [] i ptyid = ptyid"
| "pty_create_loop (p # ps) i ptyid = pty_create_loop ps (i + 1) (if owner p = None then i else ptyid)"

definition pty_create :: "pty_state \<Rightarrow> nat \<Rightarrow> (int \<times> pty_state) kres" where
  "pty_create st me =
     (let ptyid = pty_create_loop (pty st) 0 (-1) in
      if ptyid < 0 then Ok (ERROR_OUT_OF_SPACE, st)
      else let p = (pty st ! nat ptyid)\<lparr>owner := Some me\<rparr> in
        kbind (kalloc (pty_kmem st)) (\<lambda>(ib, km).
        kbind (kalloc km) (\<lambda>(ob, km).
          let p = p\<lparr>input_buffer := ib, output_buffer := ob\<rparr>
          in Ok (ptyid, st\<lparr>pty := (pty st)[nat ptyid := p], pty_kmem := km\<rparr>))))"

definition pty_close :: "pty_state \<Rightarrow> nat \<Rightarrow> int \<Rightarrow> (int \<times> pty_state) kres" where
  "pty_close st me ptyid =
     kbind (arr (pty st) ptyid) (\<lambda>p.
       if owner p \<noteq> Some me then Ok (ERROR_NO_PERM, st)
       else let km = kfree (pty_kmem st) (input_buffer p);
                km = kfree km (output_buffer p)
            in Ok (0, st\<lparr>pty := (pty st)[nat ptyid := p\<lparr>owner := None\<rparr>], pty_kmem := km\<rparr>))"

text \<open>One round of each of the four copying loops.\<close>

definition pty_get_input :: "PseudoTerminal \<times> mem \<Rightarrow> u8 \<times> PseudoTerminal \<times> mem" where
  "pty_get_input pm = (case pm of (p, m) \<Rightarrow>
     let b = m (input_buffer p + of_nat (input_end p));
         p = p\<lparr>input_end := input_end p + 1\<rparr>;
         p = (if input_end p = 4096 then p\<lparr>input_end := 0\<rparr> else p)
     in (b, p, m))"

definition pty_get_output :: "PseudoTerminal \<times> mem \<Rightarrow> u8 \<times> PseudoTerminal \<times> mem" where
  "pty_get_output pm = (case pm of (p, m) \<Rightarrow>
     let b = m (output_buffer p + of_nat (output_end p));
         p = p\<lparr>output_end := output_end p + 1\<rparr>;
         p = (if output_end p = 4096 then p\<lparr>output_end := 0\<rparr> else p)
     in (b, p, m))"

definition pty_put_output :: "PseudoTerminal \<times> mem \<Rightarrow> u8 \<Rightarrow> PseudoTerminal \<times> mem" where
  "pty_put_output pm b = (case pm of (p, m) \<Rightarrow>
     let m = m(output_buffer p + of_nat (output_begin p) := b);
         p = p\<lparr>output_begin := output_begin p + 1\<rparr>;
         p = (if output_begin p = 4096 then p\<lparr>output_begin := 0\<rparr> else p)
     in (p, m))"

definition pty_put_input :: "PseudoTerminal \<times> mem \<Rightarrow> u8 \<Rightarrow> PseudoTerminal \<times> mem" where
  "pty_put_input pm b = (case pm of (p, m) \<Rightarrow>
     let m = m(input_buffer p + of_nat (input_begin p) := b);
         p = p\<lparr>input_begin := input_begin p + 1\<rparr>;
         p = (if input_begin p = 4096 then p\<lparr>input_begin := 0\<rparr> else p)
     in (p, m))"

text \<open>The reading loops stop after \<open>n\<close> bytes or when the ring has become empty.\<close>

primrec pty_read_loop :: "nat \<Rightarrow> PseudoTerminal \<times> mem \<Rightarrow> u8 list \<times> PseudoTerminal \<times> mem" where
  "pty_read_loop 0 pm = ([], pm)"
| "pty_read_loop (Suc n) pm = (case pty_get_input pm of (b, pm) \<Rightarrow>
     if input_begin (fst pm) = input_end (fst pm) then ([b], pm)
     else case pty_read_loop n pm of (bs, pm) \<Rightarrow> (b # bs, pm))"

primrec pty_read_output_loop :: "nat \<Rightarrow> PseudoTerminal \<times> mem \<Rightarrow> u8 list \<times> PseudoTerminal \<times> mem" where
  "pty_read_output_loop 0 pm = ([], pm)"
| "pty_read_output_loop (Suc n) pm = (case pty_get_output pm of (b, pm) \<Rightarrow>
     if output_begin (fst pm) = output_end (fst pm) then ([b], pm)
     else case pty_read_output_loop n pm of (bs, pm) \<Rightarrow> (b # bs, pm))"

text \<open>Storing back a terminal and the memory its loops have worked on.\<close>

definition pty_store :: "pty_state \<Rightarrow> int \<Rightarrow> PseudoTerminal \<times> mem \<Rightarrow> pty_state" where
  "pty_store st ptyid pm = st\<lparr>pty := (pty st)[nat ptyid := fst pm],
     pty_kmem := (pty_kmem st)\<lparr>ram := snd pm\<rparr>\<rparr>"

text \<open>Results: the return value, the bytes stored to the caller's buffer, the new state.\<close>

definition pty_read :: "pty_state \<Rightarrow> int \<Rightarrow> int \<Rightarrow> (int \<times> u8 list \<times> pty_state) option kres" where
  "pty_read st ptyid n =
     kbind (arr (pty st) ptyid) (\<lambda>p.
       if input_begin p = input_end p then Ok None
       else case pty_read_loop (nat n) (p, ram (pty_kmem st)) of (bs, pm) \<Rightarrow>
         Ok (Some (if n \<le> 0 then n else int (length bs), bs, pty_store st ptyid pm)))"

definition pty_write :: "pty_state \<Rightarrow> int \<Rightarrow> (nat \<Rightarrow> u8) \<Rightarrow> int \<Rightarrow> (int \<times> pty_state) kres" where
  "pty_write st ptyid buf n =
     kbind (arr (pty st) ptyid) (\<lambda>p.
       Ok (n, pty_store st ptyid
                (foldl pty_put_output (p, ram (pty_kmem st)) (map buf [0..<nat n]))))"

definition pty_read_output :: "pty_state \<Rightarrow> nat \<Rightarrow> int \<Rightarrow> int \<Rightarrow> (int \<times> u8 list \<times> pty_state) kres" where
  "pty_read_output st me ptyid n =
     kbind (arr (pty st) ptyid) (\<lambda>p.
       if owner p \<noteq> Some me then Ok (ERROR_NO_PERM, [], st)
       else if output_begin p = output_end p then Ok (0, [], st)
       else case pty_read_output_loop (nat n) (p, ram (pty_kmem st)) of (bs, pm) \<Rightarrow>
         Ok (if n \<le> 0 then n else int (length bs), bs, pty_store st ptyid pm))"

text \<open>\<open>pty_write_input\<close> also wakes the processes sleeping on the input buffer.\<close>

definition pty_write_input :: "pty_state \<Rightarrow> nat \<Rightarrow> int \<Rightarrow> (nat \<Rightarrow> u8) \<Rightarrow> int \<Rightarrow> (int \<times> pty_state) kres" where
  "pty_write_input st me ptyid buf n =
     kbind (arr (pty st) ptyid) (\<lambda>p.
       if owner p \<noteq> Some me then Ok (ERROR_NO_PERM, st)
       else Ok (n, pty_store st ptyid
                     (foldl pty_put_input (p, ram (pty_kmem st)) (map buf [0..<nat n]))))"

section \<open>Both rings meet the contract\<close>

definition in_ok :: "PseudoTerminal \<times> mem \<Rightarrow> bool" where
  "in_ok pm \<longleftrightarrow> input_begin (fst pm) < 4096 \<and> input_end (fst pm) < 4096"

definition in_items :: "PseudoTerminal \<times> mem \<Rightarrow> u8 list" where
  "in_items pm = ring_items 4096 (\<lambda>i. snd pm (input_buffer (fst pm) + of_nat i))
     (input_begin (fst pm)) (input_end (fst pm))"

definition out_ok :: "PseudoTerminal \<times> mem \<Rightarrow> bool" where
  "out_ok pm \<longleftrightarrow> output_begin (fst pm) < 4096 \<and> output_end (fst pm) < 4096"

definition out_items :: "PseudoTerminal \<times> mem \<Rightarrow> u8 list" where
  "out_items pm = ring_items 4096 (\<lambda>i. snd pm (output_buffer (fst pm) + of_nat i))
     (output_begin (fst pm)) (output_end (fst pm))"

lemma pty_step_ring:
  "pty_get_input (p, m) = (m (input_buffer p + of_nat (input_end p)),
     p\<lparr>input_end := ring_next 4096 (input_end p)\<rparr>, m)"
  "pty_get_output (p, m) = (m (output_buffer p + of_nat (output_end p)),
     p\<lparr>output_end := ring_next 4096 (output_end p)\<rparr>, m)"
  "pty_put_output (p, m) b = (p\<lparr>output_begin := ring_next 4096 (output_begin p)\<rparr>,
     m(output_buffer p + of_nat (output_begin p) := b))"
  "pty_put_input (p, m) b = (p\<lparr>input_begin := ring_next 4096 (input_begin p)\<rparr>,
     m(input_buffer p + of_nat (input_begin p) := b))"
  by (simp_all add: pty_get_input_def pty_get_output_def pty_put_output_def pty_put_input_def
      ring_next_def Let_def)

text \<open>A ring in a page of memory.\<close>

lemma ring_items_mem_put:
  fixes a :: u32
  assumes "b < 4096" and "e < 4096" and "Suc (ring_count 4096 b e) < 4096"
  shows "ring_items 4096 (\<lambda>i. (m(a + of_nat b := x)) (a + of_nat i)) (ring_next 4096 b) e
     = ring_items 4096 (\<lambda>i. m (a + of_nat i)) b e @ [x]"
proof -
  have "ring_items 4096 (\<lambda>i. (m(a + of_nat b := x)) (a + of_nat i)) (ring_next 4096 b) e =
      ring_items 4096 ((\<lambda>i. m (a + of_nat i))(b := x)) (ring_next 4096 b) e"
    unfolding ring_items_def
    by (intro ring_content_cong) (use assms in \<open>auto simp: of_nat_eq_u32\<close>)
  then show ?thesis using assms ring_items_put [of b 4096 e] by simp
qed

interpretation pty_out: ring_fifo pty_put_output pty_get_output out_ok out_items "\<lambda>_. True" 4096
proof
  fix pm :: "PseudoTerminal \<times> mem" and x :: u8 and xs
  assume "out_ok pm"
  obtain p m where pm: "pm = (p, m)" by (cases pm)
  have b: "output_begin p < 4096" "output_end p < 4096"
    using \<open>out_ok pm\<close> by (simp_all add: out_ok_def pm)
  show "length (out_items pm) < 4096" using b by (simp add: out_items_def pm ring_count_less)
  show "out_ok (pty_put_output pm x) \<and> out_items (pty_put_output pm x) = out_items pm @ [x]"
    if "Suc (length (out_items pm)) < 4096"
    using that b ring_items_mem_put [OF b, of m "output_buffer p" x]
    by (simp add: pm pty_step_ring out_ok_def out_items_def)
  show "out_ok (pty_put_output pm x) \<and> out_items (pty_put_output pm x) = []"
    if "Suc (length (out_items pm)) = 4096"
    using that b by (simp add: pm pty_step_ring out_ok_def out_items_def ring_items_overflow)
  show "fst (pty_get_output pm) = x \<and> out_ok (snd (pty_get_output pm))
      \<and> out_items (snd (pty_get_output pm)) = xs" if "out_items pm = x # xs"
  proof -
    let ?f = "\<lambda>i. m (output_buffer p + of_nat i)"
    have ne: "output_begin p \<noteq> output_end p"
      using that ring_items_empty [OF b, of ?f] by (auto simp: out_items_def pm)
    show ?thesis
      using that b ring_items_get [OF b ne, of ?f] by (simp add: pm pty_step_ring out_ok_def out_items_def)
  qed
qed

interpretation pty_in: ring_fifo pty_put_input pty_get_input in_ok in_items "\<lambda>_. True" 4096
proof
  fix pm :: "PseudoTerminal \<times> mem" and x :: u8 and xs
  assume "in_ok pm"
  obtain p m where pm: "pm = (p, m)" by (cases pm)
  have b: "input_begin p < 4096" "input_end p < 4096"
    using \<open>in_ok pm\<close> by (simp_all add: in_ok_def pm)
  show "length (in_items pm) < 4096" using b by (simp add: in_items_def pm ring_count_less)
  show "in_ok (pty_put_input pm x) \<and> in_items (pty_put_input pm x) = in_items pm @ [x]"
    if "Suc (length (in_items pm)) < 4096"
    using that b ring_items_mem_put [OF b, of m "input_buffer p" x]
    by (simp add: pm pty_step_ring in_ok_def in_items_def)
  show "in_ok (pty_put_input pm x) \<and> in_items (pty_put_input pm x) = []"
    if "Suc (length (in_items pm)) = 4096"
    using that b by (simp add: pm pty_step_ring in_ok_def in_items_def ring_items_overflow)
  show "fst (pty_get_input pm) = x \<and> in_ok (snd (pty_get_input pm))
      \<and> in_items (snd (pty_get_input pm)) = xs" if "in_items pm = x # xs"
  proof -
    let ?f = "\<lambda>i. m (input_buffer p + of_nat i)"
    have ne: "input_begin p \<noteq> input_end p"
      using that ring_items_empty [OF b, of ?f] by (auto simp: in_items_def pm)
    show ?thesis
      using that b ring_items_get [OF b ne, of ?f] by (simp add: pm pty_step_ring in_ok_def in_items_def)
  qed
qed

lemma out_items_Nil: "out_ok pm \<Longrightarrow> out_items pm = [] \<longleftrightarrow> output_begin (fst pm) = output_end (fst pm)"
  by (simp add: out_ok_def out_items_def ring_items_empty)

lemma in_items_Nil: "in_ok pm \<Longrightarrow> in_items pm = [] \<longleftrightarrow> input_begin (fst pm) = input_end (fst pm)"
  by (simp add: in_ok_def in_items_def ring_items_empty)

lemma pty_read_output_loop_items:
  assumes "out_ok pm" and "out_items pm \<noteq> []" and "0 < n"
  shows "\<exists>pm'. pty_read_output_loop n pm = (take n (out_items pm), pm') \<and> out_ok pm'
     \<and> out_items pm' = drop n (out_items pm)"
  using assms
proof (induction n arbitrary: pm)
  case 0
  then show ?case by simp
next
  case (Suc n)
  obtain x xs where it: "out_items pm = x # xs" using Suc.prems(2) by (cases "out_items pm") auto
  obtain y pm1 where g: "pty_get_output pm = (y, pm1)" by (cases "pty_get_output pm")
  then have pm1: "y = x" "out_ok pm1" "out_items pm1 = xs"
    using pty_out.get_item [OF Suc.prems(1) it] by auto
  show ?case
  proof (cases "xs = [] \<or> n = 0")
    case True
    then show ?thesis using g it pm1 out_items_Nil [OF pm1(2)] by (cases pm1) auto
  next
    case False
    with Suc.IH [OF pm1(2)] pm1 g it out_items_Nil [OF pm1(2)] show ?thesis by auto
  qed
qed

lemma pty_read_loop_items:
  assumes "in_ok pm" and "in_items pm \<noteq> []" and "0 < n"
  shows "\<exists>pm'. pty_read_loop n pm = (take n (in_items pm), pm') \<and> in_ok pm'
     \<and> in_items pm' = drop n (in_items pm)"
  using assms
proof (induction n arbitrary: pm)
  case 0
  then show ?case by simp
next
  case (Suc n)
  obtain x xs where it: "in_items pm = x # xs" using Suc.prems(2) by (cases "in_items pm") auto
  obtain y pm1 where g: "pty_get_input pm = (y, pm1)" by (cases "pty_get_input pm")
  then have pm1: "y = x" "in_ok pm1" "in_items pm1 = xs"
    using pty_in.get_item [OF Suc.prems(1) it] by auto
  show ?case
  proof (cases "xs = [] \<or> n = 0")
    case True
    then show ?thesis using g it pm1 in_items_Nil [OF pm1(2)] by (cases pm1) auto
  next
    case False
    with Suc.IH [OF pm1(2)] pm1 g it in_items_Nil [OF pm1(2)] show ?thesis by auto
  qed
qed

lemma foldl_put_owner [simp]:
  "owner (fst (foldl pty_put_output pm bs)) = owner (fst pm)"
  "owner (fst (foldl pty_put_input pm bs)) = owner (fst pm)"
  by (induction bs arbitrary: pm) (auto simp: pty_put_output_def pty_put_input_def Let_def split: prod.splits)

lemma pty_store_simps [simp]:
  "0 \<le> i \<Longrightarrow> i < int (length (pty st)) \<Longrightarrow> pty (pty_store st i pm) ! nat i = fst pm"
  "length (pty (pty_store st i pm)) = length (pty st)"
  "ram (pty_kmem (pty_store st i pm)) = snd pm"
  by (simp_all add: pty_store_def)

section \<open>Properties\<close>


definition one_pty :: pty_state where
  "one_pty = \<lparr>pty = [\<lparr>owner = Some 3, input_buffer = 0x1000, output_buffer = 0x2000,
     input_begin = 0, input_end = 0, output_begin = 4095, output_end = 4095\<rparr>],
     pty_kmem = \<lparr>use_lock = True, freelist = 0, ram = \<lambda>_. 0\<rparr>\<rparr>"


text \<open>
  C9. Only the process that created a terminal can close it, read its output or write its
  input: any other process gets \<open>ERROR_NO_PERM\<close>, no bytes, and no state changes.
\<close>

theorem pty_owner_only:
  assumes "0 \<le> i" and "i < int (length (pty st))" and "owner (pty st ! nat i) \<noteq> Some me"
  shows "pty_close st me i = Ok (ERROR_NO_PERM, st)
     \<and> pty_read_output st me i k = Ok (ERROR_NO_PERM, [], st)
     \<and> pty_write_input st me i buf n = Ok (ERROR_NO_PERM, st)"
  using assms by (simp add: pty_close_def pty_read_output_def pty_write_input_def)

theorem pty_owner_only_witness:
  "pty_close one_pty 4 0 = Ok (-9, one_pty)"
  using pty_owner_only [of 0 one_pty 4] by (simp add: one_pty_def ERROR_NO_PERM_def)

end
