(* ===== verification/Hal_Block.thy ===== *)
theory Hal_Block
  imports Kernel_Prelude
begin

text \<open>
  The block layer, \<^verbatim>\<open>kernel/hal/block.c\<close> with the partition tables of \<^verbatim>\<open>kernel/hal/mbr.c\<close> and
  \<^verbatim>\<open>kernel/hal/gpt.c\<close>: up to eight block devices with a cache of 512 sectors each, and up to
  eight partitions. A device driver is reached through function pointers only, so it is a
  parameter: a state \<open>'d\<close> and two functions. A driver is given the buffer and returns its new
  contents, so a failing read may leave anything in it. Pages from the page allocator are
  byte lists of length 4096; \<open>junk\<close> is what such a page holds before it is written. A cache
  page that has been freed while the cache still points to it holds \<open>junk\<close> again. Each
  operation is taken as one critical section of the cache lock.
\<close>

section \<open>State\<close>

record 'd BlockDeviceDriver =
  block_read :: "'d \<Rightarrow> u32 \<Rightarrow> int \<Rightarrow> u8 list \<Rightarrow> int \<times> u8 list \<times> 'd"
  block_write :: "'d \<Rightarrow> u32 \<Rightarrow> int \<Rightarrow> u8 list \<Rightarrow> int \<times> 'd"

record BlockCache =
  lba :: u32
  cbuf :: "u8 list option"

record 'd BlockDevice =
  driver :: "'d BlockDeviceDriver option"
  drvpriv :: 'd
  cache :: "BlockCache list option"
  cache_next :: nat

datatype HalPartitionFilesystemType =
    HAL_PARTITION_TYPE_NONE
  | HAL_PARTITION_TYPE_OTHER
  | HAL_PARTITION_TYPE_FAT32
  | HAL_PARTITION_TYPE_LINUX
  | HAL_PARTITION_TYPE_DATA
  | HAL_PARTITION_TYPE_ESP

record HalPartitionMap =
  fs_type :: HalPartitionFilesystemType
  dev :: u32
  pbegin :: u32
  psize :: u32

record 'd hal =
  hal_block_map :: "'d BlockDevice list"
  hal_partition_map :: "HalPartitionMap list"
  junk :: "u8 list"

definition HAL_BLOCK_MAX :: int where "HAL_BLOCK_MAX = 8"
definition HAL_PARTITION_MAX :: int where "HAL_PARTITION_MAX = 8"
definition HAL_BLOCK_CACHE_MAX :: nat where "HAL_BLOCK_CACHE_MAX = 512"

definition set_block :: "'d hal \<Rightarrow> nat \<Rightarrow> 'd BlockDevice \<Rightarrow> 'd hal" where
  "set_block h i b = h\<lparr>hal_block_map := (hal_block_map h)[i := b]\<rparr>"

section \<open>Devices\<close>

definition hal_disk_read :: "'d hal \<Rightarrow> int \<Rightarrow> u32 \<Rightarrow> int \<Rightarrow> u8 list \<Rightarrow> (int \<times> u8 list \<times> 'd hal) kres" where
  "hal_disk_read h bid begin count buf =
     (if bid \<ge> HAL_BLOCK_MAX then Ok (ERROR_INVAILD, buf, h)
      else kbind (arr (hal_block_map h) bid) (\<lambda>b.
        case driver b of
          None \<Rightarrow> Ok (ERROR_INVAILD, buf, h)
        | Some drv \<Rightarrow> (case block_read drv (drvpriv b) begin count buf of (r, buf', d) \<Rightarrow>
            Ok (r, buf', set_block h (nat bid) (b\<lparr>drvpriv := d\<rparr>)))))"

definition hal_disk_write :: "'d hal \<Rightarrow> int \<Rightarrow> u32 \<Rightarrow> int \<Rightarrow> u8 list \<Rightarrow> (int \<times> 'd hal) kres" where
  "hal_disk_write h bid begin count buf =
     (if bid \<ge> HAL_BLOCK_MAX then Ok (-1, h)
      else kbind (arr (hal_block_map h) bid) (\<lambda>b.
        case driver b of
          None \<Rightarrow> Ok (ERROR_INVAILD, h)
        | Some drv \<Rightarrow> (case block_write drv (drvpriv b) begin count buf of (r, d) \<Rightarrow>
            Ok (r, set_block h (nat bid) (b\<lparr>drvpriv := d\<rparr>)))))"

text \<open>The search loops over the cache: the first slot that has a buffer for this sector.\<close>

fun cache_search :: "BlockCache list \<Rightarrow> u32 \<Rightarrow> nat \<Rightarrow> (nat \<times> u8 list) option" where
  "cache_search [] begin i = None"
| "cache_search (c # cs) begin i =
     (case cbuf c of
        Some b \<Rightarrow> if lba c = begin then Some (i, b) else cache_search cs begin (Suc i)
      | None \<Rightarrow> cache_search cs begin (Suc i))"

definition set_cache :: "'d BlockDevice \<Rightarrow> nat \<Rightarrow> BlockCache \<Rightarrow> 'd BlockDevice" where
  "set_cache b i c = b\<lparr>cache := map_option (\<lambda>cs. cs[i := c]) (cache b)\<rparr>"

text \<open>
  A miss: the slot \<^verbatim>\<open>cache_next\<close> is taken for the sector, the driver reads into its buffer
  whatever comes of it, the buffer is copied out and \<^verbatim>\<open>cache_next\<close> moves on.
\<close>

definition hal_block_read_miss :: "'d hal \<Rightarrow> int \<Rightarrow> u32 \<Rightarrow> int \<Rightarrow> u8 list
    \<Rightarrow> 'd BlockDevice \<Rightarrow> BlockCache list \<Rightarrow> (int \<times> u8 list \<times> 'd hal) kres" where
  "hal_block_read_miss h bid begin count buf blk cs =
     kbind (arr cs (int (cache_next blk))) (\<lambda>slot.
       let page = (case cbuf slot of None \<Rightarrow> junk h | Some b \<Rightarrow> b);
           blk = set_cache blk (cache_next blk) \<lparr>lba = begin, cbuf = Some page\<rparr>;
           h = set_block h (nat bid) blk
       in kbind (hal_disk_read h bid begin count page) (\<lambda>(r, page, h).
          kbind (arr (hal_block_map h) bid) (\<lambda>blk.
            let blk = set_cache blk (cache_next blk) \<lparr>lba = begin, cbuf = Some page\<rparr>;
                n = cache_next blk + 1;
                blk = blk\<lparr>cache_next := if n \<ge> HAL_BLOCK_CACHE_MAX then 0 else n\<rparr>
            in Ok (0, overlay 512 page buf, set_block h (nat bid) blk))))"

definition hal_block_read :: "'d hal \<Rightarrow> int \<Rightarrow> u32 \<Rightarrow> int \<Rightarrow> u8 list \<Rightarrow> (int \<times> u8 list \<times> 'd hal) kres" where
  "hal_block_read h bid begin count buf =
     (if count > 1 then hal_disk_read h bid begin count buf
      else kbind (arr (hal_block_map h) bid) (\<lambda>blk.
        case cache blk of
          None \<Rightarrow> Fault
        | Some cs \<Rightarrow> (case cache_search cs begin 0 of
            Some (i, b) \<Rightarrow> Ok (0, overlay 512 b buf, h)
          | None \<Rightarrow> hal_block_read_miss h bid begin count buf blk cs)))"

text \<open>
  \<open>hal_block_write\<close> for more than one sector frees every cached page first, without clearing
  the pointers to them, writes the sectors, and then goes on to the single-sector code below,
  which writes again.
\<close>

definition cache_kfree_all :: "'d hal \<Rightarrow> BlockCache list \<Rightarrow> BlockCache list" where
  "cache_kfree_all h cs = map (\<lambda>c. c\<lparr>cbuf := map_option (\<lambda>_. junk h) (cbuf c)\<rparr>) cs"

definition hal_block_write_flush :: "'d hal \<Rightarrow> int \<Rightarrow> u32 \<Rightarrow> int \<Rightarrow> u8 list \<Rightarrow> 'd hal kres" where
  "hal_block_write_flush h bid begin count buf =
     (if count > 1
      then kbind (arr (hal_block_map h) bid) (\<lambda>blk.
        case cache blk of
          None \<Rightarrow> Fault
        | Some cs \<Rightarrow>
            let h = set_block h (nat bid) (blk\<lparr>cache := Some (cache_kfree_all h cs)\<rparr>)
            in kbind (hal_disk_write h bid begin count buf) (\<lambda>(r, h). Ok h))
      else Ok h)"

definition hal_block_write :: "'d hal \<Rightarrow> int \<Rightarrow> u32 \<Rightarrow> int \<Rightarrow> u8 list \<Rightarrow> (int \<times> 'd hal) kres" where
  "hal_block_write h bid begin count buf =
     kbind (hal_block_write_flush h bid begin count buf) (\<lambda>h.
     kbind (arr (hal_block_map h) bid) (\<lambda>blk.
       case cache blk of
         None \<Rightarrow> Fault
       | Some cs \<Rightarrow> (case cache_search cs begin 0 of
           Some (i, b) \<Rightarrow>
             let b = overlay 512 buf b;
                 h = set_block h (nat bid) (set_cache blk i ((cs ! i)\<lparr>cbuf := Some b\<rparr>))
             in hal_disk_write h bid begin count b
         | None \<Rightarrow> hal_disk_write h bid begin count buf)))"

section \<open>Partitions\<close>

definition hal_partition_read :: "'d hal \<Rightarrow> int \<Rightarrow> u32 \<Rightarrow> int \<Rightarrow> u8 list \<Rightarrow> (int \<times> u8 list \<times> 'd hal) kres" where
  "hal_partition_read h bid begin count buf =
     (if bid \<ge> HAL_PARTITION_MAX then Ok (-1, buf, h)
      else kbind (arr (hal_partition_map h) bid) (\<lambda>p.
        if fs_type p = HAL_PARTITION_TYPE_NONE then Ok (-1, buf, h)
        else hal_block_read h (sint (dev p)) (pbegin p + begin) count buf))"

definition hal_partition_write :: "'d hal \<Rightarrow> int \<Rightarrow> u32 \<Rightarrow> int \<Rightarrow> u8 list \<Rightarrow> (int \<times> 'd hal) kres" where
  "hal_partition_write h bid begin count buf =
     (if bid \<ge> HAL_PARTITION_MAX then Ok (-1, h)
      else kbind (arr (hal_partition_map h) bid) (\<lambda>p.
        if fs_type p = HAL_PARTITION_TYPE_NONE then Ok (-1, h)
        else hal_block_write h (sint (dev p)) (pbegin p + begin) count buf))"

text \<open>The first free slot of the partition table; \<open>None\<close> when there is none.\<close>

fun hal_partition_map_insert :: "HalPartitionMap list \<Rightarrow> HalPartitionFilesystemType \<Rightarrow> u32 \<Rightarrow> u32 \<Rightarrow> u32
    \<Rightarrow> HalPartitionMap list option" where
  "hal_partition_map_insert [] fs d b s = None"
| "hal_partition_map_insert (p # ps) fs d b s =
     (if fs_type p = HAL_PARTITION_TYPE_NONE
      then Some (\<lparr>fs_type = fs, dev = d, pbegin = b, psize = s\<rparr> # ps)
      else map_option (\<lambda>ps. p # ps) (hal_partition_map_insert ps fs d b s))"

definition insert_or_panic :: "'d hal \<Rightarrow> HalPartitionFilesystemType \<Rightarrow> u32 \<Rightarrow> u32 \<Rightarrow> u32 \<Rightarrow> 'd hal kres" where
  "insert_or_panic h fs d b s =
     (case hal_partition_map_insert (hal_partition_map h) fs d b s of
        None \<Rightarrow> Panic ''hal too many partition''
      | Some m \<Rightarrow> Ok (h\<lparr>hal_partition_map := m\<rparr>))"

text \<open>\<open>mbr_probe_partition\<close>: the four entries of 16 bytes at 0x1be.\<close>

definition mbr_fs :: "u8 \<Rightarrow> HalPartitionFilesystemType" where
  "mbr_fs type = (if type = 0xb \<or> type = 0xc then HAL_PARTITION_TYPE_FAT32
     else if type = 0x83 then HAL_PARTITION_TYPE_LINUX
     else HAL_PARTITION_TYPE_OTHER)"

definition mbr_entry :: "'d hal \<Rightarrow> int \<Rightarrow> u8 list \<Rightarrow> nat \<Rightarrow> 'd hal kres" where
  "mbr_entry h block_id bootsect j =
     (let off = 0x1be + j * 0x10; type = bootsect ! (off + 4) in
      if type = 0 then Ok h
      else insert_or_panic h (mbr_fs type) (of_int block_id) (le32 bootsect (off + 8)) (le32 bootsect (off + 12)))"

definition mbr_probe_partition :: "'d hal \<Rightarrow> int \<Rightarrow> 'd hal kres" where
  "mbr_probe_partition h block_id =
     kbind (hal_disk_read h block_id 0 1 (junk h)) (\<lambda>(r, bootsect, h).
       if r < 0 then Panic ''disk read error''
       else kbind (mbr_entry h block_id bootsect 0) (\<lambda>h.
            kbind (mbr_entry h block_id bootsect 1) (\<lambda>h.
            kbind (mbr_entry h block_id bootsect 2) (\<lambda>h.
            mbr_entry h block_id bootsect 3))))"

text \<open>
  \<open>gpt_probe_partition\<close>: 32 sectors of four entries of 128 bytes. \<^verbatim>\<open>struct GUID\<close> stores its
  \<^verbatim>\<open>upper\<close> half first.
\<close>

definition gpt_fs :: "u64 \<Rightarrow> u64 \<Rightarrow> HalPartitionFilesystemType" where
  "gpt_fs lower upper =
     (if lower = 0x3bc93ec9a0004bba \<and> upper = 0x11d2f81fc12a7328 then HAL_PARTITION_TYPE_ESP
      else if lower = 0xc79926b7b668c087 \<and> upper = 0x4433b9e5ebd0a0a2 then HAL_PARTITION_TYPE_DATA
      else if lower = 0xe47d47d8693d798e \<and> upper = 0x477284830fc63daf then HAL_PARTITION_TYPE_LINUX
      else HAL_PARTITION_TYPE_OTHER)"

definition gpt_entry :: "'d hal \<Rightarrow> int \<Rightarrow> u8 list \<Rightarrow> nat \<Rightarrow> 'd hal kres" where
  "gpt_entry h block_id sector_data i =
     (let off = i * 128;
          upper = le64 sector_data off; lower = le64 sector_data (off + 8);
          first_lba = le64 sector_data (off + 32); last_lba = le64 sector_data (off + 40) in
      if lower = 0 \<and> upper = 0 then Ok h
      else insert_or_panic h (gpt_fs lower upper) (of_int block_id) (ucast first_lba)
             (ucast (ucast (ucast last_lba :: u32) - first_lba + 1)))"

fun gpt_sectors :: "'d hal \<Rightarrow> int \<Rightarrow> nat list \<Rightarrow> 'd hal kres" where
  "gpt_sectors h block_id [] = Ok h"
| "gpt_sectors h block_id (s # ss) =
     kbind (hal_disk_read h block_id (of_nat s) 1 (junk h)) (\<lambda>(r, sector_data, h).
       if r < 0 then Panic ''disk read error''
       else kbind (gpt_entry h block_id sector_data 0) (\<lambda>h.
            kbind (gpt_entry h block_id sector_data 1) (\<lambda>h.
            kbind (gpt_entry h block_id sector_data 2) (\<lambda>h.
            kbind (gpt_entry h block_id sector_data 3) (\<lambda>h.
            gpt_sectors h block_id ss)))))"

definition gpt_probe_partition :: "'d hal \<Rightarrow> int \<Rightarrow> 'd hal kres" where
  "gpt_probe_partition h block_id =
     kbind (hal_disk_read h block_id 1 1 (junk h)) (\<lambda>(r, gpt_header, h).
       if r < 0 then Panic ''disk read error''
       else if le64 gpt_header 24 \<noteq> 1 then Panic ''invalid GPT''
       else gpt_sectors h block_id [2..<34])"

definition hal_block_probe_partition :: "'d hal \<Rightarrow> int \<Rightarrow> 'd hal kres" where
  "hal_block_probe_partition h block_id =
     kbind (hal_disk_read h block_id 1 1 (junk h)) (\<lambda>(r, gptsect, h).
       if r < 0 then Panic ''disk read error''
       else if le64 gptsect 0 = 0x5452415020494645 then gpt_probe_partition h block_id
       else mbr_probe_partition h block_id)"

definition hal_block_cache_init :: "'d hal \<Rightarrow> int \<Rightarrow> 'd hal kres" where
  "hal_block_cache_init h block_id =
     kbind (arr (hal_block_map h) block_id) (\<lambda>b.
       Ok (set_block h (nat block_id)
             (b\<lparr>cache := Some (replicate HAL_BLOCK_CACHE_MAX \<lparr>lba = 0, cbuf = None\<rparr>),
                cache_next := 0\<rparr>)))"

fun free_block_slot :: "'d BlockDevice list \<Rightarrow> nat \<Rightarrow> nat option" where
  "free_block_slot [] i = None"
| "free_block_slot (b # bs) i = (if driver b = None then Some i else free_block_slot bs (Suc i))"

definition hal_block_register_device :: "'d hal \<Rightarrow> 'd \<Rightarrow> 'd BlockDeviceDriver \<Rightarrow> 'd hal kres" where
  "hal_block_register_device h priv drv =
     (case free_block_slot (hal_block_map h) 0 of
        None \<Rightarrow> Panic ''too many block devices''
      | Some i \<Rightarrow>
          let h = set_block h i ((hal_block_map h ! i)\<lparr>driver := Some drv, drvpriv := priv\<rparr>)
          in kbind (hal_block_probe_partition h (int i)) (\<lambda>h. hal_block_cache_init h (int i)))"

definition hal_block_init :: "'d hal \<Rightarrow> 'd \<Rightarrow> 'd hal" where
  "hal_block_init h null = h\<lparr>
     hal_block_map := replicate 8 \<lparr>driver = None, drvpriv = null, cache = None, cache_next = 0\<rparr>,
     hal_partition_map := replicate 8
       \<lparr>fs_type = HAL_PARTITION_TYPE_NONE, dev = 0, pbegin = 0, psize = 0\<rparr>\<rparr>"

section \<open>Stores of sectors\<close>

text \<open>
  What a file system needs of the layer below: single sectors of 512 bytes that can be read
  and written. \<open>sop\<close> is a request, \<open>sector_run\<close> performs requests through an
  implementation and collects what the reads deliver, \<open>disk_run\<close> does the same on a plain
  function from sector numbers to contents.
\<close>

datatype sop = Rd u32 | Wr u32 "u8 list"

fun sector_run :: "('s \<Rightarrow> u32 \<Rightarrow> u8 list \<Rightarrow> (int \<times> u8 list \<times> 's) kres) \<Rightarrow> ('s \<Rightarrow> u32 \<Rightarrow> u8 list \<Rightarrow> (int \<times> 's) kres)
    \<Rightarrow> 's \<Rightarrow> sop list \<Rightarrow> (u8 list list \<times> 's) kres" where
  "sector_run rd wr s [] = Ok ([], s)"
| "sector_run rd wr s (Rd b # ops) =
     kbind (rd s b (replicate 512 0)) (\<lambda>(r, buf, s).
     kbind (sector_run rd wr s ops) (\<lambda>(out, s). Ok (buf # out, s)))"
| "sector_run rd wr s (Wr b buf # ops) = kbind (wr s b buf) (\<lambda>(r, s). sector_run rd wr s ops)"

fun disk_run :: "(u32 \<Rightarrow> u8 list) \<Rightarrow> sop list \<Rightarrow> u8 list list \<times> (u32 \<Rightarrow> u8 list)" where
  "disk_run f [] = ([], f)"
| "disk_run f (Rd b # ops) = (case disk_run f ops of (out, g) \<Rightarrow> (f b # out, g))"
| "disk_run f (Wr b buf # ops) = disk_run (f(b := take 512 buf)) ops"

locale sector_store =
  fixes rd :: "'s \<Rightarrow> u32 \<Rightarrow> u8 list \<Rightarrow> (int \<times> u8 list \<times> 's) kres"
    and wr :: "'s \<Rightarrow> u32 \<Rightarrow> u8 list \<Rightarrow> (int \<times> 's) kres"
    and ok :: "'s \<Rightarrow> bool"
    and sect :: "'s \<Rightarrow> u32 \<Rightarrow> u8 list"
  assumes sect_length: "ok s \<Longrightarrow> length (sect s b) = 512"
    and rd_sect: "ok s \<Longrightarrow> 512 \<le> length buf \<Longrightarrow>
      \<exists>s'. rd s b buf = Ok (0, overlay 512 (sect s b) buf, s') \<and> ok s' \<and> sect s' = sect s"
    and wr_sect: "ok s \<Longrightarrow> 512 \<le> length buf \<Longrightarrow>
      \<exists>s'. wr s b buf = Ok (0, s') \<and> ok s' \<and> sect s' = (sect s)(b := take 512 buf)"
begin

lemma run_refines_disk:
  assumes "ok s" and "\<forall>b buf. Wr b buf \<in> set ops \<longrightarrow> 512 \<le> length buf"
  shows "\<exists>s'. sector_run rd wr s ops = Ok (fst (disk_run (sect s) ops), s')
     \<and> ok s' \<and> sect s' = snd (disk_run (sect s) ops)"
  using assms
proof (induction ops arbitrary: s)
  case Nil
  then show ?case by simp
next
  case (Cons op ops)
  show ?case
  proof (cases op)
    case (Rd b)
    obtain s1 where s1: "rd s b (replicate 512 0) = Ok (0, overlay 512 (sect s b) (replicate 512 0), s1)"
      "ok s1" "sect s1 = sect s"
      using rd_sect [OF Cons.prems(1), of "replicate 512 0" b] by auto
    have "overlay 512 (sect s b) (replicate 512 0) = sect s b"
      using sect_length [OF Cons.prems(1)] by (simp add: overlay_def)
    with Cons.IH [OF s1(2)] Cons.prems(2) s1 Rd show ?thesis by (auto split: prod.splits)
  next
    case (Wr b buf)
    then have "512 \<le> length buf" using Cons.prems(2) by auto
    then obtain s1 where s1: "wr s b buf = Ok (0, s1)" "ok s1" "sect s1 = (sect s)(b := take 512 buf)"
      using wr_sect [OF Cons.prems(1)] by blast
    have "disk_run (sect s) (op # ops) = disk_run (sect s1) ops" using Wr s1(3) by simp
    moreover have "sector_run rd wr s (op # ops) = sector_run rd wr s1 ops" using Wr s1(1) by simp
    ultimately show ?thesis using Cons.IH [OF s1(2)] Cons.prems(2) by simp
  qed
qed

end

section \<open>The cache is coherent\<close>

text \<open>
  What the kernel assumes of a block device driver: single sectors are read and written
  without error. \<open>disk d\<close> is the contents of the medium when the driver's state is \<open>d\<close>.
\<close>

definition reliable :: "'d BlockDeviceDriver \<Rightarrow> ('d \<Rightarrow> u32 \<Rightarrow> u8 list) \<Rightarrow> bool" where
  "reliable drv disk \<longleftrightarrow>
     (\<forall>d b. length (disk d b) = 512)
   \<and> (\<forall>d b buf. 512 \<le> length buf \<longrightarrow>
        (\<exists>d'. block_read drv d b 1 buf = (0, overlay 512 (disk d b) buf, d') \<and> disk d' = disk d))
   \<and> (\<forall>d b buf. 512 \<le> length buf \<longrightarrow>
        (\<exists>d'. block_write drv d b 1 buf = (0, d') \<and> disk d' = (disk d)(b := take 512 buf)))"

definition coherent :: "(u32 \<Rightarrow> u8 list) \<Rightarrow> BlockCache list \<Rightarrow> bool" where
  "coherent f cs \<longleftrightarrow>
     (\<forall>i b. i < length cs \<longrightarrow> cbuf (cs ! i) = Some b \<longrightarrow> 512 \<le> length b \<and> take 512 b = f (lba (cs ! i)))
   \<and> (\<forall>i j. i < length cs \<longrightarrow> j < length cs \<longrightarrow> cbuf (cs ! i) \<noteq> None \<longrightarrow> cbuf (cs ! j) \<noteq> None
        \<longrightarrow> lba (cs ! i) = lba (cs ! j) \<longrightarrow> i = j)"

definition dev_ok :: "'d BlockDeviceDriver \<Rightarrow> ('d \<Rightarrow> u32 \<Rightarrow> u8 list) \<Rightarrow> nat \<Rightarrow> 'd hal \<Rightarrow> bool" where
  "dev_ok drv disk i h \<longleftrightarrow> reliable drv disk \<and> length (hal_block_map h) = 8 \<and> i < 8
     \<and> 512 \<le> length (junk h) \<and> driver (hal_block_map h ! i) = Some drv
     \<and> cache_next (hal_block_map h ! i) < 512
     \<and> (\<exists>cs. cache (hal_block_map h ! i) = Some cs \<and> length cs = 512
          \<and> coherent (disk (drvpriv (hal_block_map h ! i))) cs)"

lemma cache_search_Some:
  "cache_search cs b k = Some (i, x) \<Longrightarrow>
     k \<le> i \<and> i - k < length cs \<and> cbuf (cs ! (i - k)) = Some x \<and> lba (cs ! (i - k)) = b"
proof (induction cs arbitrary: k)
  case Nil
  then show ?case by simp
next
  case (Cons c cs)
  show ?case
  proof (cases "\<exists>y. cbuf c = Some y \<and> lba c = b")
    case True
    with Cons.prems show ?thesis by auto
  next
    case False
    with Cons.prems have "cache_search cs b (Suc k) = Some (i, x)"
      by (auto split: option.splits if_splits)
    then have "Suc k \<le> i \<and> i - Suc k < length cs \<and> cbuf (cs ! (i - Suc k)) = Some x
        \<and> lba (cs ! (i - Suc k)) = b"
      by (rule Cons.IH)
    moreover from this have "i - k = Suc (i - Suc k)" by linarith
    ultimately show ?thesis by simp
  qed
qed

lemma cache_search_None:
  "cache_search cs b k = None \<Longrightarrow> i < length cs \<Longrightarrow> cbuf (cs ! i) \<noteq> None \<Longrightarrow> lba (cs ! i) \<noteq> b"
proof (induction cs arbitrary: k i)
  case Nil
  then show ?case by simp
next
  case (Cons c cs)
  then show ?case by (cases i) (auto split: option.splits if_splits)
qed

text \<open>The three ways the cache changes: a slot filled, a cached or an uncached sector written.\<close>

lemma coherent_fill:
  assumes "coherent f cs" and "n < length cs" and "512 \<le> length page" and "take 512 page = f b"
    and "\<And>i. i < length cs \<Longrightarrow> cbuf (cs ! i) \<noteq> None \<Longrightarrow> lba (cs ! i) \<noteq> b"
  shows "coherent f (cs[n := \<lparr>lba = b, cbuf = Some page\<rparr>])"
  using assms unfolding coherent_def by (auto simp: nth_list_update)

lemma coherent_write_cached:
  assumes "coherent f cs" and "i < length cs" and "cbuf (cs ! i) = Some x" and "lba (cs ! i) = b"
    and "512 \<le> length page" and "take 512 page = take 512 buf"
  shows "coherent (f(b := take 512 buf)) (cs[i := (cs ! i)\<lparr>cbuf := Some page\<rparr>])"
  unfolding coherent_def
proof (intro conjI allI impI, goal_cases)
  case (1 j y)
  with assms show ?case
    by (cases "j = i") (auto simp: coherent_def)
next
  case (2 j y)
  show ?case
  proof (cases "j = i")
    case True
    with 2 assms show ?thesis by simp
  next
    case False
    then have "lba (cs ! j) \<noteq> b" using 2 assms unfolding coherent_def by (metis length_list_update nth_list_update_neq option.discI)
    with False 2 assms show ?thesis by (simp add: coherent_def)
  qed
next
  case (3 j k)
  then show ?case using assms unfolding coherent_def
    by (metis (no_types, lifting) BlockCache.select_convs(1) BlockCache.surjective BlockCache.update_convs(2) length_list_update nth_list_update option.discI)
qed

lemma coherent_write_uncached:
  assumes "coherent f cs" and "\<And>i. i < length cs \<Longrightarrow> cbuf (cs ! i) \<noteq> None \<Longrightarrow> lba (cs ! i) \<noteq> b"
  shows "coherent (f(b := x)) cs"
  using assms unfolding coherent_def by auto

lemma reliable_read:
  assumes "reliable drv disk" and "512 \<le> length buf"
  obtains d' where "block_read drv d b 1 buf = (0, overlay 512 (disk d b) buf, d')" and "disk d' = disk d"
  using assms unfolding reliable_def by blast

lemma reliable_write:
  assumes "reliable drv disk" and "512 \<le> length buf"
  obtains d' where "block_write drv d b 1 buf = (0, d')" and "disk d' = (disk d)(b := take 512 buf)"
  using assms unfolding reliable_def by blast

text \<open>The rest of the block layer is not touched by work on device \<open>i\<close>.\<close>

definition others_same :: "nat \<Rightarrow> 'd hal \<Rightarrow> 'd hal \<Rightarrow> bool" where
  "others_same i h h' \<longleftrightarrow> hal_partition_map h' = hal_partition_map h \<and> junk h' = junk h
     \<and> length (hal_block_map h') = length (hal_block_map h)
     \<and> (\<forall>j. j \<noteq> i \<longrightarrow> hal_block_map h' ! j = hal_block_map h ! j)"

lemma set_block_simps [simp]:
  "hal_partition_map (set_block h i b) = hal_partition_map h"
  "junk (set_block h i b) = junk h"
  "length (hal_block_map (set_block h i b)) = length (hal_block_map h)"
  "i < length (hal_block_map h) \<Longrightarrow> hal_block_map (set_block h i b) ! i = b"
  "j \<noteq> i \<Longrightarrow> hal_block_map (set_block h i b) ! j = hal_block_map h ! j"
  "set_block (set_block h i b) i c = set_block h i c"
  by (simp_all add: set_block_def)

lemma set_cache_simps [simp]:
  "driver (set_cache b i c) = driver b"
  "drvpriv (set_cache b i c) = drvpriv b"
  "cache_next (set_cache b i c) = cache_next b"
  "cache b = Some cs \<Longrightarrow> cache (set_cache b i c) = Some (cs[i := c])"
  by (simp_all add: set_cache_def)

lemma hal_disk_read_ok:
  assumes "reliable drv disk" and "i < length (hal_block_map h)" and "i < 8"
    and "driver (hal_block_map h ! i) = Some drv" and "512 \<le> length buf"
  obtains d' where "hal_disk_read h (int i) b 1 buf =
      Ok (0, overlay 512 (disk (drvpriv (hal_block_map h ! i)) b) buf,
          set_block h i ((hal_block_map h ! i)\<lparr>drvpriv := d'\<rparr>))"
    and "disk d' = disk (drvpriv (hal_block_map h ! i))"
proof (rule reliable_read [OF assms(1,5)])
  fix d'
  assume "block_read drv (drvpriv (hal_block_map h ! i)) b 1 buf =
      (0, overlay 512 (disk (drvpriv (hal_block_map h ! i)) b) buf, d')"
    and "disk d' = disk (drvpriv (hal_block_map h ! i))"
  then show thesis using assms that by (simp add: hal_disk_read_def HAL_BLOCK_MAX_def)
qed

lemma hal_disk_write_ok:
  assumes "reliable drv disk" and "i < length (hal_block_map h)" and "i < 8"
    and "driver (hal_block_map h ! i) = Some drv" and "512 \<le> length buf"
  obtains d' where "hal_disk_write h (int i) b 1 buf =
      Ok (0, set_block h i ((hal_block_map h ! i)\<lparr>drvpriv := d'\<rparr>))"
    and "disk d' = (disk (drvpriv (hal_block_map h ! i)))(b := take 512 buf)"
proof (rule reliable_write [OF assms(1,5)])
  fix d'
  assume "block_write drv (drvpriv (hal_block_map h ! i)) b 1 buf = (0, d')"
    and "disk d' = (disk (drvpriv (hal_block_map h ! i)))(b := take 512 buf)"
  then show thesis using assms that by (simp add: hal_disk_write_def HAL_BLOCK_MAX_def)
qed

lemma hal_block_read_ok:
  assumes "dev_ok drv disk i h" and "512 \<le> length buf"
  shows "\<exists>h'. hal_block_read h (int i) b 1 buf =
      Ok (0, overlay 512 (disk (drvpriv (hal_block_map h ! i)) b) buf, h')
     \<and> dev_ok drv disk i h' \<and> others_same i h h'
     \<and> disk (drvpriv (hal_block_map h' ! i)) = disk (drvpriv (hal_block_map h ! i))"
proof -
  let ?b = "hal_block_map h ! i"
  let ?f = "disk (drvpriv ?b)"
  obtain cs where cs: "cache ?b = Some cs" "length cs = 512" "coherent ?f cs"
    using assms(1) by (auto simp: dev_ok_def)
  have d: "reliable drv disk" "i < 8" "i < length (hal_block_map h)" "length (hal_block_map h) = 8"
    "driver ?b = Some drv" "cache_next ?b < 512" "512 \<le> length (junk h)"
    using assms(1) by (simp_all add: dev_ok_def)
  have fl: "length (?f x) = 512" for x using d(1) by (simp add: reliable_def)
  show ?thesis
  proof (cases "cache_search cs b 0")
    case (Some ix)
    then obtain k x where s: "cache_search cs b 0 = Some (k, x)" by (cases ix) auto
    from cache_search_Some [OF s] cs have "512 \<le> length x" "take 512 x = ?f b"
      by (auto simp: coherent_def)
    then have "overlay 512 x buf = overlay 512 (?f b) buf" using fl by (simp add: overlay_def)
    then show ?thesis
      using s cs d assms(1) by (auto simp: hal_block_read_def others_same_def)
  next
    case None
    note fresh = cache_search_None [OF None]
    let ?n = "cache_next ?b"
    define page where "page = (case cbuf (cs ! ?n) of None \<Rightarrow> junk h | Some b \<Rightarrow> b)"
    have pl: "512 \<le> length page"
      using d cs by (auto simp: page_def coherent_def split: option.splits)
    define b1 where "b1 = set_cache ?b ?n \<lparr>lba = b, cbuf = Some page\<rparr>"
    have b1: "driver b1 = Some drv" "drvpriv b1 = drvpriv ?b" "cache_next b1 = ?n"
      "cache b1 = Some (cs[?n := \<lparr>lba = b, cbuf = Some page\<rparr>])"
      using d cs by (simp_all add: b1_def)
    obtain d' where r: "hal_disk_read (set_block h i b1) (int i) b 1 page =
        Ok (0, overlay 512 (?f b) page, set_block h i (b1\<lparr>drvpriv := d'\<rparr>))" "disk d' = ?f"
      by (rule hal_disk_read_ok [of drv disk i "set_block h i b1" page b]) (use d b1 pl in simp_all)
    let ?page = "overlay 512 (?f b) page"
    let ?b2 = "(set_cache (b1\<lparr>drvpriv := d'\<rparr>) ?n \<lparr>lba = b, cbuf = Some ?page\<rparr>)
        \<lparr>cache_next := if 512 \<le> ?n + 1 then 0 else ?n + 1\<rparr>"
    have "hal_block_read h (int i) b 1 buf = Ok (0, overlay 512 ?page buf, set_block h i ?b2)"
      using None cs d b1 r(1)
      by (simp add: hal_block_read_def hal_block_read_miss_def Let_def HAL_BLOCK_CACHE_MAX_def
          flip: page_def b1_def)
    moreover have "overlay 512 ?page buf = overlay 512 (?f b) buf" using fl by (simp add: overlay_def)
    moreover have "coherent ?f (cs[?n := \<lparr>lba = b, cbuf = Some ?page\<rparr>])"
      by (rule coherent_fill) (use cs d fresh fl pl in auto)
    ultimately show ?thesis
      using d cs b1 r(2) by (simp add: dev_ok_def others_same_def)
  qed
qed

lemma hal_block_write_ok:
  assumes "dev_ok drv disk i h" and "512 \<le> length buf"
  shows "\<exists>h'. hal_block_write h (int i) b 1 buf = Ok (0, h')
     \<and> dev_ok drv disk i h' \<and> others_same i h h'
     \<and> disk (drvpriv (hal_block_map h' ! i)) = (disk (drvpriv (hal_block_map h ! i)))(b := take 512 buf)"
proof -
  let ?b = "hal_block_map h ! i"
  let ?f = "disk (drvpriv ?b)"
  obtain cs where cs: "cache ?b = Some cs" "length cs = 512" "coherent ?f cs"
    using assms(1) by (auto simp: dev_ok_def)
  have d: "reliable drv disk" "i < 8" "i < length (hal_block_map h)" "length (hal_block_map h) = 8"
    "driver ?b = Some drv" "cache_next ?b < 512" "512 \<le> length (junk h)"
    using assms(1) by (simp_all add: dev_ok_def)
  show ?thesis
  proof (cases "cache_search cs b 0")
    case None
    obtain d' where w: "hal_disk_write h (int i) b 1 buf = Ok (0, set_block h i (?b\<lparr>drvpriv := d'\<rparr>))"
      "disk d' = ?f(b := take 512 buf)"
      by (rule hal_disk_write_ok [OF d(1,3,2,5) assms(2)])
    have "coherent (?f(b := take 512 buf)) cs"
      by (rule coherent_write_uncached [OF cs(3)]) (rule cache_search_None [OF None])
    then show ?thesis
      using None w cs d
      by (simp add: hal_block_write_def hal_block_write_flush_def dev_ok_def others_same_def)
  next
    case (Some ix)
    then obtain k x where s: "cache_search cs b 0 = Some (k, x)" by (cases ix) auto
    have k: "k < length cs" "cbuf (cs ! k) = Some x" "lba (cs ! k) = b"
      using cache_search_Some [OF s] by simp_all
    then have xl: "512 \<le> length x" using cs by (auto simp: coherent_def)
    let ?page = "overlay 512 buf x"
    have pl: "512 \<le> length ?page" "take 512 ?page = take 512 buf" using xl assms(2) by simp_all
    let ?b1 = "set_cache ?b k ((cs ! k)\<lparr>cbuf := Some ?page\<rparr>)"
    obtain d' where w: "hal_disk_write (set_block h i ?b1) (int i) b 1 ?page =
        Ok (0, set_block h i (?b1\<lparr>drvpriv := d'\<rparr>))" "disk d' = ?f(b := take 512 buf)"
      by (rule hal_disk_write_ok [of drv disk i "set_block h i ?b1" ?page b]) (use d pl in simp_all)
    have "coherent (?f(b := take 512 buf)) (cs[k := (cs ! k)\<lparr>cbuf := Some ?page\<rparr>])"
      by (rule coherent_write_cached [OF cs(3) k pl])
    then show ?thesis
      using s w cs d
      by (simp add: hal_block_write_def hal_block_write_flush_def dev_ok_def others_same_def Let_def)
  qed
qed

section \<open>Partitions are stores of sectors\<close>

definition part_dev :: "'d hal \<Rightarrow> int \<Rightarrow> nat" where
  "part_dev h pid = nat (sint (dev (hal_partition_map h ! nat pid)))"

definition part_ok :: "'d BlockDeviceDriver \<Rightarrow> ('d \<Rightarrow> u32 \<Rightarrow> u8 list) \<Rightarrow> int \<Rightarrow> 'd hal \<Rightarrow> bool" where
  "part_ok drv disk pid h \<longleftrightarrow> 0 \<le> pid \<and> pid < 8 \<and> length (hal_partition_map h) = 8
     \<and> fs_type (hal_partition_map h ! nat pid) \<noteq> HAL_PARTITION_TYPE_NONE
     \<and> 0 \<le> sint (dev (hal_partition_map h ! nat pid)) \<and> dev_ok drv disk (part_dev h pid) h"

definition part_sect :: "('d \<Rightarrow> u32 \<Rightarrow> u8 list) \<Rightarrow> int \<Rightarrow> 'd hal \<Rightarrow> u32 \<Rightarrow> u8 list" where
  "part_sect disk pid h b = disk (drvpriv (hal_block_map h ! part_dev h pid))
     (pbegin (hal_partition_map h ! nat pid) + b)"

lemma others_same_part:
  "others_same i h h' \<Longrightarrow> part_dev h' pid = part_dev h pid"
  "others_same i h h' \<Longrightarrow> hal_partition_map h' = hal_partition_map h"
  by (simp_all add: others_same_def part_dev_def)

interpretation part: sector_store "\<lambda>h b buf. hal_partition_read h pid b 1 buf"
  "\<lambda>h b buf. hal_partition_write h pid b 1 buf" "part_ok drv disk pid" "part_sect disk pid"
  for drv disk pid
proof
  fix h :: "'a hal" and b :: u32 and buf :: "u8 list"
  assume ok: "part_ok drv disk pid h"
  let ?p = "hal_partition_map h ! nat pid"
  have p: "0 \<le> pid" "pid < 8" "length (hal_partition_map h) = 8" "fs_type ?p \<noteq> HAL_PARTITION_TYPE_NONE"
    "sint (dev ?p) = int (part_dev h pid)" and d: "dev_ok drv disk (part_dev h pid) h"
    using ok by (auto simp: part_ok_def part_dev_def)
  show "length (part_sect disk pid h b) = 512"
    using d by (simp add: part_sect_def dev_ok_def reliable_def)
  assume l: "512 \<le> length buf"
  have rd: "hal_partition_read h pid b 1 buf = hal_block_read h (int (part_dev h pid)) (pbegin ?p + b) 1 buf"
    and wr: "hal_partition_write h pid b 1 buf = hal_block_write h (int (part_dev h pid)) (pbegin ?p + b) 1 buf"
    using p by (simp_all add: hal_partition_read_def hal_partition_write_def HAL_PARTITION_MAX_def)
  show "\<exists>h'. hal_partition_read h pid b 1 buf = Ok (0, overlay 512 (part_sect disk pid h b) buf, h')
      \<and> part_ok drv disk pid h' \<and> part_sect disk pid h' = part_sect disk pid h"
  proof -
    obtain h' where h': "hal_block_read h (int (part_dev h pid)) (pbegin ?p + b) 1 buf =
        Ok (0, overlay 512 (part_sect disk pid h b) buf, h')" "dev_ok drv disk (part_dev h pid) h'"
        "others_same (part_dev h pid) h h'"
        "disk (drvpriv (hal_block_map h' ! part_dev h pid)) = disk (drvpriv (hal_block_map h ! part_dev h pid))"
      using hal_block_read_ok [OF d l, of "pbegin ?p + b"] unfolding part_sect_def by blast
    note os = others_same_part [OF h'(3)]
    show ?thesis
      using h' ok os rd by (auto simp: part_ok_def part_sect_def)
  qed
  show "\<exists>h'. hal_partition_write h pid b 1 buf = Ok (0, h') \<and> part_ok drv disk pid h'
      \<and> part_sect disk pid h' = (part_sect disk pid h)(b := take 512 buf)"
  proof -
    obtain h' where h': "hal_block_write h (int (part_dev h pid)) (pbegin ?p + b) 1 buf = Ok (0, h')"
        "dev_ok drv disk (part_dev h pid) h'" "others_same (part_dev h pid) h h'"
        "disk (drvpriv (hal_block_map h' ! part_dev h pid)) =
          (disk (drvpriv (hal_block_map h ! part_dev h pid)))(pbegin ?p + b := take 512 buf)"
      using hal_block_write_ok [OF d l, of "pbegin ?p + b"] by blast
    note os = others_same_part [OF h'(3)]
    have "part_sect disk pid h' = (part_sect disk pid h)(b := take 512 buf)"
      using h'(4) os by (auto simp: part_sect_def)
    then show ?thesis
      using h' ok os wr by (auto simp: part_ok_def)
  qed
qed

section \<open>Partition tables\<close>

definition no_part :: HalPartitionMap where
  "no_part = \<lparr>fs_type = HAL_PARTITION_TYPE_NONE, dev = 0, pbegin = 0, psize = 0\<rparr>"

text \<open>The partition an MBR entry describes, if any.\<close>

definition mbr_part :: "int \<Rightarrow> u8 list \<Rightarrow> nat \<Rightarrow> HalPartitionMap list" where
  "mbr_part d bs j =
     (if bs ! (0x1c2 + j * 0x10) = 0 then []
      else [\<lparr>fs_type = mbr_fs (bs ! (0x1c2 + j * 0x10)), dev = of_int d,
             pbegin = le32 bs (0x1c6 + j * 0x10), psize = le32 bs (0x1ca + j * 0x10)\<rparr>])"

abbreviation used :: "HalPartitionMap list \<Rightarrow> bool" where
  "used ps \<equiv> \<forall>p \<in> set ps. fs_type p \<noteq> HAL_PARTITION_TYPE_NONE"

lemma hal_partition_map_insert_packed:
  "used us \<Longrightarrow> hal_partition_map_insert (us @ replicate (Suc k) no_part) fs d b s =
     Some (us @ \<lparr>fs_type = fs, dev = d, pbegin = b, psize = s\<rparr> # replicate k no_part)"
  by (induction us) (simp_all add: no_part_def)

lemma mbr_fs_used [simp]: "mbr_fs t \<noteq> HAL_PARTITION_TYPE_NONE"
  by (simp add: mbr_fs_def)

lemma mbr_entry_packed:
  assumes "hal_partition_map h = us @ replicate (Suc k) no_part" and "used us"
  shows "mbr_entry h d bs j = Ok (h\<lparr>hal_partition_map :=
     us @ mbr_part d bs j @ replicate (Suc k - length (mbr_part d bs j)) no_part\<rparr>)"
    and "used (us @ mbr_part d bs j)" and "length (mbr_part d bs j) \<le> 1"
  using assms hal_partition_map_insert_packed [OF assms(2)]
  by (auto simp: mbr_entry_def mbr_part_def Let_def insert_or_panic_def add.commute add.left_commute)

lemma mbr_entries_packed:
  assumes "hal_partition_map h = us @ replicate k no_part" and "used us" and "length js \<le> k"
    and "steps = foldl (\<lambda>r j. kbind r (\<lambda>h. mbr_entry h d bs j)) (Ok h) js"
  shows "steps = Ok (h\<lparr>hal_partition_map := us @ concat (map (mbr_part d bs) js)
     @ replicate (k - length (concat (map (mbr_part d bs) js))) no_part\<rparr>)"
  using assms
proof (induction js arbitrary: h us k steps)
  case Nil
  then show ?case by (simp flip: Nil(1))
next
  case (Cons j js)
  then obtain k' where k: "k = Suc k'" by (cases k) auto
  note e = mbr_entry_packed [OF Cons.prems(1) [unfolded k] Cons.prems(2), of d bs j]
  let ?l = "length (mbr_part d bs j)"
  let ?h = "h\<lparr>hal_partition_map := us @ mbr_part d bs j @ replicate (Suc k' - ?l) no_part\<rparr>"
  have "foldl (\<lambda>r j. kbind r (\<lambda>h. mbr_entry h d bs j)) (Ok ?h) js =
      Ok (?h\<lparr>hal_partition_map := (us @ mbr_part d bs j) @ concat (map (mbr_part d bs) js)
        @ replicate (Suc k' - ?l - length (concat (map (mbr_part d bs) js))) no_part\<rparr>)"
    by (rule Cons.IH [OF _ e(2) _ refl]) (use e(3) Cons.prems(3) k in auto)
  then show ?case using e(1) Cons.prems(4) k by (simp add: diff_diff_left)
qed

section \<open>Properties\<close>

text \<open>
  C10. The block cache is transparent. On a partition of a device whose driver is reliable, any
  sequence of single-sector reads and writes through \<open>hal_partition_read\<close> and
  \<open>hal_partition_write\<close> succeeds, the reads deliver exactly what the same sequence on an
  uncached disk delivers, and the medium ends up with the same contents.
\<close>

theorem block_cache_transparent:
  assumes "part_ok drv disk pid h" and "\<forall>b buf. Wr b buf \<in> set ops \<longrightarrow> 512 \<le> length buf"
  shows "\<exists>h'. sector_run (\<lambda>h b buf. hal_partition_read h pid b 1 buf)
         (\<lambda>h b buf. hal_partition_write h pid b 1 buf) h ops
       = Ok (fst (disk_run (part_sect disk pid h) ops), h')
     \<and> part_ok drv disk pid h' \<and> part_sect disk pid h' = snd (disk_run (part_sect disk pid h) ops)"
  using assms by (rule part.run_refines_disk)

text \<open>A driver for a disk in memory shows that reliable drivers exist.\<close>

definition ram_driver :: "(u32 \<Rightarrow> u8 list) BlockDeviceDriver" where
  "ram_driver = \<lparr>block_read = \<lambda>d b n buf. (0, overlay 512 (take 512 (d b @ replicate 512 0)) buf, d),
     block_write = \<lambda>d b n buf. (0, d(b := take 512 buf))\<rparr>"

definition ram_sect :: "(u32 \<Rightarrow> u8 list) \<Rightarrow> u32 \<Rightarrow> u8 list" where
  "ram_sect d b = take 512 (d b @ replicate 512 0)"

lemma reliable_ram_driver: "reliable ram_driver ram_sect"
proof -
  have "ram_sect (d(b := take 512 buf)) = (ram_sect d)(b := take 512 buf)"
    if "512 \<le> length buf" for d b buf
    using that by (auto simp: ram_sect_def fun_eq_iff)
  moreover have "length (ram_sect d b) = 512" for d b by (simp add: ram_sect_def)
  moreover have "block_read ram_driver d b 1 buf = (0, overlay 512 (ram_sect d b) buf, d)"
    "block_write ram_driver d b 1 buf = (0, d(b := take 512 buf))" for d b buf
    by (simp_all add: ram_driver_def ram_sect_def)
  ultimately show ?thesis unfolding reliable_def by auto
qed

definition ram_hal :: "(u32 \<Rightarrow> u8 list) \<Rightarrow> (u32 \<Rightarrow> u8 list) hal" where
  "ram_hal d = \<lparr>hal_block_map =
       \<lparr>driver = Some ram_driver, drvpriv = d, cache = Some (replicate 512 \<lparr>lba = 0, cbuf = None\<rparr>), cache_next = 0\<rparr>
       # replicate 7 \<lparr>driver = None, drvpriv = \<lambda>_. [], cache = None, cache_next = 0\<rparr>,
     hal_partition_map = \<lparr>fs_type = HAL_PARTITION_TYPE_FAT32, dev = 0, pbegin = 63, psize = 1000\<rparr>
       # replicate 7 no_part,
     junk = replicate 4096 1\<rparr>"

lemma ram_hal_ok: "part_ok ram_driver ram_sect 0 (ram_hal d)"
  using reliable_ram_driver
  by (simp add: part_ok_def part_dev_def dev_ok_def ram_hal_def coherent_def)

theorem block_cache_transparent_witness:
  "\<exists>h'. sector_run (\<lambda>h b buf. hal_partition_read h 0 b 1 buf)
       (\<lambda>h b buf. hal_partition_write h 0 b 1 buf) (ram_hal (\<lambda>_. replicate 512 9))
       [Rd 5, Wr 5 (replicate 512 7), Rd 5]
     = Ok ([replicate 512 9, replicate 512 7], h')"
proof -
  have s: "part_sect ram_sect 0 (ram_hal (\<lambda>_. replicate 512 9)) 5 = replicate 512 9"
    by (simp add: part_sect_def part_dev_def ram_hal_def ram_sect_def)
  show ?thesis
    using block_cache_transparent [OF ram_hal_ok, of "[Rd 5, Wr 5 (replicate 512 7), Rd 5]" "\<lambda>_. replicate 512 9"]
    by (auto simp: s)
qed

text \<open>
  \<open>mbr_probe_partition\<close> enters into the partition table, after the partitions already there,
  exactly the entries of the boot sector whose type byte is not 0, in table order, with their
  file system class, first sector and length taken from the entry.
\<close>

theorem mbr_probe_exact:
  assumes "hal_disk_read h d 0 1 (junk h) = Ok (r, bs, h1)" and "0 \<le> r"
    and "hal_partition_map h1 = us @ replicate k no_part" and "used us" and "4 \<le> k"
    and "parts = concat (map (mbr_part d bs) [0, 1, 2, 3])"
  shows "mbr_probe_partition h d =
     Ok (h1\<lparr>hal_partition_map := us @ parts @ replicate (k - length parts) no_part\<rparr>)"
proof -
  have "mbr_probe_partition h d = foldl (\<lambda>r j. kbind r (\<lambda>h. mbr_entry h d bs j)) (Ok h1) [0, 1, 2, 3]"
    using assms(1,2) by (simp add: mbr_probe_partition_def kbind_assoc)
  with mbr_entries_packed [OF assms(3,4) _ this] show ?thesis using assms(5,6) by simp
qed

definition one_part_sector :: "u8 list" where
  "one_part_sector = (replicate 512 0)[0x1c2 := 0xc, 0x1c6 := 63, 0x1cb := 2]"

theorem mbr_probe_exact_witness:
  "mbr_probe_partition ((ram_hal (\<lambda>_. one_part_sector))\<lparr>hal_partition_map := replicate 8 no_part\<rparr>) 0 =
     Ok ((ram_hal (\<lambda>_. one_part_sector))\<lparr>hal_partition_map :=
       \<lparr>fs_type = HAL_PARTITION_TYPE_FAT32, dev = 0, pbegin = 63, psize = 512\<rparr> # replicate 7 no_part\<rparr>)"
proof -
  let ?h = "(ram_hal (\<lambda>_. one_part_sector))\<lparr>hal_partition_map := replicate 8 no_part\<rparr>"
  have l: "length one_part_sector = 512" by (simp add: one_part_sector_def)
  define bs where "bs = overlay 512 one_part_sector (replicate 4096 1)"
  have r: "hal_disk_read ?h 0 0 1 (junk ?h) = Ok (0, bs, ?h)"
    using l by (simp add: bs_def hal_disk_read_def HAL_BLOCK_MAX_def ram_hal_def ram_driver_def set_block_def)
  have n: "bs ! i = one_part_sector ! i" if "i < 512" for i
    using that l by (simp add: bs_def overlay_def nth_append)
  let ?ps = "[\<lparr>fs_type = HAL_PARTITION_TYPE_FAT32, dev = 0, pbegin = 63, psize = 512\<rparr>]"
  have "mbr_probe_partition ?h 0 =
      Ok (?h\<lparr>hal_partition_map := [] @ ?ps @ replicate (8 - length ?ps) no_part\<rparr>)"
    by (rule mbr_probe_exact [OF r])
      (simp_all add: mbr_part_def n le32_def one_part_sector_def mbr_fs_def)
  then show ?thesis by simp
qed


text \<open>A driver that records what it is asked to write.\<close>

definition rec_driver :: "u8 list list BlockDeviceDriver" where
  "rec_driver = \<lparr>block_read = \<lambda>d b n buf. (0, buf, d), block_write = \<lambda>d b n buf. (0, buf # d)\<rparr>"

definition rec_hal :: "u8 list list hal" where
  "rec_hal = \<lparr>hal_block_map = replicate 8 \<lparr>driver = Some rec_driver, drvpriv = [],
       cache = Some [\<lparr>lba = 5, cbuf = Some (replicate 4096 0)\<rparr>], cache_next = 0\<rparr>,
     hal_partition_map = replicate 8 no_part, junk = replicate 4096 1\<rparr>"


end
