(* ===== verification/Fat32.thy ===== *)
theory Fat32
  imports Hal_Block
begin

text \<open>
  FAT32 allocation table and file contents, \<^verbatim>\<open>kernel/filesystem/fat32/fat.c\<close> and
  \<^verbatim>\<open>kernel/filesystem/fat32/cluster.c\<close>, on the partitions of the block layer. Scratch pages from
  \<open>kalloc\<close> are byte lists that start out as \<open>junk\<close>; that they are freed again is left out.
  Loops that follow the allocation table need not end on a damaged table and are partial
  functions.
\<close>

section \<open>State\<close>

text \<open>The fields of the boot sector the driver uses.\<close>

record FAT32BootSector =
  sector_per_cluster :: u8
  reserved_sector :: u16
  fat_number :: u8
  fat_size :: u32
  root_cluster :: u32

record FAT32Private =
  partition_id :: u32
  boot_sector :: FAT32BootSector
  fmode :: u32
  uid :: u32
  gid :: u32

definition SECTORSIZE :: u32 where "SECTORSIZE = 512"

abbreviation spc :: "FAT32Private \<Rightarrow> u32" where
  "spc priv \<equiv> ucast (sector_per_cluster (boot_sector priv))"

abbreviation reserved :: "FAT32Private \<Rightarrow> u32" where
  "reserved priv \<equiv> ucast (reserved_sector (boot_sector priv))"

abbreviation pid :: "FAT32Private \<Rightarrow> int" where
  "pid priv \<equiv> sint (partition_id priv)"

abbreviation EOC :: u32 where "EOC \<equiv> 0x0ffffff8"

section \<open>The allocation table (fat.c)\<close>

definition fat32_fat_read :: "'d hal \<Rightarrow> FAT32Private \<Rightarrow> u32 \<Rightarrow> (u32 \<times> 'd hal) kres" where
  "fat32_fat_read h priv current =
     (let sect = reserved priv + current div 128
      in kbind (hal_partition_read h (pid priv) sect 1 (junk h)) (\<lambda>(r, buf, h).
           Ok (le32 buf (4 * unat (current mod 128)), h)))"

primrec fat32_offset_loop :: "'d hal \<Rightarrow> FAT32Private \<Rightarrow> u32 \<Rightarrow> nat \<Rightarrow> (u32 \<times> 'd hal) kres" where
  "fat32_offset_loop h priv cluster 0 = Ok (cluster, h)"
| "fat32_offset_loop h priv cluster (Suc n) =
     kbind (fat32_fat_read h priv cluster) (\<lambda>(cluster, h).
       if cluster \<ge> EOC then Ok (0, h) else fat32_offset_loop h priv cluster n)"

definition fat32_offset_cluster :: "'d hal \<Rightarrow> FAT32Private \<Rightarrow> u32 \<Rightarrow> u32 \<Rightarrow> (u32 \<times> 'd hal) kres" where
  "fat32_offset_cluster h priv cluster offset =
     (if spc priv = 0 then Fault
      else fat32_offset_loop h priv cluster (unat (offset div 512 div spc priv)))"

definition fat32_write_fat :: "'d hal \<Rightarrow> FAT32Private \<Rightarrow> u32 \<Rightarrow> u32 \<Rightarrow> (int \<times> 'd hal) kres" where
  "fat32_write_fat h priv cluster data =
     (let sect = reserved priv + cluster div 128
      in kbind (hal_partition_read h (pid priv) sect 1 (junk h)) (\<lambda>(r, buf, h).
         if r < 0 then Ok (ERROR_READ_FAIL, h)
         else let buf = put32 buf (4 * unat (cluster mod 128)) data
           in kbind (hal_partition_write h (pid priv) sect 1 buf) (\<lambda>(r, h).
              if r < 0 then Ok (ERROR_WRITE_FAIL, h)
              else kbind (hal_partition_write h (pid priv) (sect + fat_size (boot_sector priv)) 1 buf)
                (\<lambda>(r, h). if r < 0 then Ok (ERROR_WRITE_FAIL, h) else Ok (0, h)))))"

text \<open>The loop condition and the loop body of \<open>fat32_append_cluster\<close> each read the table.\<close>

partial_function (option) fat32_append_loop :: "'d hal \<Rightarrow> FAT32Private \<Rightarrow> u32 \<Rightarrow> (u32 \<times> 'd hal) kres option" where
  "fat32_append_loop h priv clus =
     (case fat32_fat_read h priv clus of
        Ok (v, h) \<Rightarrow>
          if v < EOC
          then (case fat32_fat_read h priv clus of
                  Ok (v, h) \<Rightarrow> fat32_append_loop h priv v
                | Panic s \<Rightarrow> Some (Panic s) | Diverge \<Rightarrow> Some Diverge | Fault \<Rightarrow> Some Fault)
          else Some (Ok (clus, h))
      | Panic s \<Rightarrow> Some (Panic s) | Diverge \<Rightarrow> Some Diverge | Fault \<Rightarrow> Some Fault)"

definition fat32_append_cluster :: "'d hal \<Rightarrow> FAT32Private \<Rightarrow> u32 \<Rightarrow> u32 \<Rightarrow> (int \<times> 'd hal) kres" where
  "fat32_append_cluster h priv begin_cluster end_cluster =
     kbind (of_kloop (fat32_append_loop h priv begin_cluster))
       (\<lambda>(clus, h). fat32_write_fat h priv clus end_cluster)"

partial_function (option) fat32_free_loop :: "'d hal \<Rightarrow> FAT32Private \<Rightarrow> u32 \<Rightarrow> (int \<times> 'd hal) kres option" where
  "fat32_free_loop h priv cluster =
     (case fat32_fat_read h priv cluster of
        Ok (clus, h) \<Rightarrow>
          (case fat32_write_fat h priv cluster 0 of
             Ok (r, h) \<Rightarrow>
               if r < 0 then Some (Ok (ERROR_WRITE_FAIL, h))
               else if clus < EOC then fat32_free_loop h priv clus
               else Some (Ok (0, h))
           | Panic s \<Rightarrow> Some (Panic s) | Diverge \<Rightarrow> Some Diverge | Fault \<Rightarrow> Some Fault)
      | Panic s \<Rightarrow> Some (Panic s) | Diverge \<Rightarrow> Some Diverge | Fault \<Rightarrow> Some Fault)"

definition fat32_free_chain :: "'d hal \<Rightarrow> FAT32Private \<Rightarrow> u32 \<Rightarrow> (int \<times> 'd hal) kres" where
  "fat32_free_chain h priv cluster = of_kloop (fat32_free_loop h priv cluster)"

section \<open>Clusters (cluster.c)\<close>

definition fat32_cluster_to_sector :: "FAT32Private \<Rightarrow> u32 \<Rightarrow> u32" where
  "fat32_cluster_to_sector priv cluster =
     (cluster - 2) * spc priv + reserved priv
       + ucast (fat_number (boot_sector priv)) * fat_size (boot_sector priv)"

text \<open>The number of bytes one round of the copying loops moves: up to the next multiple of \<open>unit\<close>.\<close>

definition copysize :: "u32 \<Rightarrow> u32 \<Rightarrow> u32 \<Rightarrow> u32 \<Rightarrow> u32" where
  "copysize unit begin off sz =
     (if (begin + off) div unit < (begin + sz) div unit
      then ((begin + off) div unit + 1) * unit - (begin + off)
      else sz - off)"

text \<open>
  \<open>fat32_read_cluster\<close>: the caller's buffer \<open>dest\<close> is filled from its start. A copy that would
  leave the scratch page is \<open>Fault\<close>.
\<close>

partial_function (option) fat32_read_cluster_loop :: "'d hal \<Rightarrow> FAT32Private \<Rightarrow> u8 list \<Rightarrow> u8 list \<Rightarrow> u32 \<Rightarrow> u32 \<Rightarrow> u32 \<Rightarrow> u32
    \<Rightarrow> (int \<times> u8 list \<times> 'd hal) kres option" where
  "fat32_read_cluster_loop h priv sect dest cluster begin sz off =
     (if off < sz
      then let n = copysize SECTORSIZE begin off sz;
               sector = fat32_cluster_to_sector priv cluster + (begin + off) div SECTORSIZE
        in (case hal_partition_read h (pid priv) sector 1 sect of
              Ok (r, sect, h) \<Rightarrow>
                if r < 0 then Some (Ok (ERROR_READ_FAIL, dest, h))
                else if length sect < unat ((begin + off) mod SECTORSIZE) + unat n then Some Fault
                else fat32_read_cluster_loop h priv sect
                       (blit dest (unat off) (take (unat n) (drop (unat ((begin + off) mod SECTORSIZE)) sect)))
                       cluster begin sz (off + n)
            | Panic s \<Rightarrow> Some (Panic s) | Diverge \<Rightarrow> Some Diverge | Fault \<Rightarrow> Some Fault)
      else Some (Ok (0, dest, h)))"

definition fat32_read_cluster :: "'d hal \<Rightarrow> FAT32Private \<Rightarrow> u8 list \<Rightarrow> u32 \<Rightarrow> u32 \<Rightarrow> u32
    \<Rightarrow> (int \<times> u8 list \<times> 'd hal) kres" where
  "fat32_read_cluster h priv dest cluster begin sz =
     of_kloop (fat32_read_cluster_loop h priv (junk h) dest cluster begin sz 0)"

partial_function (option) fat32_read_loop :: "'d hal \<Rightarrow> FAT32Private \<Rightarrow> u8 list \<Rightarrow> u32 \<Rightarrow> u32 \<Rightarrow> u32 \<Rightarrow> u32
    \<Rightarrow> (int \<times> u8 list \<times> 'd hal) kres option" where
  "fat32_read_loop h priv buf cluster offset sz off =
     (if off < sz
      then let clussize = spc priv * SECTORSIZE; n = copysize clussize offset off sz
        in (case fat32_offset_cluster h priv cluster (offset + off) of
              Ok (clus, h) \<Rightarrow>
                (case fat32_read_cluster h priv (drop (unat off) buf) clus ((offset + off) mod clussize) n of
                   Ok (r, part, h) \<Rightarrow>
                     if r < 0 then Some (Ok (ERROR_READ_FAIL, take (unat off) buf @ part, h))
                     else fat32_read_loop h priv (take (unat off) buf @ part) cluster offset sz (off + n)
                 | Panic s \<Rightarrow> Some (Panic s) | Diverge \<Rightarrow> Some Diverge | Fault \<Rightarrow> Some Fault)
            | Panic s \<Rightarrow> Some (Panic s) | Diverge \<Rightarrow> Some Diverge | Fault \<Rightarrow> Some Fault)
      else Some (Ok (sint sz, buf, h)))"

definition fat32_read :: "'d hal \<Rightarrow> FAT32Private \<Rightarrow> u32 \<Rightarrow> u8 list \<Rightarrow> u32 \<Rightarrow> u32
    \<Rightarrow> (int \<times> u8 list \<times> 'd hal) kres" where
  "fat32_read h priv cluster buf offset sz =
     of_kloop (fat32_read_loop h priv buf cluster offset sz 0)"

partial_function (option) fat32_write_cluster_loop :: "'d hal \<Rightarrow> FAT32Private \<Rightarrow> u8 list \<Rightarrow> u8 list \<Rightarrow> u32 \<Rightarrow> u32 \<Rightarrow> u32 \<Rightarrow> u32
    \<Rightarrow> (int \<times> 'd hal) kres option" where
  "fat32_write_cluster_loop h priv sect src cluster begin sz off =
     (if off < sz
      then let n = copysize SECTORSIZE begin off sz;
               sector = fat32_cluster_to_sector priv cluster + (begin + off) div SECTORSIZE
        in (case hal_partition_read h (pid priv) sector 1 sect of
              Ok (r, sect, h) \<Rightarrow>
                if r < 0 then Some (Ok (ERROR_READ_FAIL, h))
                else if length sect < unat ((begin + off) mod SECTORSIZE) + unat n then Some Fault
                else let sect = blit sect (unat ((begin + off) mod SECTORSIZE))
                                  (take (unat n) (drop (unat off) src))
                  in (case hal_partition_write h (pid priv) sector 1 sect of
                        Ok (r, h) \<Rightarrow>
                          if r < 0 then Some (Ok (ERROR_WRITE_FAIL, h))
                          else fat32_write_cluster_loop h priv sect src cluster begin sz (off + n)
                      | Panic s \<Rightarrow> Some (Panic s) | Diverge \<Rightarrow> Some Diverge | Fault \<Rightarrow> Some Fault)
            | Panic s \<Rightarrow> Some (Panic s) | Diverge \<Rightarrow> Some Diverge | Fault \<Rightarrow> Some Fault)
      else Some (Ok (0, h)))"

definition fat32_write_cluster :: "'d hal \<Rightarrow> FAT32Private \<Rightarrow> u8 list \<Rightarrow> u32 \<Rightarrow> u32 \<Rightarrow> u32
    \<Rightarrow> (int \<times> 'd hal) kres" where
  "fat32_write_cluster h priv src cluster begin sz =
     of_kloop (fat32_write_cluster_loop h priv (junk h) src cluster begin sz 0)"

text \<open>
  \<open>fat32_allocate_cluster\<close>: one table sector after the other is searched for a free entry. The
  error codes are returned through the unsigned result.
\<close>

primrec fat32_allocate_loop :: "'d hal \<Rightarrow> FAT32Private \<Rightarrow> u8 list \<Rightarrow> u32 \<Rightarrow> nat \<Rightarrow> (u32 \<times> 'd hal) kres" where
  "fat32_allocate_loop h priv buf fat 0 = Ok (0, h)"
| "fat32_allocate_loop h priv buf fat (Suc n) =
     (let sect = reserved priv + fat in
      kbind (hal_partition_read h (pid priv) sect 1 buf) (\<lambda>(r, buf, h).
        if r < 0 then Ok (of_int ERROR_READ_FAIL, h)
        else case find (\<lambda>i. le32 buf (4 * i) = 0) [0..<128] of
          None \<Rightarrow> fat32_allocate_loop h priv buf (fat + 1) n
        | Some i \<Rightarrow>
            let buf = put32 buf (4 * i) 0x0fffffff
            in kbind (hal_partition_write h (pid priv) sect 1 buf) (\<lambda>(r, h).
               if r < 0 then Ok (of_int ERROR_WRITE_FAIL, h)
               else kbind (hal_partition_write h (pid priv) (sect + fat_size (boot_sector priv)) 1 buf)
                 (\<lambda>(r, h). if r < 0 then Ok (of_int ERROR_WRITE_FAIL, h)
                            else Ok (fat * 128 + of_nat i, h)))))"

definition fat32_allocate_cluster :: "'d hal \<Rightarrow> FAT32Private \<Rightarrow> (u32 \<times> 'd hal) kres" where
  "fat32_allocate_cluster h priv =
     fat32_allocate_loop h priv (junk h) 0 (unat (fat_size (boot_sector priv)))"

text \<open>
  The end of the chain in \<open>fat32_write\<close>. The test \<^verbatim>\<open>(clus = fat32_allocate_cluster(priv)) < 0\<close>
  compares an unsigned number and never succeeds.
\<close>

definition fat32_write_extend :: "'d hal \<Rightarrow> FAT32Private \<Rightarrow> u32 \<Rightarrow> u32 \<Rightarrow> (int \<times> u32 \<times> 'd hal) kres" where
  "fat32_write_extend h priv cluster clus =
     (if clus = 0
      then kbind (fat32_allocate_cluster h priv) (\<lambda>(clus, h).
           if clus < 0 then Ok (ERROR_OUT_OF_SPACE, clus, h)
           else kbind (fat32_append_cluster h priv cluster clus) (\<lambda>(r, h).
             if r < 0 then Ok (ERROR_WRITE_FAIL, clus, h) else Ok (0, clus, h)))
      else Ok (0, clus, h))"

partial_function (option) fat32_write_loop :: "'d hal \<Rightarrow> FAT32Private \<Rightarrow> u8 list \<Rightarrow> u32 \<Rightarrow> u32 \<Rightarrow> u32 \<Rightarrow> u32
    \<Rightarrow> (int \<times> 'd hal) kres option" where
  "fat32_write_loop h priv buf cluster offset sz off =
     (if off < sz
      then let clussize = spc priv * SECTORSIZE; n = copysize clussize offset off sz
        in (case kbind (fat32_offset_cluster h priv cluster (offset + off))
                   (\<lambda>(clus, h). fat32_write_extend h priv cluster clus) of
              Ok (e, clus, h) \<Rightarrow>
                if e < 0 then Some (Ok (e, h))
                else (case fat32_write_cluster h priv (drop (unat off) buf) clus ((offset + off) mod clussize) n of
                   Ok (r, h) \<Rightarrow>
                     if r < 0 then Some (Ok (ERROR_WRITE_FAIL, h))
                     else fat32_write_loop h priv buf cluster offset sz (off + n)
                 | Panic s \<Rightarrow> Some (Panic s) | Diverge \<Rightarrow> Some Diverge | Fault \<Rightarrow> Some Fault)
            | Panic s \<Rightarrow> Some (Panic s) | Diverge \<Rightarrow> Some Diverge | Fault \<Rightarrow> Some Fault)
      else Some (Ok (sint sz, h)))"

definition fat32_write :: "'d hal \<Rightarrow> FAT32Private \<Rightarrow> u32 \<Rightarrow> u8 list \<Rightarrow> u32 \<Rightarrow> u32 \<Rightarrow> (int \<times> 'd hal) kres" where
  "fat32_write h priv cluster buf offset sz =
     of_kloop (fat32_write_loop h priv buf cluster offset sz 0)"

section \<open>The volume as a specification sees it\<close>

text \<open>
  \<open>vol_ok\<close>: the partition is readable. \<open>fat S priv c\<close> is entry \<open>c\<close> of the first table when
  the sectors are \<open>S\<close>.
\<close>

definition vol_ok :: "'d BlockDeviceDriver \<Rightarrow> ('d \<Rightarrow> u32 \<Rightarrow> u8 list) \<Rightarrow> FAT32Private \<Rightarrow> 'd hal \<Rightarrow> bool" where
  "vol_ok drv disk priv h \<longleftrightarrow> part_ok drv disk (pid priv) h"

abbreviation vsect :: "('d \<Rightarrow> u32 \<Rightarrow> u8 list) \<Rightarrow> FAT32Private \<Rightarrow> 'd hal \<Rightarrow> u32 \<Rightarrow> u8 list" where
  "vsect disk priv h \<equiv> part_sect disk (pid priv) h"

definition fat :: "(u32 \<Rightarrow> u8 list) \<Rightarrow> FAT32Private \<Rightarrow> u32 \<Rightarrow> u32" where
  "fat S priv c = le32 (S (reserved priv + c div 128)) (4 * unat (c mod 128))"

text \<open>The chain of clusters that starts at \<open>c\<close>.\<close>

fun chain :: "(u32 \<Rightarrow> u32) \<Rightarrow> u32 \<Rightarrow> u32 list \<Rightarrow> bool" where
  "chain f c [] \<longleftrightarrow> False"
| "chain f c [x] \<longleftrightarrow> x = c \<and> EOC \<le> f c"
| "chain f c (x # y # ys) \<longleftrightarrow> x = c \<and> f c = y \<and> y < EOC \<and> chain f y (y # ys)"

lemma vol_junk: "vol_ok drv disk priv h \<Longrightarrow> 512 \<le> length (junk h)"
  by (simp add: vol_ok_def part_ok_def dev_ok_def)

lemma mod128_lt: "unat ((c :: u32) mod 128) < 128"
  using word_mod_less_divisor [of 128 c] by (simp add: word_less_nat_alt)

lemma vol_read:
  assumes "vol_ok drv disk priv h" and "512 \<le> length buf"
  obtains h' where "hal_partition_read h (pid priv) b 1 buf = Ok (0, overlay 512 (vsect disk priv h b) buf, h')"
    and "vol_ok drv disk priv h'" and "vsect disk priv h' = vsect disk priv h"
  using part.rd_sect [of drv disk "pid priv" h buf b] assms unfolding vol_ok_def by blast

lemma vol_write:
  assumes "vol_ok drv disk priv h" and "512 \<le> length buf"
  obtains h' where "hal_partition_write h (pid priv) b 1 buf = Ok (0, h')"
    and "vol_ok drv disk priv h'" and "vsect disk priv h' = (vsect disk priv h)(b := take 512 buf)"
  using part.wr_sect [of drv disk "pid priv" h buf b] assms unfolding vol_ok_def by blast

lemma vsect_length: "vol_ok drv disk priv h \<Longrightarrow> length (vsect disk priv h b) = 512"
  using part.sect_length unfolding vol_ok_def by blast

lemma fat32_fat_read_ok:
  assumes "vol_ok drv disk priv h"
  obtains h' where "fat32_fat_read h priv c = Ok (fat (vsect disk priv h) priv c, h')"
    and "vol_ok drv disk priv h'" and "vsect disk priv h' = vsect disk priv h"
proof (rule vol_read [OF assms vol_junk [OF assms], of "reserved priv + c div 128"])
  fix h'
  assume "hal_partition_read h (pid priv) (reserved priv + c div 128) 1 (junk h) =
      Ok (0, overlay 512 (vsect disk priv h (reserved priv + c div 128)) (junk h), h')"
    and "vol_ok drv disk priv h'" and "vsect disk priv h' = vsect disk priv h"
  then show thesis
    using that [of h'] vsect_length [OF assms] mod128_lt [of c]
    by (simp add: fat32_fat_read_def fat_def Let_def)
qed

lemma chain_head: "chain f c cs \<Longrightarrow> \<exists>ys. cs = c # ys"
  by (cases cs rule: remdups_adj.cases) auto

lemma fat32_offset_loop_ok:
  assumes "vol_ok drv disk priv h" and "chain (fat (vsect disk priv h) priv) c cs"
  shows "\<exists>h'. fat32_offset_loop h priv c n = Ok (if n < length cs then cs ! n else 0, h')
     \<and> vol_ok drv disk priv h' \<and> vsect disk priv h' = vsect disk priv h"
  using assms
proof (induction n arbitrary: h c cs)
  case 0
  then show ?case using chain_head [OF 0(2)] by auto
next
  case (Suc n)
  obtain h1 where h1: "fat32_fat_read h priv c = Ok (fat (vsect disk priv h) priv c, h1)"
    "vol_ok drv disk priv h1" "vsect disk priv h1 = vsect disk priv h"
    by (rule fat32_fat_read_ok [OF Suc.prems(1)])
  show ?case
  proof (cases cs rule: remdups_adj.cases)
    case 1
    with Suc.prems(2) show ?thesis by simp
  next
    case (2 x)
    with Suc.prems(2) h1 show ?thesis by auto
  next
    case (3 x y ys)
    then have y: "fat (vsect disk priv h) priv c = y" "y < EOC"
      "chain (fat (vsect disk priv h1) priv) y (y # ys)" using Suc.prems(2) h1(3) by auto
    have "\<exists>h'. fat32_offset_loop h1 priv y n = Ok (if n < length (y # ys) then (y # ys) ! n else 0, h')
        \<and> vol_ok drv disk priv h' \<and> vsect disk priv h' = vsect disk priv h1"
      by (rule Suc.IH [OF h1(2) y(3)])
    with h1 y 3 show ?thesis by auto
  qed
qed

section \<open>Copying in pieces\<close>

text \<open>
  One round moves a piece that ends at a multiple of \<open>unit\<close> or at the end, is not empty, and
  stays within one unit.
\<close>

lemma copysize_ok:
  assumes u: "0 < unit" and o: "off < sz" and w: "unat begin + unat sz < 2 ^ 32"
  defines "n \<equiv> unat (copysize unit begin off sz)"
  shows "0 < n" and "unat off + n \<le> unat sz"
    and "(unat begin + unat off) mod unat unit + n \<le> unat unit"
proof -
  let ?b = "unat begin" and ?o = "unat off" and ?z = "unat sz" and ?u = "unat unit"
  have u0: "0 < ?u" using u by (simp add: unat_gt_0 word_gt_0)
  have oz: "?o < ?z" using o by (simp add: word_less_nat_alt)
  have bo: "unat (begin + off) = ?b + ?o" by (rule unat_add_lt_u32) (use oz w in simp)
  have bz: "unat (begin + sz) = ?b + ?z" by (rule unat_add_lt_u32) (use w in simp)
  have q: "(?b + ?o) div ?u * ?u + (?b + ?o) mod ?u = ?b + ?o" by simp
  have m: "(?b + ?o) mod ?u < ?u" using u0 by simp
  have "0 < n \<and> ?o + n \<le> ?z \<and> (?b + ?o) mod ?u + n \<le> ?u"
  proof (cases "(?b + ?o) div ?u < (?b + ?z) div ?u")
    case True
    have le: "((?b + ?o) div ?u + 1) * ?u \<le> ?b + ?z"
    proof -
      have "((?b + ?o) div ?u + 1) * ?u \<le> (?b + ?z) div ?u * ?u"
        using True by (intro mult_le_mono1) simp
      also have "\<dots> \<le> ?b + ?z" by simp
      finally show ?thesis .
    qed
    have un: "unat (((begin + off) div unit + 1) * unit) = ((?b + ?o) div ?u + 1) * ?u"
    proof -
      have "(?b + ?o) div ?u + 1 < 2 ^ 32"
      proof -
        have "((?b + ?o) div ?u + 1) * 1 \<le> ((?b + ?o) div ?u + 1) * ?u"
          by (rule mult_le_mono2) (use u0 in simp)
        from order_trans [OF this le] w show ?thesis by (simp only: mult_1_right le_less_trans)
      qed
      then have "unat ((begin + off) div unit + 1) = (?b + ?o) div ?u + 1"
        by (subst unat_add_lt_u32) (simp_all add: unat_div bo)
      then show ?thesis using le w by (simp add: unat_word_ariths)
    qed
    have "(begin + off) div unit < (begin + sz) div unit"
      using True by (simp add: word_less_nat_alt unat_div bo bz)
    then have n: "n = unat (((begin + off) div unit + 1) * unit - (begin + off))"
      by (simp add: n_def copysize_def)
    have e: "((?b + ?o) div ?u + 1) * ?u = (?b + ?o) div ?u * ?u + ?u" by simp
    have "?b + ?o \<le> ((?b + ?o) div ?u + 1) * ?u" unfolding e using q m by linarith
    then have "n = ((?b + ?o) div ?u + 1) * ?u - (?b + ?o)"
      unfolding n by (subst unat_sub_le_u32) (simp_all only: un bo)
    moreover note e
    ultimately show ?thesis using q m le by linarith
  next
    case False
    then have "\<not> (begin + off) div unit < (begin + sz) div unit"
      by (simp add: word_less_nat_alt unat_div bo bz)
    then have n: "n = ?z - ?o" using oz by (simp add: n_def copysize_def unat_sub_le_u32)
    have "(?b + ?o) div ?u = (?b + ?z) div ?u"
    proof -
      have "(?b + ?o) div ?u \<le> (?b + ?z) div ?u" using oz by (intro div_le_mono) simp
      then show ?thesis using False by linarith
    qed
    then have "(?b + ?o) div ?u * ?u + (?b + ?z) mod ?u = ?b + ?z" by (metis div_mult_mod_eq)
    moreover have "(?b + ?z) mod ?u < ?u" using u0 by simp
    ultimately show ?thesis using n oz q by linarith
  qed
  then show "0 < n" "?o + n \<le> ?z" "(?b + ?o) mod ?u + n \<le> ?u" by simp_all
qed

section \<open>Reading\<close>

text \<open>The \<open>n\<close> bytes from byte \<open>b\<close> on of the area that starts at sector \<open>base\<close>.\<close>

definition area_bytes :: "(u32 \<Rightarrow> u8 list) \<Rightarrow> u32 \<Rightarrow> nat \<Rightarrow> nat \<Rightarrow> u8 list" where
  "area_bytes S base b n = map (\<lambda>i. S (base + of_nat ((b + i) div 512)) ! ((b + i) mod 512)) [0..<n]"

lemma length_area_bytes [simp]: "length (area_bytes S base b n) = n"
  by (simp add: area_bytes_def)

lemma map_upt_add: "map f [0..<m + n] = map f [0..<m] @ map (\<lambda>i. f (m + i)) [0..<n]"
  by (rule nth_equalityI) (auto simp: nth_append)

lemma area_bytes_append: "area_bytes S base b (m + n) = area_bytes S base b m @ area_bytes S base (b + m) n"
  unfolding area_bytes_def by (subst map_upt_add) (simp add: add.assoc)

lemma div_mod_within:
  assumes "(k :: nat) mod u + i < u"
  shows "(k + i) div u = k div u" and "(k + i) mod u = k mod u + i"
proof -
  have eq: "k + i = u * (k div u) + (k mod u + i)" using div_mult_mod_eq [of k u] by (simp add: mult.commute)
  have r: "(u * q + r) div u = q" "(u * q + r) mod u = r" if "r < u" for q r
    using that by simp_all
  from r [OF assms, of "k div u"] show "(k + i) div u = k div u" "(k + i) mod u = k mod u + i"
    unfolding eq [symmetric] .
qed

lemma area_bytes_sector:
  assumes "length (S (base + of_nat (b div 512))) = 512" and "b mod 512 + n \<le> 512"
  shows "area_bytes S base b n = take n (drop (b mod 512) (S (base + of_nat (b div 512))))"
proof (rule nth_equalityI)
  show "length (area_bytes S base b n) = length (take n (drop (b mod 512) (S (base + of_nat (b div 512)))))"
    using assms by simp
  fix i
  assume "i < length (area_bytes S base b n)"
  then have "i < n" "b mod 512 + i < 512" using assms(2) by simp_all
  then show "area_bytes S base b n ! i = take n (drop (b mod 512) (S (base + of_nat (b div 512)))) ! i"
    using assms div_mod_within [of b 512 i] by (simp add: area_bytes_def)
qed

lemma sector_index:
  assumes "unat begin + unat off < 2 ^ 32"
  shows "(begin + off) div SECTORSIZE = of_nat ((unat begin + unat off) div 512)"
    and "unat ((begin + off) mod SECTORSIZE) = (unat begin + unat off) mod 512"
proof -
  have u: "unat (begin + off) = unat begin + unat off" by (rule unat_add_lt_u32) (use assms in simp)
  have "of_nat (unat ((begin + off) div SECTORSIZE)) = (of_nat ((unat begin + unat off) div 512) :: u32)"
    by (simp add: unat_div SECTORSIZE_def u)
  then show "(begin + off) div SECTORSIZE = of_nat ((unat begin + unat off) div 512)" by simp
  show "unat ((begin + off) mod SECTORSIZE) = (unat begin + unat off) mod 512"
    by (simp add: unat_mod SECTORSIZE_def u)
qed

lemma SECTORSIZE_pos [simp]: "0 < SECTORSIZE" "unat SECTORSIZE = 512"
  by (simp_all add: SECTORSIZE_def)

lemma fat32_read_cluster_loop_ok:
  assumes "vol_ok drv disk priv h" and "512 \<le> length sect" and "unat begin + unat sz < 2 ^ 32"
    and "unat off \<le> unat sz" and "unat sz \<le> length dest"
    and "base = fat32_cluster_to_sector priv cluster"
  shows "\<exists>h'. fat32_read_cluster_loop h priv sect dest cluster begin sz off =
      Some (Ok (0, blit dest (unat off)
        (area_bytes (vsect disk priv h) base (unat begin + unat off) (unat sz - unat off)), h'))
     \<and> vol_ok drv disk priv h' \<and> vsect disk priv h' = vsect disk priv h"
  using assms
proof (induction "unat sz - unat off" arbitrary: h sect dest off rule: less_induct)
  case less
  let ?S = "vsect disk priv h" and ?k = "unat begin + unat off"
  show ?case
  proof (cases "off < sz")
    case False
    with less.prems(4) have "unat off = unat sz" by (simp add: word_less_nat_alt)
    with False less.prems show ?thesis
      by (simp add: fat32_read_cluster_loop.simps [of h] area_bytes_def blit_def)
  next
    case True
    define n where "n = copysize SECTORSIZE begin off sz"
    note cs = copysize_ok [OF SECTORSIZE_pos(1) True less.prems(3), folded n_def]
    have k: "?k < 2 ^ 32" using True less.prems(3) by (simp add: word_less_nat_alt)
    note si = sector_index [OF k]
    have off': "unat (off + n) = unat off + unat n"
      by (rule unat_add_lt_u32) (use cs(2) less.prems(3) in simp)
    let ?sector = "base + of_nat (?k div 512)"
    obtain h1 where h1: "hal_partition_read h (pid priv) ?sector 1 sect = Ok (0, overlay 512 (?S ?sector) sect, h1)"
      "vol_ok drv disk priv h1" "vsect disk priv h1 = ?S"
      by (rule vol_read [OF less.prems(1,2)])
    have sl: "length (?S ?sector) = 512" by (rule vsect_length [OF less.prems(1)])
    let ?sect = "overlay 512 (?S ?sector) sect"
    have piece: "take (unat n) (drop (?k mod 512) ?sect) = area_bytes ?S base ?k (unat n)"
      using cs(3) sl by (subst area_bytes_sector) (simp_all add: overlay_def)
    let ?dest = "blit dest (unat off) (area_bytes ?S base ?k (unat n))"
    have "\<exists>h'. fat32_read_cluster_loop h1 priv ?sect ?dest cluster begin sz (off + n) =
        Some (Ok (0, blit ?dest (unat (off + n)) (area_bytes (vsect disk priv h1) base
          (unat begin + unat (off + n)) (unat sz - unat (off + n))), h'))
        \<and> vol_ok drv disk priv h' \<and> vsect disk priv h' = vsect disk priv h1"
      by (rule less.hyps) (use cs off' less.prems h1 sl in auto)
    moreover have "fat32_read_cluster_loop h priv sect dest cluster begin sz off =
        fat32_read_cluster_loop h1 priv ?sect ?dest cluster begin sz (off + n)"
      using True h1 si cs(3) less.prems(2,6) sl piece
      by (simp add: fat32_read_cluster_loop.simps [of h] Let_def flip: n_def)
    moreover have "blit ?dest (unat (off + n)) (area_bytes ?S base (unat begin + unat (off + n)) (unat sz - unat (off + n)))
        = blit dest (unat off) (area_bytes ?S base ?k (unat sz - unat off))"
    proof -
      have "unat sz - unat off = unat n + (unat sz - unat (off + n))" using cs(2) off' by simp
      then have "area_bytes ?S base ?k (unat sz - unat off) =
          area_bytes ?S base ?k (unat n) @ area_bytes ?S base (?k + unat n) (unat sz - unat (off + n))"
        by (simp add: area_bytes_append)
      then show ?thesis
        using blit_blit_adjacent [of "unat off" "area_bytes ?S base ?k (unat n)"
            "area_bytes ?S base (?k + unat n) (unat sz - unat (off + n))" dest]
          off' cs(2) less.prems(5) by (simp add: add.assoc)
    qed
    ultimately show ?thesis using h1(3) by simp
  qed
qed

lemma fat32_read_cluster_ok:
  assumes "vol_ok drv disk priv h" and "unat begin + unat sz < 2 ^ 32" and "unat sz \<le> length dest"
  obtains h' where "fat32_read_cluster h priv dest cluster begin sz =
      Ok (0, blit dest 0 (area_bytes (vsect disk priv h) (fat32_cluster_to_sector priv cluster)
        (unat begin) (unat sz)), h')"
    and "vol_ok drv disk priv h'" and "vsect disk priv h' = vsect disk priv h"
  using fat32_read_cluster_loop_ok [OF assms(1) vol_junk [OF assms(1)] assms(2) _ assms(3) refl, of 0 cluster]
  by (auto simp: fat32_read_cluster_def)

text \<open>Bytes of a cluster, and the bytes of the file whose clusters are \<open>cs\<close>.\<close>

abbreviation clus_bytes :: "FAT32Private \<Rightarrow> nat" where
  "clus_bytes priv \<equiv> unat (spc priv) * 512"

definition file_bytes :: "(u32 \<Rightarrow> u8 list) \<Rightarrow> FAT32Private \<Rightarrow> u32 list \<Rightarrow> nat \<Rightarrow> nat \<Rightarrow> u8 list" where
  "file_bytes S priv cs b n = map (\<lambda>i.
     S (fat32_cluster_to_sector priv (cs ! ((b + i) div clus_bytes priv))
        + of_nat ((b + i) mod clus_bytes priv div 512)) ! ((b + i) mod clus_bytes priv mod 512)) [0..<n]"

lemma length_file_bytes [simp]: "length (file_bytes S priv cs b n) = n"
  by (simp add: file_bytes_def)

lemma file_bytes_append:
  "file_bytes S priv cs b (m + n) = file_bytes S priv cs b m @ file_bytes S priv cs (b + m) n"
  unfolding file_bytes_def by (subst map_upt_add) (simp add: add.assoc)

lemma file_bytes_cluster:
  assumes "k mod clus_bytes priv + n \<le> clus_bytes priv"
  shows "area_bytes S (fat32_cluster_to_sector priv (cs ! (k div clus_bytes priv))) (k mod clus_bytes priv) n
    = file_bytes S priv cs k n"
proof (rule nth_equalityI)
  fix i
  assume "i < length (area_bytes S (fat32_cluster_to_sector priv (cs ! (k div clus_bytes priv))) (k mod clus_bytes priv) n)"
  then have "i < n" "k mod clus_bytes priv + i < clus_bytes priv" using assms by simp_all
  then show "area_bytes S (fat32_cluster_to_sector priv (cs ! (k div clus_bytes priv))) (k mod clus_bytes priv) n ! i
      = file_bytes S priv cs k n ! i"
    using div_mod_within [of k "clus_bytes priv" i] by (simp add: area_bytes_def file_bytes_def)
qed simp

lemma spc_le: "unat (spc priv) \<le> 255"
proof -
  have "unat (sector_per_cluster (boot_sector priv)) < 256"
    using unsigned_less [of "sector_per_cluster (boot_sector priv)", where ?'a = nat] by simp
  then show ?thesis by (simp add: unsigned_ucast_eq take_bit_nat_eq_self)
qed

lemma clussize_unat: "unat (spc priv * SECTORSIZE) = clus_bytes priv"
  using spc_le [of priv] by (simp add: SECTORSIZE_def unat_word_ariths)

lemma clussize_pos: "0 < spc priv \<Longrightarrow> 0 < spc priv * SECTORSIZE"
  using clussize_unat [of priv] by (metis mult_pos_pos unat_gt_0 word_gt_0 zero_less_numeral)

lemma fat32_offset_cluster_ok:
  assumes "vol_ok drv disk priv h" and "chain (fat (vsect disk priv h) priv) c cs" and "0 < spc priv"
  obtains h' where "fat32_offset_cluster h priv c offset =
      Ok (if unat offset div clus_bytes priv < length cs then cs ! (unat offset div clus_bytes priv) else 0, h')"
    and "vol_ok drv disk priv h'" and "vsect disk priv h' = vsect disk priv h"
proof -
  have "unat (offset div 512 div spc priv) = unat offset div clus_bytes priv"
    by (simp add: unat_div mult.commute flip: div_mult2_eq)
  moreover have "spc priv \<noteq> 0" using assms(3) by auto
  ultimately have "fat32_offset_cluster h priv c offset =
      fat32_offset_loop h priv c (unat offset div clus_bytes priv)"
    by (simp add: fat32_offset_cluster_def)
  then show thesis
    using fat32_offset_loop_ok [OF assms(1,2), of "unat offset div clus_bytes priv"] that by auto
qed

lemma clus_index:
  assumes "unat offset + unat off < 2 ^ 32"
  shows "unat (offset + off) = unat offset + unat off"
    and "unat ((offset + off) mod (spc priv * SECTORSIZE)) = (unat offset + unat off) mod clus_bytes priv"
proof -
  show u: "unat (offset + off) = unat offset + unat off" by (rule unat_add_lt_u32) (use assms in simp)
  show "unat ((offset + off) mod (spc priv * SECTORSIZE)) = (unat offset + unat off) mod clus_bytes priv"
    by (simp only: unat_mod clussize_unat u)
qed

lemma fat32_read_loop_ok:
  assumes "vol_ok drv disk priv h" and "chain (fat (vsect disk priv h) priv) c cs" and "0 < spc priv"
    and "unat offset + unat sz < 2 ^ 32" and "unat offset + unat sz \<le> length cs * clus_bytes priv"
    and "unat off \<le> unat sz" and "unat sz \<le> length buf"
  shows "\<exists>h'. fat32_read_loop h priv buf c offset sz off =
      Some (Ok (sint sz, blit buf (unat off)
        (file_bytes (vsect disk priv h) priv cs (unat offset + unat off) (unat sz - unat off)), h'))
     \<and> vol_ok drv disk priv h' \<and> vsect disk priv h' = vsect disk priv h"
  using assms
proof (induction "unat sz - unat off" arbitrary: h buf off rule: less_induct)
  case less
  let ?S = "vsect disk priv h" and ?k = "unat offset + unat off" and ?C = "clus_bytes priv"
  show ?case
  proof (cases "off < sz")
    case False
    with less.prems(6) have "unat off = unat sz" by (simp add: word_less_nat_alt)
    with False less.prems show ?thesis
      by (simp add: fat32_read_loop.simps [of h] file_bytes_def blit_def)
  next
    case True
    define n where "n = copysize (spc priv * SECTORSIZE) offset off sz"
    note cp = copysize_ok [OF clussize_pos [OF less.prems(3)] True less.prems(4), folded n_def,
        unfolded clussize_unat]
    have oz: "unat off < unat sz" using True by (simp add: word_less_nat_alt)
    have k: "?k < 2 ^ 32" using oz less.prems(4) by simp
    note ci = clus_index(1) [OF k] clus_index(2) [OF k, of priv]
    have off': "unat (off + n) = unat off + unat n"
      by (rule unat_add_lt_u32) (use cp(2) less.prems(4) in simp)
    have idx: "?k div ?C < length cs"
      using oz less.prems(5) by (simp add: less_mult_imp_div_less)
    let ?clus = "cs ! (?k div ?C)"
    obtain h1 where h1: "fat32_offset_cluster h priv c (offset + off) = Ok (?clus, h1)"
      "vol_ok drv disk priv h1" "vsect disk priv h1 = ?S"
      by (rule fat32_offset_cluster_ok [OF less.prems(1,2,3), of "offset + off"]) (use ci idx in simp)
    have w: "unat ((offset + off) mod (spc priv * SECTORSIZE)) + unat n < 2 ^ 32"
    proof -
      have "?C \<le> 130560" using spc_le [of priv] by simp
      then show ?thesis using cp(3) ci(2) by simp
    qed
    let ?piece = "file_bytes ?S priv cs ?k (unat n)"
    obtain h2 where h2: "fat32_read_cluster h1 priv (drop (unat off) buf) ?clus
        ((offset + off) mod (spc priv * SECTORSIZE)) n = Ok (0, blit (drop (unat off) buf) 0 ?piece, h2)"
      "vol_ok drv disk priv h2" "vsect disk priv h2 = ?S"
      by (rule fat32_read_cluster_ok [OF h1(2) w, of "drop (unat off) buf" ?clus])
        (use cp less.prems(7) h1(3) ci(2) file_bytes_cluster [OF cp(3), of ?S cs] in simp_all)
    let ?buf = "blit buf (unat off) ?piece"
    have bl: "unat off + length ?piece \<le> length buf" using cp(2) less.prems(7) by simp
    have "\<exists>h'. fat32_read_loop h2 priv ?buf c offset sz (off + n) =
        Some (Ok (sint sz, blit ?buf (unat (off + n)) (file_bytes (vsect disk priv h2) priv cs
          (unat offset + unat (off + n)) (unat sz - unat (off + n))), h'))
        \<and> vol_ok drv disk priv h' \<and> vsect disk priv h' = vsect disk priv h2"
      by (rule less.hyps) (use cp off' less.prems h1 h2 bl in auto)
    moreover have "fat32_read_loop h priv buf c offset sz off = fat32_read_loop h2 priv ?buf c offset sz (off + n)"
      using True h1(1) h2(1) blit_drop [of "unat off" buf ?piece] bl
      by (simp add: fat32_read_loop.simps [of h] Let_def flip: n_def)
    moreover have "blit ?buf (unat (off + n)) (file_bytes ?S priv cs (unat offset + unat (off + n)) (unat sz - unat (off + n)))
        = blit buf (unat off) (file_bytes ?S priv cs ?k (unat sz - unat off))"
    proof -
      have "unat sz - unat off = unat n + (unat sz - unat (off + n))" using cp(2) off' by simp
      then have "file_bytes ?S priv cs ?k (unat sz - unat off) =
          ?piece @ file_bytes ?S priv cs (?k + unat n) (unat sz - unat (off + n))"
        by (simp add: file_bytes_append)
      then show ?thesis
        using blit_blit_adjacent [of "unat off" ?piece
            "file_bytes ?S priv cs (?k + unat n) (unat sz - unat (off + n))" buf]
          off' cp(2) less.prems(7) by (simp add: add.assoc)
    qed
    ultimately show ?thesis using h2(3) by simp
  qed
qed

end
