(* ===== verification/Fat32_Content.thy ===== *)
theory Fat32_Content
  imports Fat32
begin

text \<open>
  What the FAT32 operations of \<^verbatim>\<open>fat.c\<close> and \<^verbatim>\<open>cluster.c\<close> do to a volume: the contents of
  clusters and of files, the layout that keeps the allocation table and the data apart, and the
  effect of writing, allocating, linking and freeing clusters.
\<close>

section \<open>Writing an area\<close>

definition area_write :: "(u32 \<Rightarrow> u8 list) \<Rightarrow> u32 \<Rightarrow> nat \<Rightarrow> u8 list \<Rightarrow> u32 \<Rightarrow> u8 list" where
  "area_write S base b data s = map (\<lambda>j.
     if b \<le> 512 * unat (s - base) + j \<and> 512 * unat (s - base) + j < b + length data
     then data ! (512 * unat (s - base) + j - b) else S s ! j) [0..<512]"

lemma length_area_write [simp]: "length (area_write S base b data s) = 512"
  by (simp add: area_write_def)

lemma area_write_Nil: "(\<And>s. length (S s) = 512) \<Longrightarrow> area_write S base b [] = S"
  by (rule ext, rule nth_equalityI) (auto simp: area_write_def)

lemma area_write_append:
  "area_write (area_write S base b xs) base (b + length xs) ys = area_write S base b (xs @ ys)"
  by (auto simp: area_write_def fun_eq_iff nth_append)

lemma area_write_sector:
  assumes "\<And>s. length (S s) = 512" and "b mod 512 + length data \<le> 512" and "b < 2 ^ 32"
    and "s0 = base + of_nat (b div 512)"
  shows "S(s0 := blit (S s0) (b mod 512) data) = area_write S base b data"
proof (rule ext, rule nth_equalityI)
  fix s
  show "length ((S(s0 := blit (S s0) (b mod 512) data)) s) = length (area_write S base b data s)"
    using assms(1,2) by simp
  fix j
  assume "j < length ((S(s0 := blit (S s0) (b mod 512) data)) s)"
  then have j: "j < 512" using assms(1,2) by (auto split: if_splits)
  have b: "b = 512 * (b div 512) + b mod 512" by simp
  show "(S(s0 := blit (S s0) (b mod 512) data)) s ! j = area_write S base b data s ! j"
  proof (cases "s = s0")
    case True
    have "unat (s - base) = b div 512"
      using True assms(3,4) by (simp add: less_mult_imp_div_less)
    then have "512 * unat (s - base) + j - b = j - b mod 512"
      "b \<le> 512 * unat (s - base) + j \<longleftrightarrow> b mod 512 \<le> j"
      "512 * unat (s - base) + j < b + length data \<longleftrightarrow> j < b mod 512 + length data"
      using b by linarith+
    then show ?thesis
      using True j assms(1,2) by (simp add: area_write_def nth_blit)
  next
    case False
    have "unat (s - base) \<noteq> b div 512"
    proof
      assume "unat (s - base) = b div 512"
      then have "of_nat (unat (s - base)) = (of_nat (b div 512) :: u32)" by simp
      then have "s - base = of_nat (b div 512)" by simp
      then show False using False assms(4) by (simp add: algebra_simps)
    qed
    then have "\<not> (b \<le> 512 * unat (s - base) + j \<and> 512 * unat (s - base) + j < b + length data)"
      using b j assms(2) by linarith
    then show ?thesis using False j by (auto simp: area_write_def)
  qed
qed

lemma take_blit_overlay:
  assumes "length X = 512" and "m + length d \<le> 512"
  shows "take 512 (blit (overlay 512 X sect) m d) = blit X m d"
proof -
  have "blit (overlay 512 X sect) m d = blit X m d @ drop 512 sect"
    using assms by (simp add: blit_def overlay_def)
  moreover have "length (blit X m d) = 512" using assms by simp
  ultimately show ?thesis by simp
qed

lemma take_drop_split:
  "o1 + n \<le> z \<Longrightarrow> take (z - o1) (drop o1 xs) = take n (drop o1 xs) @ take (z - (o1 + n)) (drop (o1 + n) xs)"
  using take_add [of n "z - (o1 + n)" "drop o1 xs"] by (simp add: add.commute)

lemma fat32_write_cluster_loop_ok:
  assumes "vol_ok drv disk priv h" and "512 \<le> length sect" and "unat begin + unat sz < 2 ^ 32"
    and "unat off \<le> unat sz" and "unat sz \<le> length src"
    and "base = fat32_cluster_to_sector priv cluster"
  shows "\<exists>h'. fat32_write_cluster_loop h priv sect src cluster begin sz off = Some (Ok (0, h'))
     \<and> vol_ok drv disk priv h' \<and> vsect disk priv h' = area_write (vsect disk priv h) base
         (unat begin + unat off) (take (unat sz - unat off) (drop (unat off) src))"
  using assms
proof (induction "unat sz - unat off" arbitrary: h sect off rule: less_induct)
  case less
  let ?S = "vsect disk priv h" and ?k = "unat begin + unat off"
  note sl = vsect_length [OF less.prems(1)]
  show ?case
  proof (cases "off < sz")
    case False
    with less.prems(4) have "unat off = unat sz" by (simp add: word_less_nat_alt)
    with False less.prems sl show ?thesis
      by (simp add: fat32_write_cluster_loop.simps [of h] area_write_Nil)
  next
    case True
    define n where "n = copysize SECTORSIZE begin off sz"
    note cs = copysize_ok [OF SECTORSIZE_pos(1) True less.prems(3), folded n_def]
    have k: "?k < 2 ^ 32" using True less.prems(3) by (simp add: word_less_nat_alt)
    note si = sector_index [OF k]
    have off': "unat (off + n) = unat off + unat n"
      by (rule unat_add_lt_u32) (use cs(2) less.prems(3) in simp)
    let ?sector = "base + of_nat (?k div 512)"
    let ?sect = "overlay 512 (?S ?sector) sect"
    let ?d = "take (unat n) (drop (unat off) src)"
    let ?sect' = "blit ?sect (?k mod 512) ?d"
    have dl: "length ?d = unat n" using cs(2) less.prems(5) by simp
    obtain h1 where h1: "hal_partition_read h (pid priv) ?sector 1 sect = Ok (0, ?sect, h1)"
      "vol_ok drv disk priv h1" "vsect disk priv h1 = ?S"
      by (rule vol_read [OF less.prems(1,2)])
    have "length ?sect = length sect" using sl less.prems(2) by simp
    then have l': "512 \<le> length ?sect'" "length ?sect' = length sect"
      using cs(3) less.prems(2) dl by simp_all
    obtain h2 where h2: "hal_partition_write h1 (pid priv) ?sector 1 ?sect' = Ok (0, h2)"
      "vol_ok drv disk priv h2" "vsect disk priv h2 = ?S(?sector := take 512 ?sect')"
      using vol_write [OF h1(2) l'(1)] h1(3) by metis
    have S2: "vsect disk priv h2 = area_write ?S base ?k ?d"
      using h2(3) area_write_sector [of ?S ?k ?d ?sector base] sl cs(3) dl k
      by (simp add: take_blit_overlay)
    have "\<exists>h'. fat32_write_cluster_loop h2 priv ?sect' src cluster begin sz (off + n) = Some (Ok (0, h'))
        \<and> vol_ok drv disk priv h' \<and> vsect disk priv h' = area_write (vsect disk priv h2) base
          (unat begin + unat (off + n)) (take (unat sz - unat (off + n)) (drop (unat (off + n)) src))"
      by (rule less.hyps) (use cs off' less.prems h2 l' in auto)
    moreover have "fat32_write_cluster_loop h priv sect src cluster begin sz off =
        fat32_write_cluster_loop h2 priv ?sect' src cluster begin sz (off + n)"
      using True h1(1) h2(1) si cs(3) less.prems(2,6) sl
      by (simp add: fat32_write_cluster_loop.simps [of h] Let_def flip: n_def)
    moreover have "area_write (area_write ?S base ?k ?d) base (unat begin + unat (off + n))
          (take (unat sz - unat (off + n)) (drop (unat (off + n)) src))
        = area_write ?S base ?k (take (unat sz - unat off) (drop (unat off) src))"
    proof -
      have "take (unat sz - unat off) (drop (unat off) src) =
          ?d @ take (unat sz - unat (off + n)) (drop (unat (off + n)) src)"
        using cs(2) off' by (simp add: take_drop_split)
      then show ?thesis
        using area_write_append [of ?S base ?k ?d] dl off' by (simp add: add.assoc)
    qed
    ultimately show ?thesis using S2 by simp
  qed
qed

lemma fat32_write_cluster_ok:
  assumes "vol_ok drv disk priv h" and "unat begin + unat sz < 2 ^ 32" and "unat sz \<le> length src"
  obtains h' where "fat32_write_cluster h priv src cluster begin sz = Ok (0, h')"
    and "vol_ok drv disk priv h'"
    and "vsect disk priv h' = area_write (vsect disk priv h) (fat32_cluster_to_sector priv cluster)
      (unat begin) (take (unat sz) src)"
  using fat32_write_cluster_loop_ok [OF assms(1) vol_junk [OF assms(1)] assms(2) _ assms(3) refl, of 0 cluster]
  by (auto simp: fat32_write_cluster_def)

section \<open>Layout\<close>

text \<open>
  A cluster number is valid when it has an entry in the allocation table and its sectors lie
  behind the tables without wrapping around.
\<close>

definition data_start :: "FAT32Private \<Rightarrow> nat" where
  "data_start priv = unat (reserved priv)
     + unat (fat_number (boot_sector priv)) * unat (fat_size (boot_sector priv))"

definition valid_cluster :: "FAT32Private \<Rightarrow> u32 \<Rightarrow> bool" where
  "valid_cluster priv c \<longleftrightarrow> 2 \<le> unat c \<and> unat c < 128 * unat (fat_size (boot_sector priv)) \<and> c < EOC
     \<and> data_start priv + (unat c - 1) * unat (spc priv) \<le> 2 ^ 32"

definition layout_ok :: "FAT32Private \<Rightarrow> bool" where
  "layout_ok priv \<longleftrightarrow> 0 < spc priv \<and> 2 \<le> unat (fat_number (boot_sector priv)) \<and> data_start priv < 2 ^ 32
     \<and> 128 * unat (fat_size (boot_sector priv)) \<le> 2 ^ 32"

lemma fat_size_bound:
  assumes "layout_ok priv"
  shows "unat (reserved priv) + 2 * unat (fat_size (boot_sector priv)) \<le> data_start priv"
proof -
  have "2 * unat (fat_size (boot_sector priv)) \<le>
      unat (fat_number (boot_sector priv)) * unat (fat_size (boot_sector priv))"
    using assms by (intro mult_le_mono1) (simp add: layout_ok_def)
  then show ?thesis by (simp add: data_start_def)
qed

lemma unat_cluster_to_sector:
  assumes "layout_ok priv" and "valid_cluster priv c"
  shows "unat (fat32_cluster_to_sector priv c) = data_start priv + (unat c - 2) * unat (spc priv)"
    and "unat (fat32_cluster_to_sector priv c) + unat (spc priv) \<le> 2 ^ 32"
proof -
  let ?f = "fat_number (boot_sector priv)" and ?z = "fat_size (boot_sector priv)"
  have c: "2 \<le> unat c" "data_start priv + (unat c - 1) * unat (spc priv) \<le> 2 ^ 32"
    using assms(2) by (simp_all add: valid_cluster_def)
  have s: "0 < unat (spc priv)" using assms(1) by (simp add: layout_ok_def unat_gt_0 word_gt_0)
  have "unat c - 1 = Suc (unat c - 2)" using c(1) by simp
  then have sum: "data_start priv + (unat c - 2) * unat (spc priv) + unat (spc priv) \<le> 2 ^ 32"
    using c(2) by (simp add: add.commute add.left_commute)
  have c2: "unat (c - 2) = unat c - 2" using c(1) by (simp add: unat_sub_le_u32)
  have fz: "unat (ucast ?f * ?z) = unat ?f * unat ?z"
    using assms(1) by (simp add: layout_ok_def data_start_def unat_word_ariths unat_ucast_u8_u32)
  have m: "unat ((c - 2) * spc priv) = (unat c - 2) * unat (spc priv)"
    using sum s by (simp add: unat_word_ariths c2)
  have "unat ((c - 2) * spc priv + reserved priv) = (unat c - 2) * unat (spc priv) + unat (reserved priv)"
    using sum s by (subst unat_add_lt_u32) (simp_all add: m data_start_def)
  then have "unat (fat32_cluster_to_sector priv c) =
      (unat c - 2) * unat (spc priv) + unat (reserved priv) + unat ?f * unat ?z"
    unfolding fat32_cluster_to_sector_def
    by (subst unat_add_lt_u32) (use sum s in \<open>simp_all add: fz data_start_def\<close>)
  then show "unat (fat32_cluster_to_sector priv c) = data_start priv + (unat c - 2) * unat (spc priv)"
    by (simp add: data_start_def)
  with sum show "unat (fat32_cluster_to_sector priv c) + unat (spc priv) \<le> 2 ^ 32" by simp
qed

text \<open>The sectors of a cluster: those of another cluster and those of the table lie elsewhere.\<close>

definition in_cluster :: "FAT32Private \<Rightarrow> u32 \<Rightarrow> u32 \<Rightarrow> bool" where
  "in_cluster priv c s \<longleftrightarrow> unat (s - fat32_cluster_to_sector priv c) < unat (spc priv)"

lemma in_cluster_iff:
  assumes "layout_ok priv" and "valid_cluster priv c"
  shows "in_cluster priv c s \<longleftrightarrow> unat (fat32_cluster_to_sector priv c) \<le> unat s
     \<and> unat s < unat (fat32_cluster_to_sector priv c) + unat (spc priv)"
proof -
  note b = unat_cluster_to_sector(2) [OF assms]
  have "unat s < 4294967296" by (rule unat_u32_lt)
  then show ?thesis
    using b offset_cases_u32 [of s "fat32_cluster_to_sector priv c"] by (auto simp: in_cluster_def)
qed

lemma in_cluster_unique:
  assumes "layout_ok priv" and "valid_cluster priv c" and "valid_cluster priv d"
    and "in_cluster priv c s" and "in_cluster priv d s"
  shows "c = d"
proof -
  let ?p = "unat (spc priv)"
  have cd: "2 \<le> unat c" "2 \<le> unat d" using assms(2,3) by (simp_all add: valid_cluster_def)
  have "(unat c - 2) * ?p \<le> unat s - data_start priv" "unat s - data_start priv < (unat c - 2) * ?p + ?p"
    "(unat d - 2) * ?p \<le> unat s - data_start priv" "unat s - data_start priv < (unat d - 2) * ?p + ?p"
    using assms in_cluster_iff unat_cluster_to_sector(1) by auto
  then have "(unat s - data_start priv) div ?p = unat c - 2" "(unat s - data_start priv) div ?p = unat d - 2"
    by (auto intro!: div_nat_eqI simp: mult.commute)
  then have "unat c = unat d" using cd by linarith
  then show ?thesis by (simp add: word_unat_eq_iff)
qed

lemma fat_sector:
  assumes "layout_ok priv" and "unat e < 128 * unat (fat_size (boot_sector priv))"
  shows "unat (reserved priv + e div 128) = unat (reserved priv) + unat e div 128"
    and "unat e div 128 < unat (fat_size (boot_sector priv))"
    and "unat (reserved priv + e div 128 + fat_size (boot_sector priv)) =
      unat (reserved priv) + unat e div 128 + unat (fat_size (boot_sector priv))"
    and "valid_cluster priv c \<Longrightarrow> \<not> in_cluster priv c (reserved priv + e div 128)"
    and "valid_cluster priv c \<Longrightarrow> \<not> in_cluster priv c (reserved priv + e div 128 + fat_size (boot_sector priv))"
proof -
  let ?z = "unat (fat_size (boot_sector priv))"
  show e: "unat e div 128 < ?z" using assms(2) by (simp add: less_mult_imp_div_less mult.commute)
  note fb = fat_size_bound [OF assms(1)]
  have ds: "data_start priv < 2 ^ 32" using assms(1) by (simp add: layout_ok_def)
  show u: "unat (reserved priv + e div 128) = unat (reserved priv) + unat e div 128"
    by (subst unat_add_lt_u32) (use e fb ds in \<open>simp_all add: unat_div\<close>)
  show v: "unat (reserved priv + e div 128 + fat_size (boot_sector priv)) = unat (reserved priv) + unat e div 128 + ?z"
    by (subst unat_add_lt_u32) (use e u fb ds in simp_all)
  assume c: "valid_cluster priv c"
  note ge = unat_cluster_to_sector(1) [OF assms(1) c]
  show "\<not> in_cluster priv c (reserved priv + e div 128)"
    "\<not> in_cluster priv c (reserved priv + e div 128 + fat_size (boot_sector priv))"
    unfolding in_cluster_iff [OF assms(1) c] u v ge using e fb by linarith+
qed

section \<open>Contents\<close>

definition cluster_content :: "(u32 \<Rightarrow> u8 list) \<Rightarrow> FAT32Private \<Rightarrow> u32 \<Rightarrow> u8 list" where
  "cluster_content S priv c = area_bytes S (fat32_cluster_to_sector priv c) 0 (clus_bytes priv)"

definition file_content :: "(u32 \<Rightarrow> u8 list) \<Rightarrow> FAT32Private \<Rightarrow> u32 list \<Rightarrow> u8 list" where
  "file_content S priv cs = concat (map (cluster_content S priv) cs)"

lemma length_cluster_content [simp]: "length (cluster_content S priv c) = clus_bytes priv"
  by (simp add: cluster_content_def)

lemma length_file_content [simp]: "length (file_content S priv cs) = length cs * clus_bytes priv"
  unfolding file_content_def by (subst length_concat_pieces) auto

lemma file_bytes_content:
  assumes "b + n \<le> length cs * clus_bytes priv"
  shows "file_bytes S priv cs b n = take n (drop b (file_content S priv cs))"
proof (rule nth_equalityI)
  show "length (file_bytes S priv cs b n) = length (take n (drop b (file_content S priv cs)))"
    using assms by simp
  fix i
  assume "i < length (file_bytes S priv cs b n)"
  then have k: "b + i < length cs * clus_bytes priv" and i: "i < n" using assms by simp_all
  then have c: "0 < clus_bytes priv" by (cases "clus_bytes priv") auto
  then have m: "(b + i) mod clus_bytes priv < clus_bytes priv" by simp
  have "file_content S priv cs ! (b + i) =
      cluster_content S priv (cs ! ((b + i) div clus_bytes priv)) ! ((b + i) mod clus_bytes priv)"
    unfolding file_content_def
    using k by (subst nth_concat_pieces [where n = "clus_bytes priv"]) (auto simp: less_mult_imp_div_less)
  then show "file_bytes S priv cs b n ! i = take n (drop b (file_content S priv cs)) ! i"
    using i k m by (simp add: file_bytes_def cluster_content_def area_bytes_def)
qed

lemma area_write_outside:
  assumes "\<not> in_cluster priv c s" and "b + length data \<le> clus_bytes priv" and "length (S s) = 512"
  shows "area_write S (fat32_cluster_to_sector priv c) b data s = S s"
proof (rule nth_equalityI)
  fix j
  assume "j < length (area_write S (fat32_cluster_to_sector priv c) b data s)"
  moreover have "\<not> 512 * unat (s - fat32_cluster_to_sector priv c) + j < b + length data"
    using assms(1,2) by (simp add: in_cluster_def)
  ultimately show "area_write S (fat32_cluster_to_sector priv c) b data s ! j = S s ! j"
    by (simp add: area_write_def)
qed (use assms in simp)

lemma cluster_sector:
  assumes "i < clus_bytes priv"
  shows "in_cluster priv c (fat32_cluster_to_sector priv c + of_nat (i div 512))"
    and "unat (of_nat (i div 512) :: u32) = i div 512"
proof -
  have "i div 512 < unat (spc priv)" using assms by (simp add: less_mult_imp_div_less)
  moreover from this have "i div 512 < 2 ^ 32" using spc_le [of priv] by simp
  ultimately show "in_cluster priv c (fat32_cluster_to_sector priv c + of_nat (i div 512))"
    "unat (of_nat (i div 512) :: u32) = i div 512"
    by (simp_all add: in_cluster_def)
qed

lemma cluster_content_write_same:
  assumes "b + length data \<le> clus_bytes priv"
  shows "cluster_content (area_write S (fat32_cluster_to_sector priv c) b data) priv c =
     blit (cluster_content S priv c) b data"
proof (rule nth_equalityI)
  fix i
  assume "i < length (cluster_content (area_write S (fat32_cluster_to_sector priv c) b data) priv c)"
  then have i: "i < clus_bytes priv" by simp
  have d: "512 * (i div 512) + i mod 512 = i" by simp
  show "cluster_content (area_write S (fat32_cluster_to_sector priv c) b data) priv c ! i =
      blit (cluster_content S priv c) b data ! i"
    using i assms cluster_sector(2) [OF i]
    by (simp add: cluster_content_def area_bytes_def area_write_def nth_blit d)
qed (use assms in simp)

lemma cluster_content_cong:
  assumes "\<And>s. in_cluster priv c s \<Longrightarrow> S' s = S s"
  shows "cluster_content S' priv c = cluster_content S priv c"
  by (rule nth_equalityI)
    (use assms cluster_sector(1) in \<open>auto simp: cluster_content_def area_bytes_def\<close>)

lemma fat_cong:
  assumes "S' (reserved priv + e div 128) = S (reserved priv + e div 128)"
  shows "fat S' priv e = fat S priv e"
  using assms by (simp add: fat_def)

text \<open>
  One \<open>fat32_write_cluster\<close> inside a valid cluster: that cluster changes as asked, other
  clusters and the table do not.
\<close>

lemma write_cluster_effect:
  assumes "layout_ok priv" and "valid_cluster priv c" and "b + length data \<le> clus_bytes priv"
    and "\<And>s. length (S s) = 512" and "S' = area_write S (fat32_cluster_to_sector priv c) b data"
  shows "cluster_content S' priv c = blit (cluster_content S priv c) b data"
    and "valid_cluster priv d \<Longrightarrow> d \<noteq> c \<Longrightarrow> cluster_content S' priv d = cluster_content S priv d"
    and "unat e < 128 * unat (fat_size (boot_sector priv)) \<Longrightarrow> fat S' priv e = fat S priv e"
proof -
  show "cluster_content S' priv c = blit (cluster_content S priv c) b data"
    using cluster_content_write_same [OF assms(3)] assms(5) by simp
  show "cluster_content S' priv d = cluster_content S priv d" if "valid_cluster priv d" "d \<noteq> c"
    by (rule cluster_content_cong)
      (use area_write_outside assms in_cluster_unique [OF assms(1,2) that(1)] that(2) in metis)
  show "fat S' priv e = fat S priv e" if "unat e < 128 * unat (fat_size (boot_sector priv))"
    by (rule fat_cong) (use area_write_outside [OF fat_sector(4) [OF assms(1) that assms(2)] assms(3)] assms in simp)
qed

section \<open>Writing a file\<close>

lemma chain_cong:
  "(\<And>x. x \<in> set cs \<Longrightarrow> f x = g x) \<Longrightarrow> chain f c cs = chain g c cs"
  by (induction f c cs rule: chain.induct) auto

lemma file_content_write:
  assumes "distinct cs" and "i < length cs" and "r + length d \<le> clus_bytes priv"
    and "cluster_content S' priv (cs ! i) = blit (cluster_content S priv (cs ! i)) r d"
    and "\<And>x. x \<in> set cs \<Longrightarrow> x \<noteq> cs ! i \<Longrightarrow> cluster_content S' priv x = cluster_content S priv x"
  shows "file_content S' priv cs = blit (file_content S priv cs) (i * clus_bytes priv + r) d"
proof -
  have "map (cluster_content S' priv) cs =
      (map (cluster_content S priv) cs)[i := blit (map (cluster_content S priv) cs ! i) r d]"
    by (rule nth_equalityI) (use assms in \<open>auto simp: nth_list_update nth_eq_iff_index_eq\<close>)
  then show ?thesis
    unfolding file_content_def using assms(2,3)
    by (simp only:) (subst concat_blit [where n = "clus_bytes priv"], auto)
qed

lemma valid_fat_range: "valid_cluster priv c \<Longrightarrow> unat c < 128 * unat (fat_size (boot_sector priv))"
  by (simp add: valid_cluster_def)

section \<open>Changing the allocation table\<close>

abbreviation fat_range :: "FAT32Private \<Rightarrow> nat" where
  "fat_range priv \<equiv> 128 * unat (fat_size (boot_sector priv))"

text \<open>The second copy of the table agrees with the first.\<close>

definition mirrored :: "(u32 \<Rightarrow> u8 list) \<Rightarrow> FAT32Private \<Rightarrow> bool" where
  "mirrored S priv \<longleftrightarrow> (\<forall>e. unat e < fat_range priv \<longrightarrow>
     S (reserved priv + e div 128 + fat_size (boot_sector priv)) = S (reserved priv + e div 128))"

text \<open>Entry \<open>e\<close> of the table becomes \<open>v\<close>, in both copies, and no cluster changes.\<close>

definition fat_updated :: "FAT32Private \<Rightarrow> u32 \<Rightarrow> u32 \<Rightarrow> (u32 \<Rightarrow> u8 list) \<Rightarrow> (u32 \<Rightarrow> u8 list) \<Rightarrow> bool" where
  "fat_updated priv e v S S' \<longleftrightarrow>
     (\<forall>x. unat x < fat_range priv \<longrightarrow> fat S' priv x = (if x = e then v else fat S priv x))
   \<and> (mirrored S priv \<longrightarrow> mirrored S' priv)
   \<and> (\<forall>d. valid_cluster priv d \<longrightarrow> cluster_content S' priv d = cluster_content S priv d)"

lemma fat_sector_eq:
  fixes x e :: u32
  assumes "layout_ok priv" and "unat x < fat_range priv" and "unat e < fat_range priv"
  shows "reserved priv + x div 128 = reserved priv + e div 128 \<longleftrightarrow> unat x div 128 = unat e div 128"
    and "reserved priv + x div 128 \<noteq> reserved priv + e div 128 + fat_size (boot_sector priv)"
    and "reserved priv + x div 128 + fat_size (boot_sector priv) =
        reserved priv + e div 128 + fat_size (boot_sector priv) \<longleftrightarrow> unat x div 128 = unat e div 128"
  using fat_sector(1,2,3) [OF assms(1,2)] fat_sector(1,2,3) [OF assms(1,3)]
  by (simp_all only: word_unat_eq_iff) linarith+

lemma fat_update_sectors:
  assumes "layout_ok priv" and "unat e < fat_range priv" and "\<And>s. length (S s) = 512"
    and "X = put32 (S (reserved priv + e div 128)) (4 * unat (e mod 128)) v"
    and "S' = (S(reserved priv + e div 128 := X))(reserved priv + e div 128 + fat_size (boot_sector priv) := X)"
  shows "fat_updated priv e v S S'"
  unfolding fat_updated_def
proof (intro conjI allI impI)
  fix x :: u32
  assume x: "unat x < fat_range priv"
  note eq = fat_sector_eq [OF assms(1) x assms(2)]
  show "fat S' priv x = (if x = e then v else fat S priv x)"
  proof (cases "unat x div 128 = unat e div 128")
    case True
    have S: "S' (reserved priv + x div 128) = X" using eq True assms(5) by simp
    have m: "unat (x mod 128) = unat x mod 128" "unat (e mod 128) = unat e mod 128"
      by (simp_all add: unat_mod)
    show ?thesis
    proof (cases "x = e")
      case True
      then show ?thesis using S assms(3,4) mod128_lt [of e] by (simp add: fat_def)
    next
      case False
      have "unat x mod 128 \<noteq> unat e mod 128"
      proof
        assume "unat x mod 128 = unat e mod 128"
        with True have "unat x = unat e" by (metis div_mult_mod_eq)
        with False show False by (simp add: word_unat_eq_iff)
      qed
      then have "4 * unat (e mod 128) + 4 \<le> 4 * unat (x mod 128) \<or> 4 * unat (x mod 128) + 4 \<le> 4 * unat (e mod 128)"
        using m by linarith
      then show ?thesis using S False assms(4) eq True by (simp add: fat_def)
    qed
  next
    case False
    then have "x \<noteq> e" by auto
    then show ?thesis using eq False assms(5) by (simp add: fat_def)
  qed
next
  assume m: "mirrored S priv"
  show "mirrored S' priv"
    unfolding mirrored_def
  proof (intro allI impI)
    fix x :: u32
    assume x: "unat x < fat_range priv"
    note eq = fat_sector_eq [OF assms(1) x assms(2)] fat_sector_eq(2) [OF assms(1,2) x]
    show "S' (reserved priv + x div 128 + fat_size (boot_sector priv)) = S' (reserved priv + x div 128)"
      using eq m x assms(5) by (auto simp: mirrored_def)
  qed
next
  fix d
  assume d: "valid_cluster priv d"
  show "cluster_content S' priv d = cluster_content S priv d"
    by (rule cluster_content_cong) (use fat_sector(4,5) [OF assms(1,2) d] assms(5) in auto)
qed

lemma fat32_write_fat_ok:
  assumes "vol_ok drv disk priv h" and "layout_ok priv" and "unat e < fat_range priv"
  obtains h' where "fat32_write_fat h priv e v = Ok (0, h')" and "vol_ok drv disk priv h'"
    and "fat_updated priv e v (vsect disk priv h) (vsect disk priv h')"
proof -
  let ?S = "vsect disk priv h" and ?s = "reserved priv + e div 128"
  let ?X = "put32 (?S ?s) (4 * unat (e mod 128)) v"
  note sl = vsect_length [OF assms(1)]
  obtain h1 where h1: "hal_partition_read h (pid priv) ?s 1 (junk h) = Ok (0, overlay 512 (?S ?s) (junk h), h1)"
    "vol_ok drv disk priv h1" "vsect disk priv h1 = ?S"
    by (rule vol_read [OF assms(1) vol_junk [OF assms(1)]])
  let ?buf = "put32 (overlay 512 (?S ?s) (junk h)) (4 * unat (e mod 128)) v"
  have bl: "512 \<le> length ?buf" using vol_junk [OF assms(1)] sl by simp
  have tb: "take 512 ?buf = ?X" using mod128_lt [of e] sl by (simp add: overlay_def)
  obtain h2 where h2: "hal_partition_write h1 (pid priv) ?s 1 ?buf = Ok (0, h2)"
    "vol_ok drv disk priv h2" "vsect disk priv h2 = ?S(?s := ?X)"
    using vol_write [OF h1(2) bl] h1(3) tb by metis
  obtain h3 where h3: "hal_partition_write h2 (pid priv) (?s + fat_size (boot_sector priv)) 1 ?buf = Ok (0, h3)"
    "vol_ok drv disk priv h3" "vsect disk priv h3 = (?S(?s := ?X))(?s + fat_size (boot_sector priv) := ?X)"
    using vol_write [OF h2(2) bl] h2(3) tb by metis
  show thesis
  proof (rule that)
    show "fat32_write_fat h priv e v = Ok (0, h3)"
      using h1(1) h2(1) h3(1) by (simp add: fat32_write_fat_def Let_def)
    show "vol_ok drv disk priv h3" by (rule h3(2))
    show "fat_updated priv e v ?S (vsect disk priv h3)"
      by (rule fat_update_sectors [OF assms(2,3) sl refl h3(3)])
  qed
qed

end
