(* ===== verification/Fat32_Alloc.thy ===== *)
theory Fat32_Alloc
  imports Fat32_Content
begin

text \<open>
  Allocating, linking and freeing clusters, and the correctness of \<open>fat32_read\<close> and
  \<open>fat32_write\<close> on whole files: a file is the concatenation of the clusters of its chain.
\<close>

section \<open>Finding a free entry\<close>

lemma find_append_case:
  "find P (xs @ ys) = (case find P xs of None \<Rightarrow> find P ys | Some x \<Rightarrow> Some x)"
  by (induction xs) auto

lemma find_map_comp: "find P (map f xs) = map_option f (find (\<lambda>x. P (f x)) xs)"
  by (induction xs) auto

lemma find_cong_set: "(\<And>x. x \<in> set xs \<Longrightarrow> P x = Q x) \<Longrightarrow> find P xs = find Q xs"
  by (induction xs) auto

text \<open>The first free entry from sector \<open>j\<close> of the table on.\<close>

definition first_free :: "(u32 \<Rightarrow> u8 list) \<Rightarrow> FAT32Private \<Rightarrow> nat \<Rightarrow> nat option" where
  "first_free S priv j = find (\<lambda>k. fat S priv (of_nat k) = 0) [128 * j..<fat_range priv]"

lemma fat_index:
  assumes "layout_ok priv" and "j < unat (fat_size (boot_sector priv))" and "i < 128" and "k = 128 * j + i"
  shows "unat (of_nat k :: u32) = k"
    and "(of_nat k :: u32) div 128 = of_nat j"
    and "unat ((of_nat k :: u32) mod 128) = i"
proof -
  have b: "k < 2 ^ 32" using assms by (simp add: layout_ok_def)
  then show u: "unat (of_nat k :: u32) = k" by (simp add: unat_of_nat_u32)
  show "unat ((of_nat k :: u32) mod 128) = i" using u assms(3,4) by (simp add: unat_mod)
  have "unat ((of_nat k :: u32) div 128) = unat (of_nat j :: u32)"
    using u b assms(3,4) by (simp add: unat_div unat_of_nat_u32)
  then show "(of_nat k :: u32) div 128 = of_nat j" by (simp only: word_unat_eq_iff)
qed

lemma first_free_step:
  assumes "layout_ok priv" and "j < unat (fat_size (boot_sector priv))"
  shows "first_free S priv j =
     (case find (\<lambda>i. le32 (S (reserved priv + of_nat j)) (4 * i) = 0) [0..<128] of
        None \<Rightarrow> first_free S priv (Suc j) | Some i \<Rightarrow> Some (128 * j + i))"
proof -
  have "[128 * j..<fat_range priv] = map (\<lambda>i. 128 * j + i) [0..<128] @ [128 * Suc j..<fat_range priv]"
    using assms(2) by (intro nth_equalityI) (auto simp: nth_append)
  moreover have "find (\<lambda>i. fat S priv (of_nat (128 * j + i)) = 0) [0..<128] =
      find (\<lambda>i. le32 (S (reserved priv + of_nat j)) (4 * i) = 0) [0..<128]"
    by (rule find_cong_set) (use fat_index(2,3) [OF assms _ refl] in \<open>auto simp only: fat_def set_upt atLeastLessThan_iff\<close>)
  ultimately show ?thesis
    by (simp add: first_free_def find_append_case find_map_comp split: option.split)
qed

lemma fat32_allocate_loop_ok:
  assumes "vol_ok drv disk priv h" and "layout_ok priv" and "512 \<le> length buf"
    and "j + n = unat (fat_size (boot_sector priv))"
  shows "\<exists>h'. fat32_allocate_loop h priv buf (of_nat j) n =
        Ok (case first_free (vsect disk priv h) priv j of None \<Rightarrow> 0 | Some k \<Rightarrow> of_nat k, h')
     \<and> vol_ok drv disk priv h'
     \<and> (case first_free (vsect disk priv h) priv j of
          None \<Rightarrow> vsect disk priv h' = vsect disk priv h
        | Some k \<Rightarrow> fat_updated priv (of_nat k) 0x0fffffff (vsect disk priv h) (vsect disk priv h'))"
  using assms
proof (induction n arbitrary: h buf j)
  case 0
  then show ?case by (simp add: first_free_def)
next
  case (Suc n)
  let ?S = "vsect disk priv h" and ?s = "reserved priv + of_nat j"
  note sl = vsect_length [OF Suc.prems(1)]
  obtain h1 where h1: "hal_partition_read h (pid priv) ?s 1 buf = Ok (0, overlay 512 (?S ?s) buf, h1)"
    "vol_ok drv disk priv h1" "vsect disk priv h1 = ?S"
    by (rule vol_read [OF Suc.prems(1,3)])
  have j: "j < unat (fat_size (boot_sector priv))" using Suc.prems(4) by simp
  let ?F = "find (\<lambda>i. le32 (?S ?s) (4 * i) = 0) [0..<128]"
  have F: "find (\<lambda>i. le32 (overlay 512 (?S ?s) buf) (4 * i) = 0) [0..<128] = ?F"
    by (rule find_cong_set) (use sl in auto)
  have bl: "512 \<le> length (overlay 512 (?S ?s) buf)" using Suc.prems(3) sl by simp
  show ?case
  proof (cases ?F)
    case None
    obtain h2 where "fat32_allocate_loop h1 priv (overlay 512 (?S ?s) buf) (of_nat (Suc j)) n =
        Ok (case first_free ?S priv (Suc j) of None \<Rightarrow> 0 | Some k \<Rightarrow> of_nat k, h2)"
      "vol_ok drv disk priv h2" "case first_free ?S priv (Suc j) of
          None \<Rightarrow> vsect disk priv h2 = ?S
        | Some k \<Rightarrow> fat_updated priv (of_nat k) 0x0fffffff ?S (vsect disk priv h2)"
      using Suc.IH [OF h1(2) Suc.prems(2) bl, of "Suc j", unfolded h1(3)] Suc.prems(4) by auto
    then show ?thesis
      using None h1(1) F by (simp add: first_free_step [OF Suc.prems(2) j] add.commute)
  next
    case (Some i)
    then have i: "i < 128" by (auto simp: find_Some_iff)
    let ?buf = "put32 (overlay 512 (?S ?s) buf) (4 * i) 0x0fffffff"
    let ?X = "put32 (?S ?s) (4 * i) 0x0fffffff"
    have tb: "take 512 ?buf = ?X" and bl2: "512 \<le> length ?buf"
      using i sl Suc.prems(3) by (simp_all add: overlay_def)
    obtain h2 where h2: "hal_partition_write h1 (pid priv) ?s 1 ?buf = Ok (0, h2)"
      "vol_ok drv disk priv h2" "vsect disk priv h2 = ?S(?s := ?X)"
      using vol_write [OF h1(2) bl2] h1(3) tb by metis
    obtain h3 where h3: "hal_partition_write h2 (pid priv) (?s + fat_size (boot_sector priv)) 1 ?buf = Ok (0, h3)"
      "vol_ok drv disk priv h3" "vsect disk priv h3 = (?S(?s := ?X))(?s + fat_size (boot_sector priv) := ?X)"
      using vol_write [OF h2(2) bl2] h2(3) tb by metis
    define k where "k = 128 * j + i"
    note ix = fat_index [OF Suc.prems(2) j i k_def]
    have "fat_updated priv (of_nat k) 0x0fffffff ?S (vsect disk priv h3)"
      by (rule fat_update_sectors [OF Suc.prems(2) _ sl refl]) (use ix i j h3(3) k_def in simp_all)
    then show ?thesis
      using Some h1(1) h2(1) h3(1,2) F
      by (simp add: first_free_step [OF Suc.prems(2) j] Let_def mult.commute k_def)
  qed
qed

lemma fat32_allocate_cluster_ok:
  assumes "vol_ok drv disk priv h" and "layout_ok priv"
  obtains h' where "fat32_allocate_cluster h priv =
        Ok (case first_free (vsect disk priv h) priv 0 of None \<Rightarrow> 0 | Some k \<Rightarrow> of_nat k, h')"
    and "vol_ok drv disk priv h'"
    and "case first_free (vsect disk priv h) priv 0 of
          None \<Rightarrow> vsect disk priv h' = vsect disk priv h
        | Some k \<Rightarrow> fat_updated priv (of_nat k) 0x0fffffff (vsect disk priv h) (vsect disk priv h')"
  using fat32_allocate_loop_ok [OF assms vol_junk [OF assms(1)], of 0 "unat (fat_size (boot_sector priv))"] that
  unfolding fat32_allocate_cluster_def by auto

section \<open>Extending and freeing chains\<close>

lemma fat32_append_loop_ok:
  assumes "vol_ok drv disk priv h" and "chain (fat (vsect disk priv h) priv) c cs"
  shows "\<exists>h'. fat32_append_loop h priv c = Some (Ok (last cs, h'))
     \<and> vol_ok drv disk priv h' \<and> vsect disk priv h' = vsect disk priv h"
  using assms
proof (induction cs arbitrary: h c)
  case (Cons x cs)
  obtain h1 where h1: "fat32_fat_read h priv c = Ok (fat (vsect disk priv h) priv c, h1)"
    "vol_ok drv disk priv h1" "vsect disk priv h1 = vsect disk priv h"
    by (rule fat32_fat_read_ok [OF Cons.prems(1)])
  obtain h2 where h2: "fat32_fat_read h1 priv c = Ok (fat (vsect disk priv h) priv c, h2)"
    "vol_ok drv disk priv h2" "vsect disk priv h2 = vsect disk priv h"
    using fat32_fat_read_ok [OF h1(2), of c] h1(3) by metis
  show ?case
  proof (cases cs)
    case Nil
    with Cons.prems(2) h1 show ?thesis by (auto simp: fat32_append_loop.simps [of h])
  next
    case (Cons y ys)
    with Cons.prems(2) h1 h2 Cons.IH [OF h2(2), of y] show ?thesis
      by (auto simp: fat32_append_loop.simps [of h])
  qed
qed simp

lemma chain_last: "chain f c cs \<Longrightarrow> EOC \<le> f (last cs)"
  by (induction f c cs rule: chain.induct) auto

lemma chain_snoc:
  assumes "chain f c cs" and "distinct cs" and "e < EOC" and "EOC \<le> g e" and "g (last cs) = e"
    and "\<And>x. x \<in> set cs \<Longrightarrow> x \<noteq> last cs \<Longrightarrow> g x = f x"
  shows "chain g c (cs @ [e])"
  using assms
proof (induction cs arbitrary: c)
  case (Cons x cs)
  show ?case
  proof (cases cs)
    case Nil
    then show ?thesis using Cons.prems by auto
  next
    case (Cons y ys)
    have y: "x = c" "f x = y" "y < EOC" "chain f y cs" "x \<notin> set cs" and l: "last (x # cs) = last cs"
      using Cons.prems(1,2) Cons by auto
    have "x \<noteq> last cs" using y(5) Cons by (metis last_in_set list.distinct(1))
    then have "g x = y" using Cons.prems(6) [of x] l y(2) by simp
    moreover have "chain g y (cs @ [e])"
      by (rule Cons.IH [OF y(4)]) (use Cons.prems l in auto)
    ultimately show ?thesis using y(1,3) Cons by simp
  qed
qed simp

definition free_entries :: "(u32 \<Rightarrow> u8 list) \<Rightarrow> FAT32Private \<Rightarrow> u32 set" where
  "free_entries S priv = {x. unat x < fat_range priv \<and> fat S priv x = 0}"

text \<open>
  The chain \<open>cs\<close> that starts at \<open>c\<close> has grown by the clusters \<open>ds\<close>, which were free, and
  nothing else of the table has changed.
\<close>

definition extended :: "FAT32Private \<Rightarrow> u32 \<Rightarrow> u32 list \<Rightarrow> u32 list \<Rightarrow> (u32 \<Rightarrow> u8 list) \<Rightarrow> (u32 \<Rightarrow> u8 list) \<Rightarrow> bool" where
  "extended priv c cs ds S S' \<longleftrightarrow> chain (fat S' priv) c (cs @ ds) \<and> distinct (cs @ ds)
     \<and> set ds \<subseteq> free_entries S priv \<and> free_entries S' priv = free_entries S priv - set ds
     \<and> (\<forall>x. unat x < fat_range priv \<longrightarrow> x \<notin> set ds \<longrightarrow> x \<noteq> last cs \<or> ds = [] \<longrightarrow> fat S' priv x = fat S priv x)
     \<and> (\<forall>d. valid_cluster priv d \<longrightarrow> d \<notin> set (cs @ ds) \<longrightarrow>
          cluster_content S' priv d = cluster_content S priv d)"

lemma extendedD:
  assumes "extended priv c cs ds S S'"
  shows "chain (fat S' priv) c (cs @ ds)" and "distinct (cs @ ds)" and "set ds \<subseteq> free_entries S priv"
    and "free_entries S' priv = free_entries S priv - set ds"
    and "unat x < fat_range priv \<Longrightarrow> x \<notin> set ds \<Longrightarrow> x \<noteq> last cs \<or> ds = [] \<Longrightarrow> fat S' priv x = fat S priv x"
    and "valid_cluster priv d \<Longrightarrow> d \<notin> set (cs @ ds) \<Longrightarrow> cluster_content S' priv d = cluster_content S priv d"
  using assms unfolding extended_def by simp_all

lemma extended_trans:
  assumes "extended priv c cs ds S S1" and "extended priv c (cs @ ds) es S1 S2"
  shows "extended priv c cs (ds @ es) S S2"
  unfolding extended_def
proof (intro conjI allI impI)
  note D = extendedD [OF assms(1)] and E = extendedD [OF assms(2)]
  show "chain (fat S2 priv) c (cs @ ds @ es)" "distinct (cs @ ds @ es)" using E(1,2) by simp_all
  show "set (ds @ es) \<subseteq> free_entries S priv" using D(3,4) E(3) by auto
  show "free_entries S2 priv = free_entries S priv - set (ds @ es)" using D(4) E(4) by auto
  show "fat S2 priv x = fat S priv x"
    if "unat x < fat_range priv" "x \<notin> set (ds @ es)" "x \<noteq> last cs \<or> ds @ es = []" for x
  proof -
    have "x \<noteq> last (cs @ ds) \<or> es = []" using that(2,3) by (cases "ds = []") auto
    then have "fat S2 priv x = fat S1 priv x" using E(5) [OF that(1)] that(2) by simp
    also have "\<dots> = fat S priv x" using D(5) [OF that(1)] that(2,3) by auto
    finally show ?thesis .
  qed
  show "cluster_content S2 priv d = cluster_content S priv d"
    if "valid_cluster priv d" "d \<notin> set (cs @ ds @ es)" for d
    using D(6) [OF that(1)] E(6) [OF that(1)] that(2) by simp
qed

lemma first_free_Some:
  assumes "layout_ok priv" and "first_free S priv 0 = Some k"
  shows "of_nat k \<in> free_entries S priv"
proof -
  from assms(2) have "k < fat_range priv" "fat S priv (of_nat k) = 0"
    by (auto simp: first_free_def find_Some_iff)
  then show ?thesis using assms(1) by (simp add: free_entries_def layout_ok_def)
qed

lemma first_free_None:
  assumes "first_free S priv 0 = None"
  shows "free_entries S priv = {}"
proof -
  have "x \<notin> free_entries S priv" for x
    using assms by (auto simp: first_free_def find_None_iff free_entries_def dest!: spec [of _ "unat x"])
  then show ?thesis by auto
qed

lemma fat32_append_cluster_ok:
  assumes "vol_ok drv disk priv h" and "layout_ok priv" and "chain (fat (vsect disk priv h) priv) c cs"
    and "unat (last cs) < fat_range priv"
  obtains h' where "fat32_append_cluster h priv c e = Ok (0, h')" and "vol_ok drv disk priv h'"
    and "fat_updated priv (last cs) e (vsect disk priv h) (vsect disk priv h')"
proof -
  obtain h1 where h1: "fat32_append_loop h priv c = Some (Ok (last cs, h1))"
    "vol_ok drv disk priv h1" "vsect disk priv h1 = vsect disk priv h"
    using fat32_append_loop_ok [OF assms(1,3)] by auto
  obtain h2 where h2: "fat32_write_fat h1 priv (last cs) e = Ok (0, h2)" "vol_ok drv disk priv h2"
    "fat_updated priv (last cs) e (vsect disk priv h1) (vsect disk priv h2)"
    by (rule fat32_write_fat_ok [OF h1(2) assms(2,4)])
  show thesis
    by (rule that [of h2]) (use h1 h2 in \<open>simp_all add: fat32_append_cluster_def\<close>)
qed

lemma fat_updatedD:
  assumes "fat_updated priv e v S S'"
  shows "unat x < fat_range priv \<Longrightarrow> fat S' priv x = (if x = e then v else fat S priv x)"
    and "valid_cluster priv d \<Longrightarrow> cluster_content S' priv d = cluster_content S priv d"
    and "mirrored S priv \<Longrightarrow> mirrored S' priv"
  using assms unfolding fat_updated_def by simp_all

lemma extended_snoc:
  assumes "fat_updated priv e 0x0fffffff S S1" and "fat_updated priv (last cs) e S1 S2"
    and "chain (fat S priv) c cs" and "distinct cs" and "\<forall>x \<in> set cs. valid_cluster priv x"
    and "e \<in> free_entries S priv" and "valid_cluster priv e"
    and nz: "\<forall>x \<in> set cs. fat S priv x \<noteq> 0"
  shows "extended priv c cs [e] S S2"
proof -
  have cs: "cs \<noteq> []" using chain_head [OF assms(3)] by auto
  then have l: "last cs \<in> set cs" by simp
  have e: "e \<notin> set cs" "unat e < fat_range priv" "e \<noteq> 0" "e < EOC"
    using nz assms(6,7) by (auto simp: free_entries_def valid_cluster_def)
  have f: "fat S2 priv x = (if x = last cs then e else if x = e then 0x0fffffff else fat S priv x)"
    if "unat x < fat_range priv" for x
    using fat_updatedD(1) [OF assms(1) that] fat_updatedD(1) [OF assms(2) that] by simp
  have r: "unat x < fat_range priv" if "x \<in> set cs" for x using assms(5) that valid_fat_range by blast
  have el: "e \<noteq> last cs" using e l by auto
  show ?thesis
    unfolding extended_def
  proof (intro conjI allI impI)
    show "chain (fat S2 priv) c (cs @ [e])"
      by (rule chain_snoc [OF assms(3,4) e(4)]) (use f r e l el in auto)
    show "distinct (cs @ [e])" "set [e] \<subseteq> free_entries S priv" using assms(4,6) e(1) by auto
    show "free_entries S2 priv = free_entries S priv - set [e]"
      using f e(3) nz l by (auto simp: free_entries_def split: if_splits)
    show "fat S2 priv x = fat S priv x"
      if "unat x < fat_range priv" "x \<notin> set [e]" "x \<noteq> last cs \<or> [e] = []" for x
      using f [OF that(1)] that(2,3) by simp
    show "cluster_content S2 priv d = cluster_content S priv d"
      if "valid_cluster priv d" "d \<notin> set (cs @ [e])" for d
      using fat_updatedD(2) [OF assms(1) that(1)] fat_updatedD(2) [OF assms(2) that(1)] by simp
  qed
qed

lemma chain_nonzero:
  "chain f c cs \<Longrightarrow> \<forall>x \<in> set cs. x \<noteq> 0 \<Longrightarrow> \<forall>x \<in> set cs. f x \<noteq> 0"
  by (induction f c cs rule: chain.induct) auto

lemma extended_Nil:
  "chain (fat S priv) c cs \<Longrightarrow> distinct cs \<Longrightarrow> extended priv c cs [] S S"
  by (simp add: extended_def)

definition file_ok :: "(u32 \<Rightarrow> u8 list) \<Rightarrow> FAT32Private \<Rightarrow> u32 \<Rightarrow> u32 list \<Rightarrow> bool" where
  "file_ok S priv c cs \<longleftrightarrow> chain (fat S priv) c cs \<and> distinct cs \<and> (\<forall>x \<in> set cs. valid_cluster priv x)
     \<and> (\<forall>x \<in> free_entries S priv. valid_cluster priv x)"

lemma file_ok_extended:
  assumes "file_ok S priv c cs" and "extended priv c cs ds S S'"
  shows "file_ok S' priv c (cs @ ds)"
  using assms(1) extendedD(1-4) [OF assms(2)] by (auto simp: file_ok_def)

lemma extended_count:
  assumes "extended priv c cs ds S S'"
  shows "length (cs @ ds) + card (free_entries S' priv) = length cs + card (free_entries S priv)"
proof -
  note D = extendedD [OF assms]
  have "card (set ds) = length ds" using D(2) by (simp add: distinct_card)
  then show ?thesis
    using D(3,4) card_mono [OF finite D(3)] by (simp add: card_Diff_subset)
qed

lemma fat32_extend_step:
  assumes "vol_ok drv disk priv h" and "layout_ok priv" and ok: "file_ok (vsect disk priv h) priv c cs"
    and i: "unat ofs div clus_bytes priv = i" "i \<le> length cs" "i < length cs \<or> free_entries (vsect disk priv h) priv \<noteq> {}"
  obtains h' ds where "kbind (fat32_offset_cluster h priv c ofs) (\<lambda>(clus, h). fat32_write_extend h priv c clus)
        = Ok (0, (cs @ ds) ! i, h')"
    and "vol_ok drv disk priv h'" and "extended priv c cs ds (vsect disk priv h) (vsect disk priv h')"
    and "\<And>d. valid_cluster priv d \<Longrightarrow>
      cluster_content (vsect disk priv h') priv d = cluster_content (vsect disk priv h) priv d"
    and "i < length (cs @ ds)" and "ds = [] \<or> length ds = 1 \<and> i = length cs"
proof -
  let ?S = "vsect disk priv h"
  note fo = ok [unfolded file_ok_def]
  have ch: "chain (fat ?S priv) c cs" using fo by simp
  have spc: "0 < spc priv" using assms(2) by (simp add: layout_ok_def)
  obtain h1 where h1: "fat32_offset_cluster h priv c ofs = Ok (if i < length cs then cs ! i else 0, h1)"
    "vol_ok drv disk priv h1" "vsect disk priv h1 = ?S"
    by (rule fat32_offset_cluster_ok [OF assms(1) ch spc, of ofs]) (use i in simp)
  have nz: "\<forall>x \<in> set cs. x \<noteq> 0" using fo by (auto simp: valid_cluster_def)
  show thesis
  proof (cases "i < length cs")
    case True
    with nz have "cs ! i \<noteq> 0" by simp
    then show thesis
      by (intro that [of "[]" h1]) (use True h1 fo in \<open>simp_all add: fat32_write_extend_def extended_Nil\<close>)
  next
    case False
    then have il: "i = length cs" and fr: "free_entries ?S priv \<noteq> {}" using i by auto
    then obtain k where k: "first_free ?S priv 0 = Some k" using first_free_None by fastforce
    define e :: u32 where "e = of_nat k"
    have e: "e \<in> free_entries ?S priv" unfolding e_def by (rule first_free_Some [OF assms(2) k])
    obtain h2 where h2: "fat32_allocate_cluster h1 priv = Ok (e, h2)" "vol_ok drv disk priv h2"
      "fat_updated priv e 0x0fffffff ?S (vsect disk priv h2)"
      using fat32_allocate_cluster_ok [OF h1(2) assms(2)] h1(3) k e_def by (metis option.simps(5))
    let ?S2 = "vsect disk priv h2"
    have ce: "e \<notin> set cs" using e chain_nonzero [OF ch nz] by (auto simp: free_entries_def)
    have r: "unat x < fat_range priv" if "x \<in> set cs" for x using fo that valid_fat_range by blast
    have ch2: "chain (fat ?S2 priv) c cs"
      using ch chain_cong [of cs "fat ?S2 priv" "fat ?S priv" c] fat_updatedD(1) [OF h2(3)] r ce by fastforce
    have l: "unat (last cs) < fat_range priv" using r chain_head [OF ch] by fastforce
    obtain h3 where h3: "fat32_append_cluster h2 priv c e = Ok (0, h3)" "vol_ok drv disk priv h3"
      "fat_updated priv (last cs) e ?S2 (vsect disk priv h3)"
      by (rule fat32_append_cluster_ok [OF h2(2) assms(2) ch2 l])
    have "extended priv c cs [e] ?S (vsect disk priv h3)"
      by (rule extended_snoc [OF h2(3) h3(3) ch]) (use fo e chain_nonzero [OF ch nz] in auto)
    then show thesis
      using fat_updatedD(2) [OF h2(3)] fat_updatedD(2) [OF h3(3)] il h1(1) h2(1) h3(1,2)
      by (intro that [of "[e]" h3]) (simp_all add: fat32_write_extend_def)
  qed
qed

section \<open>Writing a file\<close>

lemma file_content_cong:
  "(\<And>x. x \<in> set cs \<Longrightarrow> cluster_content S' priv x = cluster_content S priv x) \<Longrightarrow>
    file_content S' priv cs = file_content S priv cs"
  unfolding file_content_def by (metis map_cong)

lemma extended_write:
  assumes "layout_ok priv" and "chain (fat S priv) c cs" and "distinct cs" and "\<forall>x \<in> set cs. valid_cluster priv x"
    and "i < length cs" and "r + length d \<le> clus_bytes priv" and "\<And>s. length (S s) = 512"
    and "S' = area_write S (fat32_cluster_to_sector priv (cs ! i)) r d"
  shows "extended priv c cs [] S S'"
    and "distinct es \<Longrightarrow> \<forall>x \<in> set es. valid_cluster priv x \<Longrightarrow> j < length es \<Longrightarrow> es ! j = cs ! i \<Longrightarrow>
      file_content S' priv es = blit (file_content S priv es) (j * clus_bytes priv + r) d"
proof -
  have v: "valid_cluster priv (cs ! i)" using assms(4,5) by simp
  note eff = write_cluster_effect [OF assms(1) v assms(6,7,8)]
  have c: "chain (fat S' priv) c cs"
    using assms(2,4) chain_cong [of cs "fat S' priv" "fat S priv" c] eff(3) valid_fat_range by blast
  have f: "free_entries S' priv = free_entries S priv" using eff(3) by (auto simp: free_entries_def)
  have o: "d \<noteq> cs ! i" if "d \<notin> set cs" for d using that assms(5) by auto
  show "extended priv c cs [] S S'"
    unfolding extended_def using c f assms(3) eff(2) [OF _ o] eff(3) by simp
  show "file_content S' priv es = blit (file_content S priv es) (j * clus_bytes priv + r) d"
    if "distinct es" "\<forall>x \<in> set es. valid_cluster priv x" "j < length es" "es ! j = cs ! i"
    by (rule file_content_write [OF that(1,3) assms(6)]) (use eff that in auto)
qed

text \<open>
  One round of \<open>fat32_write\<close>: the piece lands at its place in the file, and a cluster is added
  exactly when the round starts at the end of the chain.
\<close>

lemma fat32_write_round:
  fixes priv :: FAT32Private
  defines "C \<equiv> clus_bytes priv"
  assumes vol: "vol_ok drv disk priv h" and lay: "layout_ok priv" and ok: "file_ok (vsect disk priv h) priv c cs"
    and lt: "off < sz" and top: "unat offset + unat sz < 2 ^ 32" and k: "k = unat offset + unat off"
    and kl: "k \<le> length cs * C" and buf: "unat sz \<le> length buf"
    and room: "unat offset + unat sz \<le> (length cs + card (free_entries (vsect disk priv h) priv)) * C"
    and n: "n = copysize (spc priv * SECTORSIZE) offset off sz"
  obtains h' ds where
    "fat32_write_loop h priv buf c offset sz off = fat32_write_loop h' priv buf c offset sz (off + n)"
    and "vol_ok drv disk priv h'" and "extended priv c cs ds (vsect disk priv h) (vsect disk priv h')"
    and "\<forall>es. distinct (cs @ ds @ es) \<longrightarrow> (\<forall>x \<in> set (cs @ ds @ es). valid_cluster priv x) \<longrightarrow>
      file_content (vsect disk priv h') priv (cs @ ds @ es) =
      blit (file_content (vsect disk priv h) priv (cs @ ds @ es)) k (take (unat n) (drop (unat off) buf))"
    and "k + unat n \<le> length (cs @ ds) * C" and "ds = [] \<or> length ds = 1 \<and> length cs * C \<le> k"
proof -
  let ?S = "vsect disk priv h" and ?r = "k mod C" and ?d = "take (unat n) (drop (unat off) buf)"
  have spc: "0 < spc priv" using lay by (simp add: layout_ok_def)
  then have C: "0 < C" by (simp add: C_def word_gt_0 unat_gt_0)
  note cp = copysize_ok [OF clussize_pos [OF spc] lt top, folded n k, unfolded clussize_unat, folded C_def]
  have oz: "unat off < unat sz" using lt by (simp add: word_less_nat_alt)
  have k32: "unat offset + unat off < 2 ^ 32" using oz top by simp
  note ci = clus_index(1) [OF k32, folded k] clus_index(2) [OF k32, of priv, folded k C_def]
  define i where "i = k div C"
  have kd: "k = i * C + ?r" unfolding i_def by (simp only: div_mult_mod_eq)
  have rd: "?r + length ?d \<le> C" using cp(2,3) buf by simp
  have il: "i \<le> length cs" unfolding i_def using kl C by (metis div_le_mono div_mult_self_is_m)
  have fr: "i < length cs \<or> free_entries ?S priv \<noteq> {}"
  proof (rule disjCI)
    assume "\<not> free_entries ?S priv \<noteq> {}"
    then have "k < length cs * C" using room oz k by simp
    then show "i < length cs" by (simp add: i_def less_mult_imp_div_less)
  qed
  have ui: "unat (offset + off) div clus_bytes priv = i" using ci(1) by (simp add: i_def C_def)
  obtain h1 ds where h1: "kbind (fat32_offset_cluster h priv c (offset + off))
        (\<lambda>(clus, h). fat32_write_extend h priv c clus) = Ok (0, (cs @ ds) ! i, h1)"
    "vol_ok drv disk priv h1" "extended priv c cs ds ?S (vsect disk priv h1)"
    "\<And>d. valid_cluster priv d \<Longrightarrow> cluster_content (vsect disk priv h1) priv d = cluster_content ?S priv d"
    "i < length (cs @ ds)" "ds = [] \<or> length ds = 1 \<and> i = length cs"
    using fat32_extend_step [OF vol lay ok ui il fr] by metis
  let ?S1 = "vsect disk priv h1" and ?cs = "cs @ ds"
  note fo1 = file_ok_extended [OF ok h1(3), unfolded file_ok_def]
  have w: "unat ((offset + off) mod (spc priv * SECTORSIZE)) + unat n < 2 ^ 32"
    using spc_le [of priv] cp(3) ci(2) by (simp add: C_def)
  obtain h2 where h2: "fat32_write_cluster h1 priv (drop (unat off) buf) (?cs ! i)
      ((offset + off) mod (spc priv * SECTORSIZE)) n = Ok (0, h2)" "vol_ok drv disk priv h2"
      "vsect disk priv h2 = area_write ?S1 (fat32_cluster_to_sector priv (?cs ! i)) ?r ?d"
    by (rule fat32_write_cluster_ok [OF h1(2) w, of "drop (unat off) buf" "?cs ! i"])
      (use cp buf ci(2) in simp_all)
  note W = extended_write [OF lay _ _ _ h1(5) rd [unfolded C_def] vsect_length [OF h1(2)] h2(3) [unfolded C_def]]
  show thesis
  proof (rule that [of h2 ds])
    show "fat32_write_loop h priv buf c offset sz off = fat32_write_loop h2 priv buf c offset sz (off + n)"
      using lt h1(1) h2(1) by (simp add: fat32_write_loop.simps [of h] Let_def flip: n)
    show "vol_ok drv disk priv h2" by (rule h2(2))
    show "extended priv c cs ds ?S (vsect disk priv h2)"
      using extended_trans [OF h1(3), of "[]"] W(1) fo1 by simp
    have "file_content (vsect disk priv h2) priv (cs @ ds @ es) = blit (file_content ?S priv (cs @ ds @ es)) k ?d"
      if "distinct (cs @ ds @ es)" "\<forall>x \<in> set (cs @ ds @ es). valid_cluster priv x" for es
    proof -
      have "file_content ?S1 priv (cs @ ds @ es) = file_content ?S priv (cs @ ds @ es)"
        by (rule file_content_cong) (use that h1(4) in blast)
      moreover have "(cs @ ds @ es) ! i = ?cs ! i" using h1(5) by (auto simp: nth_append)
      ultimately show ?thesis using W(2) [of c "cs @ ds @ es" i] fo1 that h1(5) kd by (simp add: C_def)
    qed
    then show "\<forall>es. distinct (cs @ ds @ es) \<longrightarrow> (\<forall>x \<in> set (cs @ ds @ es). valid_cluster priv x) \<longrightarrow>
      file_content (vsect disk priv h2) priv (cs @ ds @ es) = blit (file_content ?S priv (cs @ ds @ es)) k ?d"
      by blast
    have "i * C + (?r + unat n) \<le> Suc i * C" using cp(3) by simp
    also have "\<dots> \<le> length ?cs * C" using h1(5) by (intro mult_le_mono1) simp
    finally show "k + unat n \<le> length ?cs * C" using kd by linarith
    show "ds = [] \<or> length ds = 1 \<and> length cs * C \<le> k" using h1(6) kd by auto
  qed
qed

lemma fat32_write_loop_ok:
  assumes "vol_ok drv disk priv h" and "layout_ok priv" and "file_ok (vsect disk priv h) priv c cs"
    and "unat offset + unat sz < 2 ^ 32" and "unat offset + unat off \<le> length cs * clus_bytes priv"
    and "unat offset + unat sz \<le> (length cs + card (free_entries (vsect disk priv h) priv)) * clus_bytes priv"
    and "unat off \<le> unat sz" and "unat sz \<le> length buf"
  shows "\<exists>h' ds. fat32_write_loop h priv buf c offset sz off = Some (Ok (sint sz, h'))
     \<and> vol_ok drv disk priv h' \<and> extended priv c cs ds (vsect disk priv h) (vsect disk priv h')
     \<and> file_content (vsect disk priv h') priv (cs @ ds) = blit (file_content (vsect disk priv h) priv (cs @ ds))
         (unat offset + unat off) (take (unat sz - unat off) (drop (unat off) buf))
     \<and> unat offset + unat sz \<le> length (cs @ ds) * clus_bytes priv
     \<and> (ds \<noteq> [] \<longrightarrow> (length (cs @ ds) - 1) * clus_bytes priv < unat offset + unat sz)"
  using assms
proof (induction "unat sz - unat off" arbitrary: h off cs rule: less_induct)
  case less
  let ?S = "vsect disk priv h" and ?k = "unat offset + unat off" and ?C = "clus_bytes priv"
  show ?case
  proof (cases "off < sz")
    case False
    with less.prems(7) have "unat off = unat sz" by (simp add: word_less_nat_alt)
    with False less.prems(1,3,5) show ?thesis
      by (intro exI [of _ h] exI [of _ "[]"])
        (simp add: fat32_write_loop.simps [of h] blit_def extended_Nil file_ok_def)
  next
    case True
    define n where "n = copysize (spc priv * SECTORSIZE) offset off sz"
    have spc: "0 < spc priv" using less.prems(2) by (simp add: layout_ok_def)
    note cp = copysize_ok [OF clussize_pos [OF spc] True less.prems(4), folded n_def, unfolded clussize_unat]
    have off': "unat (off + n) = unat off + unat n"
      by (rule unat_add_lt_u32) (use cp(2) less.prems(4) in simp)
    let ?d = "take (unat n) (drop (unat off) buf)"
    let ?rest = "take (unat sz - unat (off + n)) (drop (unat (off + n)) buf)"
    obtain h2 ds where h2:
      "fat32_write_loop h priv buf c offset sz off = fat32_write_loop h2 priv buf c offset sz (off + n)"
      "vol_ok drv disk priv h2" "extended priv c cs ds ?S (vsect disk priv h2)"
      "\<forall>es. distinct (cs @ ds @ es) \<longrightarrow> (\<forall>x \<in> set (cs @ ds @ es). valid_cluster priv x) \<longrightarrow>
        file_content (vsect disk priv h2) priv (cs @ ds @ es) = blit (file_content ?S priv (cs @ ds @ es)) ?k ?d"
      "?k + unat n \<le> length (cs @ ds) * ?C" "ds = [] \<or> length ds = 1 \<and> length cs * ?C \<le> ?k"
      by (rule fat32_write_round [OF less.prems(1-3) True less.prems(4) refl less.prems(5,8,6) n_def])
    let ?S2 = "vsect disk priv h2"
    have ok2: "file_ok ?S2 priv c (cs @ ds)" by (rule file_ok_extended [OF less.prems(3) h2(3)])
    have "\<exists>h' es. fat32_write_loop h2 priv buf c offset sz (off + n) = Some (Ok (sint sz, h'))
        \<and> vol_ok drv disk priv h' \<and> extended priv c (cs @ ds) es ?S2 (vsect disk priv h')
        \<and> file_content (vsect disk priv h') priv ((cs @ ds) @ es) = blit (file_content ?S2 priv ((cs @ ds) @ es))
            (unat offset + unat (off + n)) ?rest
        \<and> unat offset + unat sz \<le> length ((cs @ ds) @ es) * ?C
        \<and> (es \<noteq> [] \<longrightarrow> (length ((cs @ ds) @ es) - 1) * ?C < unat offset + unat sz)"
    proof (rule less.hyps [OF _ h2(2) less.prems(2) ok2])
      show "unat offset + unat sz \<le> (length (cs @ ds) + card (free_entries ?S2 priv)) * ?C"
        unfolding extended_count [OF h2(3)] by (rule less.prems(6))
    qed (use cp off' less.prems(4,8) h2(5) in simp_all)
    then obtain h3 es where h3: "fat32_write_loop h2 priv buf c offset sz (off + n) = Some (Ok (sint sz, h3))"
        "vol_ok drv disk priv h3" "extended priv c (cs @ ds) es ?S2 (vsect disk priv h3)"
        "file_content (vsect disk priv h3) priv (cs @ ds @ es) =
          blit (file_content ?S2 priv (cs @ ds @ es)) (unat offset + unat (off + n)) ?rest"
        "unat offset + unat sz \<le> length (cs @ ds @ es) * ?C"
        "es \<noteq> [] \<longrightarrow> (length (cs @ ds @ es) - 1) * ?C < unat offset + unat sz"
      by auto
    have "file_content ?S2 priv (cs @ ds @ es) = blit (file_content ?S priv (cs @ ds @ es)) ?k ?d"
      by (rule h2(4) [rule_format]) (use file_ok_extended [OF ok2 h3(3)] in \<open>simp_all add: file_ok_def\<close>)
    moreover have "blit (blit (file_content ?S priv (cs @ ds @ es)) ?k ?d) (unat offset + unat (off + n)) ?rest
        = blit (file_content ?S priv (cs @ ds @ es)) ?k (take (unat sz - unat off) (drop (unat off) buf))"
      using blit_blit_adjacent [of ?k ?d ?rest "file_content ?S priv (cs @ ds @ es)"]
        take_drop_split [of "unat off" "unat n" "unat sz" buf] off' cp(2) h3(5) less.prems(8)
      by (simp add: add.assoc)
    moreover have "(length (cs @ ds @ es) - 1) * ?C < unat offset + unat sz" if "ds @ es \<noteq> []"
      using h2(6) h3(6) that True by (cases "es = []") (auto simp: word_less_nat_alt)
    ultimately show ?thesis
      by (intro exI [of _ h3] exI [of _ "ds @ es"])
        (use h2(1) h3 extended_trans [OF h2(3) h3(3)] in simp)
  qed
qed

section \<open>A full volume\<close>

lemma fat32_extend_full:
  assumes "vol_ok drv disk priv h" and "layout_ok priv" and "file_ok (vsect disk priv h) priv c cs"
    and "free_entries (vsect disk priv h) priv = {}"
  obtains h' where "fat32_write_extend h priv c 0 = Ok (0, 0, h')" and "vol_ok drv disk priv h'"
    and "free_entries (vsect disk priv h') priv = {last cs}"
proof -
  let ?S = "vsect disk priv h"
  have ch: "chain (fat ?S priv) c cs" and v: "\<forall>x \<in> set cs. valid_cluster priv x"
    using assms(3) by (simp_all add: file_ok_def)
  have "last cs \<in> set cs" using chain_head [OF ch] by auto
  with v have l: "unat (last cs) < fat_range priv" using valid_fat_range by blast
  have none: "first_free ?S priv 0 = None"
    using first_free_Some [OF assms(2), of ?S] assms(4) by (cases "first_free ?S priv 0") auto
  obtain h1 where h1: "fat32_allocate_cluster h priv = Ok (0, h1)" "vol_ok drv disk priv h1" "vsect disk priv h1 = ?S"
    by (rule fat32_allocate_cluster_ok [OF assms(1,2)]) (simp add: none)
  have ch1: "chain (fat (vsect disk priv h1) priv) c cs" using ch h1(3) by simp
  obtain h2 where h2: "fat32_append_cluster h1 priv c 0 = Ok (0, h2)" "vol_ok drv disk priv h2"
    "fat_updated priv (last cs) 0 (vsect disk priv h1) (vsect disk priv h2)"
    by (rule fat32_append_cluster_ok [OF h1(2) assms(2) ch1 l])
  have "free_entries (vsect disk priv h2) priv = {last cs}"
    using fat_updatedD(1) [OF h2(3)] h1(3) assms(4) l by (auto simp: free_entries_def split: if_splits)
  then show thesis using that h1(1) h2(1,2) by (simp add: fat32_write_extend_def)
qed

section \<open>Whole reads and writes\<close>

lemma fat32_read_ok:
  assumes "vol_ok drv disk priv h" and "layout_ok priv" and "chain (fat (vsect disk priv h) priv) c cs"
    and "unat offset + unat sz < 2 ^ 32" and "unat offset + unat sz \<le> length cs * clus_bytes priv"
    and "unat sz \<le> length buf"
  obtains h' where "fat32_read h priv c buf offset sz =
      Ok (sint sz, blit buf 0 (take (unat sz) (drop (unat offset) (file_content (vsect disk priv h) priv cs))), h')"
    and "vol_ok drv disk priv h'" and "vsect disk priv h' = vsect disk priv h"
proof -
  have "0 < spc priv" using assms(2) by (simp add: layout_ok_def)
  from fat32_read_loop_ok [OF assms(1,3) this assms(4,5) _ assms(6), of 0] show thesis
    using file_bytes_content [OF assms(5)] that by (auto simp: fat32_read_def)
qed

lemma fat32_write_in_place:
  assumes "vol_ok drv disk priv h" and "layout_ok priv" and "file_ok (vsect disk priv h) priv c cs"
    and "unat offset + unat sz < 2 ^ 32" and "unat offset + unat sz \<le> length cs * clus_bytes priv"
    and "unat sz \<le> length buf"
  obtains h' where "fat32_write h priv c buf offset sz = Ok (sint sz, h')"
    and "vol_ok drv disk priv h'" and "file_ok (vsect disk priv h') priv c cs"
    and "file_content (vsect disk priv h') priv cs =
      blit (file_content (vsect disk priv h) priv cs) (unat offset) (take (unat sz) buf)"
proof -
  let ?C = "clus_bytes priv"
  have C: "0 < ?C" using assms(2) by (simp add: layout_ok_def unat_gt_0 word_gt_0)
  have "unat offset + unat sz \<le> (length cs + card (free_entries (vsect disk priv h) priv)) * ?C"
    using assms(5) by (simp add: distrib_right)
  then obtain h' ds where w: "fat32_write_loop h priv buf c offset sz 0 = Some (Ok (sint sz, h'))"
     "vol_ok drv disk priv h'" "extended priv c cs ds (vsect disk priv h) (vsect disk priv h')"
     "file_content (vsect disk priv h') priv (cs @ ds) =
       blit (file_content (vsect disk priv h) priv (cs @ ds)) (unat offset) (take (unat sz) buf)"
     "ds \<noteq> [] \<longrightarrow> (length (cs @ ds) - 1) * ?C < unat offset + unat sz"
    using fat32_write_loop_ok [OF assms(1-4) _ _ _ assms(6), of 0] assms(5) by auto
  have "ds = []"
  proof (rule ccontr)
    assume "ds \<noteq> []"
    then have "length cs \<le> length (cs @ ds) - 1" by (cases ds) auto
    then have "length cs * ?C \<le> (length (cs @ ds) - 1) * ?C" by (rule mult_le_mono1)
    with w(5) \<open>ds \<noteq> []\<close> assms(5) show False by linarith
  qed
  then show thesis
    using that [of h'] w(1-4) file_ok_extended [OF assms(3) w(3)] by (simp add: fat32_write_def)
qed

section \<open>Freeing a file\<close>

lemma fat32_free_loop_ok:
  assumes "vol_ok drv disk priv h" and "layout_ok priv" and "chain (fat (vsect disk priv h) priv) c cs"
    and "distinct cs" and "\<forall>x \<in> set cs. unat x < fat_range priv"
  shows "\<exists>h'. fat32_free_loop h priv c = Some (Ok (0, h')) \<and> vol_ok drv disk priv h'
     \<and> (\<forall>x. unat x < fat_range priv \<longrightarrow>
          fat (vsect disk priv h') priv x = (if x \<in> set cs then 0 else fat (vsect disk priv h) priv x))
     \<and> (mirrored (vsect disk priv h) priv \<longrightarrow> mirrored (vsect disk priv h') priv)
     \<and> (\<forall>d. valid_cluster priv d \<longrightarrow>
          cluster_content (vsect disk priv h') priv d = cluster_content (vsect disk priv h) priv d)"
  using assms
proof (induction cs arbitrary: h c)
  case (Cons x cs)
  let ?S = "vsect disk priv h"
  have x: "x = c" using Cons.prems(3) chain_head by blast
  have r: "unat c < fat_range priv" using Cons.prems(5) x by simp
  obtain h1 where h1: "fat32_fat_read h priv c = Ok (fat ?S priv c, h1)"
    "vol_ok drv disk priv h1" "vsect disk priv h1 = ?S"
    by (rule fat32_fat_read_ok [OF Cons.prems(1)])
  obtain h2 where h2: "fat32_write_fat h1 priv c 0 = Ok (0, h2)" "vol_ok drv disk priv h2"
    "fat_updated priv c 0 ?S (vsect disk priv h2)"
    using fat32_write_fat_ok [OF h1(2) Cons.prems(2) r, of 0] h1(3) by metis
  let ?S2 = "vsect disk priv h2"
  note u = fat_updatedD [OF h2(3)]
  show ?case
  proof (cases cs)
    case Nil
    then have "\<not> fat ?S priv c < EOC" using Cons.prems(3) by (simp add: not_less)
    then have "fat32_free_loop h priv c = Some (Ok (0, h2))"
      using h1(1) h2(1) by (simp add: fat32_free_loop.simps [of h])
    then show ?thesis using u h2(2) Nil x by auto
  next
    case (Cons y ys)
    have y: "fat ?S priv c = y" "y < EOC" "chain (fat ?S priv) y cs" "c \<notin> set cs"
      using Cons.prems(3,4) Cons x by auto
    have c2: "chain (fat ?S2 priv) y cs"
      using y(3,4) chain_cong [of cs "fat ?S2 priv" "fat ?S priv" y] u(1) Cons.prems(5) by fastforce
    have d: "distinct cs" "\<forall>x \<in> set cs. unat x < fat_range priv" using Cons.prems(4,5) by simp_all
    obtain h3 where h3: "fat32_free_loop h2 priv y = Some (Ok (0, h3))" "vol_ok drv disk priv h3"
      "\<forall>x. unat x < fat_range priv \<longrightarrow> fat (vsect disk priv h3) priv x = (if x \<in> set cs then 0 else fat ?S2 priv x)"
      "mirrored ?S2 priv \<longrightarrow> mirrored (vsect disk priv h3) priv"
      "\<forall>d. valid_cluster priv d \<longrightarrow> cluster_content (vsect disk priv h3) priv d = cluster_content ?S2 priv d"
      using Cons.IH [OF h2(2) Cons.prems(2) c2 d] by blast
    have "fat32_free_loop h priv c = Some (Ok (0, h3))"
      using h1(1) h2(1) h3(1) y(1,2) by (simp add: fat32_free_loop.simps [of h])
    then show ?thesis using u h3(2-5) x by simp
  qed
qed simp

section \<open>Properties\<close>

text \<open>A volume for the examples: one table sector in each copy, one sector per cluster, a file at cluster 2.\<close>

definition small_fat :: "u8 list" where
  "small_fat = [0xf8, 0xff, 0xff, 0x0f, 0xff, 0xff, 0xff, 0x0f, 0xff, 0xff, 0xff, 0x0f] @ replicate 500 0"

definition small_disk :: "u32 \<Rightarrow> u8 list" where
  "small_disk s = (if s = 64 \<or> s = 65 then small_fat else replicate 512 3)"

definition small_priv :: FAT32Private where
  "small_priv = \<lparr>partition_id = 0, boot_sector = \<lparr>sector_per_cluster = 1, reserved_sector = 1,
     fat_number = 2, fat_size = 1, root_cluster = 2\<rparr>, fmode = 0, uid = 0, gid = 0\<rparr>"

abbreviation ram_vsect :: "(u32 \<Rightarrow> u8 list) \<Rightarrow> u32 \<Rightarrow> u8 list" where
  "ram_vsect d \<equiv> vsect ram_sect small_priv (ram_hal d)"

abbreviation small_sect :: "u32 \<Rightarrow> u8 list" where
  "small_sect \<equiv> ram_vsect small_disk"

lemma ram_vol: "vol_ok ram_driver ram_sect small_priv (ram_hal d)"
  using ram_hal_ok by (simp add: vol_ok_def small_priv_def)

lemma small_layout: "layout_ok small_priv"
  by (simp add: layout_ok_def small_priv_def data_start_def)

lemma ram_vsect_at: "length (d (63 + s)) = 512 \<Longrightarrow> ram_vsect d s = d (63 + s)"
  by (simp add: part_sect_def part_dev_def ram_hal_def ram_sect_def small_priv_def)

lemma length_small_fat: "length small_fat = 512"
  by (simp add: small_fat_def)

lemma small_fat_entry:
  assumes "d 64 = small_fat" and "unat e < 128"
  shows "fat (ram_vsect d) small_priv e = le32 small_fat (4 * unat e)"
proof -
  have "unat (e div 128) = 0" "unat (e mod 128) = unat e" using assms(2) by (simp_all add: unat_div unat_mod)
  then have "e div 128 = 0" by (simp add: unat_eq_0)
  moreover have "ram_vsect d 1 = small_fat" using ram_vsect_at [of d 1] assms(1) length_small_fat by simp
  ultimately show ?thesis using \<open>unat (e mod 128) = unat e\<close>
    by (simp add: fat_def small_priv_def)
qed

lemma small_fat_012:
  assumes "d 64 = small_fat"
  shows "fat (ram_vsect d) small_priv 0 = 0x0ffffff8" "fat (ram_vsect d) small_priv 1 = 0x0fffffff"
    "fat (ram_vsect d) small_priv 2 = 0x0fffffff" "fat (ram_vsect d) small_priv 3 = 0"
  by (subst small_fat_entry [of d, OF assms]; simp add: le32_def small_fat_def)+

lemma ram_file:
  assumes "d 64 = small_fat"
  shows "file_ok (ram_vsect d) small_priv 2 [2]"
proof -
  have v: "valid_cluster small_priv x" if "2 \<le> unat x" "unat x < 128" for x :: u32
    using that by (simp add: valid_cluster_def small_priv_def data_start_def word_less_nat_alt)
  have "valid_cluster small_priv x" if "x \<in> free_entries (ram_vsect d) small_priv" for x
  proof -
    have x: "unat x < 128" "fat (ram_vsect d) small_priv x = 0"
      using that by (simp_all add: free_entries_def) (simp add: small_priv_def)
    moreover from x(2) have "x \<noteq> 0" "x \<noteq> 1" using small_fat_012 [of d, OF assms] by auto
    then have "2 \<le> unat x" by (metis One_nat_def less_2_cases not_less unat_1 unat_eq_0 word_unat_eq_iff)
    ultimately show ?thesis using v by blast
  qed
  then show ?thesis using v [of 2] small_fat_012 [of d, OF assms] by (simp add: file_ok_def)
qed

lemma ram_free: "d 64 = small_fat \<Longrightarrow> 3 \<in> free_entries (ram_vsect d) small_priv"
  using small_fat_012(4) [of d] by (simp add: free_entries_def) (simp add: small_priv_def)

lemma small_disk_64: "small_disk 64 = small_fat"
  by (simp add: small_disk_def)

lemmas small_vol = ram_vol [of small_disk]
lemmas small_file = ram_file [of small_disk, OF small_disk_64]
lemmas small_entries = small_fat_012 [of small_disk, OF small_disk_64]

text \<open>
  C12. \<open>fat32_read\<close> of a range inside a file returns the number of bytes asked for and puts
  exactly those bytes of the file, the concatenation of the clusters of its chain, at the start of the
  buffer. It changes nothing on the volume.
\<close>

theorem fat32_read_correct:
  assumes "vol_ok drv disk priv h" and "layout_ok priv" and "chain (fat (vsect disk priv h) priv) c cs"
    and "unat offset + unat sz < 2 ^ 32" and "unat offset + unat sz \<le> length cs * clus_bytes priv"
    and "unat sz \<le> length buf"
  shows "\<exists>h'. fat32_read h priv c buf offset sz =
      Ok (sint sz, blit buf 0 (take (unat sz) (drop (unat offset) (file_content (vsect disk priv h) priv cs))), h')
    \<and> vol_ok drv disk priv h' \<and> vsect disk priv h' = vsect disk priv h"
proof -
  have "0 < spc priv" using assms(2) by (simp add: layout_ok_def)
  from fat32_read_loop_ok [OF assms(1,3) this assms(4,5) _ assms(6), of 0] show ?thesis
    using file_bytes_content [OF assms(5)] by (auto simp: fat32_read_def)
qed

theorem fat32_read_correct_witness:
  "\<exists>h'. fat32_read (ram_hal small_disk) small_priv 2 (replicate 8 0) 100 5 =
      Ok (5, blit (replicate 8 0) 0 (take 5 (drop 100 (file_content small_sect small_priv [2]))), h')
    \<and> vol_ok ram_driver ram_sect small_priv h' \<and> vsect ram_sect small_priv h' = small_sect"
  using fat32_read_correct [OF small_vol small_layout, of 2 "[2]" 100 5 "replicate 8 0"] small_file
  by (simp add: file_ok_def) (simp add: small_priv_def)

text \<open>
  C13. \<open>fat32_write\<close> at a place inside a file or at its end, on a volume with enough free
  entries, returns the number of bytes asked for. The chain is extended by free clusters only, by no
  more than the bytes need, nothing outside the file changes, neither other clusters nor other
  entries of the table, and the file then holds the bytes at the offset and its old contents
  elsewhere. What a new cluster held before stays where the bytes do not cover it.
\<close>

theorem fat32_write_correct:
  assumes "vol_ok drv disk priv h" and "layout_ok priv" and "file_ok (vsect disk priv h) priv c cs"
    and "unat offset + unat sz < 2 ^ 32" and "unat offset \<le> length cs * clus_bytes priv"
    and "unat offset + unat sz \<le> (length cs + card (free_entries (vsect disk priv h) priv)) * clus_bytes priv"
    and "unat sz \<le> length buf"
  shows "\<exists>h' ds. fat32_write h priv c buf offset sz = Ok (sint sz, h')
     \<and> vol_ok drv disk priv h' \<and> extended priv c cs ds (vsect disk priv h) (vsect disk priv h')
     \<and> file_content (vsect disk priv h') priv (cs @ ds) =
         blit (file_content (vsect disk priv h) priv (cs @ ds)) (unat offset) (take (unat sz) buf)
     \<and> unat offset + unat sz \<le> length (cs @ ds) * clus_bytes priv
     \<and> (ds \<noteq> [] \<longrightarrow> (length (cs @ ds) - 1) * clus_bytes priv < unat offset + unat sz)"
  using fat32_write_loop_ok [OF assms(1-4) _ assms(6) _ assms(7), of 0] assms(5)
  by (auto simp: fat32_write_def)

theorem fat32_write_correct_witness:
  "\<exists>h' ds. fat32_write (ram_hal small_disk) small_priv 2 (replicate 20 9) 505 20 = Ok (20, h')
     \<and> vol_ok ram_driver ram_sect small_priv h' \<and> length ds = 1
     \<and> extended small_priv 2 [2] ds small_sect (vsect ram_sect small_priv h')
     \<and> file_content (vsect ram_sect small_priv h') small_priv (2 # ds) =
         blit (file_content small_sect small_priv (2 # ds)) 505 (replicate 20 9)"
proof -
  have C: "clus_bytes small_priv = 512" by (simp add: small_priv_def)
  have "{3} \<subseteq> free_entries small_sect small_priv"
    using ram_free [of small_disk, OF small_disk_64] by simp
  then have "1 \<le> card (free_entries small_sect small_priv)"
    using card_mono [of "free_entries small_sect small_priv" "{3}"] by simp
  then obtain h' ds where w: "fat32_write (ram_hal small_disk) small_priv 2 (replicate 20 9) 505 20 = Ok (20, h')"
     "vol_ok ram_driver ram_sect small_priv h'" "extended small_priv 2 [2] ds small_sect (vsect ram_sect small_priv h')"
     "file_content (vsect ram_sect small_priv h') small_priv (2 # ds) =
         blit (file_content small_sect small_priv (2 # ds)) 505 (replicate 20 9)"
     "525 \<le> (1 + length ds) * 512" "ds \<noteq> [] \<longrightarrow> length ds * 512 < 525"
    using fat32_write_correct [OF small_vol small_layout small_file, of 505 20 "replicate 20 9"]
    unfolding C by auto
  have "ds \<noteq> []" using w(5) by auto
  then have "0 < length ds" "length ds * 512 < 525" using w(6) by simp_all
  then have "length ds = 1" by linarith
  with w show ?thesis by blast
qed

text \<open>
  \<open>fat32_free_chain\<close> ends on every chain, clears all its entries, leaves every other entry
  and every cluster alone, and keeps the two copies of the table equal.
\<close>

theorem fat32_free_chain_correct:
  assumes "vol_ok drv disk priv h" and "layout_ok priv" and "chain (fat (vsect disk priv h) priv) c cs"
    and "distinct cs" and "\<forall>x \<in> set cs. unat x < fat_range priv"
  shows "\<exists>h'. fat32_free_chain h priv c = Ok (0, h') \<and> vol_ok drv disk priv h'
     \<and> (\<forall>x. unat x < fat_range priv \<longrightarrow>
          fat (vsect disk priv h') priv x = (if x \<in> set cs then 0 else fat (vsect disk priv h) priv x))
     \<and> (mirrored (vsect disk priv h) priv \<longrightarrow> mirrored (vsect disk priv h') priv)
     \<and> (\<forall>d. valid_cluster priv d \<longrightarrow>
          cluster_content (vsect disk priv h') priv d = cluster_content (vsect disk priv h) priv d)"
  using fat32_free_loop_ok [OF assms] by (auto simp: fat32_free_chain_def)

theorem fat32_free_chain_correct_witness:
  "\<exists>h'. fat32_free_chain (ram_hal small_disk) small_priv 2 = Ok (0, h')
     \<and> fat (vsect ram_sect small_priv h') small_priv 2 = 0
     \<and> fat (vsect ram_sect small_priv h') small_priv 1 = 0x0fffffff"
proof -
  have r: "fat_range small_priv = 128" by (simp add: small_priv_def)
  obtain h' where f: "fat32_free_chain (ram_hal small_disk) small_priv 2 = Ok (0, h')"
    "\<forall>x. unat x < fat_range small_priv \<longrightarrow> fat (vsect ram_sect small_priv h') small_priv x =
       (if x \<in> set [2] then 0 else fat small_sect small_priv x)"
    using fat32_free_chain_correct [OF small_vol small_layout, of 2 "[2]"] small_file r
    unfolding file_ok_def by auto
  show ?thesis
    using f(1) f(2) [rule_format, of 2] f(2) [rule_format, of 1] small_entries(2) r by simp
qed

text \<open>
  When no entry of the table is free, the end of \<open>fat32_write\<close> that extends a chain does
  not report an error: the comparison of an unsigned number with 0 in
  \<^verbatim>\<open>(clus = fat32_allocate_cluster(priv)) < 0\<close> is never true. The last cluster of the file is
  linked to cluster 0, so that its entry reads as free, and \<open>fat32_write\<close> goes on with
  cluster 0 and returns the number of bytes asked for.
\<close>

theorem fat32_write_full_volume:
  assumes "vol_ok drv disk priv h" and "layout_ok priv" and "file_ok (vsect disk priv h) priv c cs"
    and "free_entries (vsect disk priv h) priv = {}"
    and "0 < sz" and "unat sz < clus_bytes priv" and "unat sz \<le> length buf"
    and "unat offset = length cs * clus_bytes priv" and "unat offset + unat sz < 2 ^ 32"
  shows "(\<exists>h'. fat32_write_extend h priv c 0 = Ok (0, 0, h') \<and> free_entries (vsect disk priv h') priv = {last cs})
     \<and> (\<exists>h'. fat32_write h priv c buf offset sz = Ok (sint sz, h'))"
proof
  let ?S = "vsect disk priv h" and ?C = "clus_bytes priv"
  have spc: "0 < spc priv" using assms(2) by (simp add: layout_ok_def)
  have ch: "chain (fat ?S priv) c cs" using assms(3) by (simp add: file_ok_def)
  obtain h1 where h1: "fat32_write_extend h priv c 0 = Ok (0, 0, h1)" "free_entries (vsect disk priv h1) priv = {last cs}"
    by (rule fat32_extend_full [OF assms(1-4)])
  then show "\<exists>h'. fat32_write_extend h priv c 0 = Ok (0, 0, h') \<and> free_entries (vsect disk priv h') priv = {last cs}"
    by blast
  have d: "unat offset div ?C = length cs" "(unat offset + unat sz) div ?C = length cs" using assms(6,8) by simp_all
  have n: "copysize (spc priv * SECTORSIZE) offset 0 sz = sz"
    using d unat_add_lt_u32 [of offset sz] assms(9) unfolding copysize_def
    by (simp add: word_less_nat_alt unat_div clussize_unat)
  have m: "offset mod (spc priv * SECTORSIZE) = 0"
    using assms(8) by (simp add: unat_mod clussize_unat flip: unat_eq_0)
  obtain h2 where h2: "fat32_offset_cluster h priv c offset = Ok (0, h2)" "vol_ok drv disk priv h2" "vsect disk priv h2 = ?S"
    by (rule fat32_offset_cluster_ok [OF assms(1) ch spc, of offset]) (use d in simp)
  have ok2: "file_ok (vsect disk priv h2) priv c cs" "free_entries (vsect disk priv h2) priv = {}"
    using h2(3) assms(3,4) by simp_all
  obtain h3 where h3: "fat32_write_extend h2 priv c 0 = Ok (0, 0, h3)" "vol_ok drv disk priv h3"
    by (rule fat32_extend_full [OF h2(2) assms(2) ok2])
  obtain h4 where h4: "fat32_write_cluster h3 priv buf 0 0 sz = Ok (0, h4)"
    by (rule fat32_write_cluster_ok [OF h3(2), of 0 sz buf 0]) (use assms(7) unat_u32_lt in simp_all)
  have "fat32_write_loop h priv buf c offset sz 0 = Some (Ok (sint sz, h4))"
    using assms(5) h2(1) h3(1) h4 n m
    by (simp add: fat32_write_loop.simps [of h] fat32_write_loop.simps [of h4] Let_def)
  then show "\<exists>h'. fat32_write h priv c buf offset sz = Ok (sint sz, h')" by (simp add: fat32_write_def)
qed

definition full_disk :: "u32 \<Rightarrow> u8 list" where
  "full_disk s = replicate 512 0xff"

lemma full_fat_entry: "fat (vsect ram_sect small_priv (ram_hal full_disk)) small_priv e = 0xffffffff"
proof -
  have "vsect ram_sect small_priv (ram_hal full_disk) s = replicate 512 0xff" for s
    by (simp add: part_sect_def part_dev_def ram_hal_def ram_sect_def full_disk_def small_priv_def)
  then show ?thesis using mod128_lt [of e] by (simp add: fat_def le32_def)
qed

theorem fat32_write_full_volume_witness:
  "(\<exists>h'. fat32_write_extend (ram_hal full_disk) small_priv 2 0 = Ok (0, 0, h')
      \<and> free_entries (vsect ram_sect small_priv h') small_priv = {2})
   \<and> (\<exists>h'. fat32_write (ram_hal full_disk) small_priv 2 (replicate 20 9) 512 20 = Ok (20, h'))"
proof -
  have vol: "vol_ok ram_driver ram_sect small_priv (ram_hal full_disk)"
    using ram_hal_ok by (simp add: vol_ok_def small_priv_def)
  have fe: "free_entries (vsect ram_sect small_priv (ram_hal full_disk)) small_priv = {}"
    by (simp add: free_entries_def full_fat_entry)
  have "valid_cluster small_priv 2" using small_file by (simp add: file_ok_def)
  then have "file_ok (vsect ram_sect small_priv (ram_hal full_disk)) small_priv 2 [2]"
    using fe by (simp add: file_ok_def full_fat_entry)
  from fat32_write_full_volume [OF vol small_layout this fe, of 20 "replicate 20 9" 512] show ?thesis
    by (simp add: small_priv_def)
qed

text \<open>
  \<open>fat32_allocate_cluster\<close> takes the first free entry of the table, marks it as the end
  of a chain in both copies and returns its number; no other entry and no cluster changes. With no
  free entry it returns 0 and writes nothing.
\<close>

theorem fat32_allocate_cluster_correct:
  assumes "vol_ok drv disk priv h" and "layout_ok priv"
  shows "\<exists>h'. vol_ok drv disk priv h' \<and>
    (case find (\<lambda>k. fat (vsect disk priv h) priv (of_nat k) = 0) [0..<fat_range priv] of
       None \<Rightarrow> fat32_allocate_cluster h priv = Ok (0, h') \<and> vsect disk priv h' = vsect disk priv h
     | Some k \<Rightarrow> fat32_allocate_cluster h priv = Ok (of_nat k, h')
         \<and> (\<forall>x. unat x < fat_range priv \<longrightarrow>
              fat (vsect disk priv h') priv x = (if x = of_nat k then 0x0fffffff else fat (vsect disk priv h) priv x))
         \<and> (mirrored (vsect disk priv h) priv \<longrightarrow> mirrored (vsect disk priv h') priv)
         \<and> (\<forall>d. valid_cluster priv d \<longrightarrow>
              cluster_content (vsect disk priv h') priv d = cluster_content (vsect disk priv h) priv d))"
proof (rule fat32_allocate_cluster_ok [OF assms])
  fix h'
  assume a: "fat32_allocate_cluster h priv =
      Ok (case first_free (vsect disk priv h) priv 0 of None \<Rightarrow> 0 | Some k \<Rightarrow> of_nat k, h')"
    "vol_ok drv disk priv h'"
    "case first_free (vsect disk priv h) priv 0 of
          None \<Rightarrow> vsect disk priv h' = vsect disk priv h
        | Some k \<Rightarrow> fat_updated priv (of_nat k) 0x0fffffff (vsect disk priv h) (vsect disk priv h')"
  have f: "first_free (vsect disk priv h) priv 0 =
      find (\<lambda>k. fat (vsect disk priv h) priv (of_nat k) = 0) [0..<fat_range priv]"
    by (simp add: first_free_def)
  show ?thesis
    using a unfolding f
    by (intro exI [of _ h']) (auto simp: fat_updatedD split: option.splits)
qed

theorem fat32_allocate_cluster_correct_witness:
  "\<exists>h'. fat32_allocate_cluster (ram_hal small_disk) small_priv = Ok (3, h')
     \<and> fat (vsect ram_sect small_priv h') small_priv 3 = 0x0fffffff"
proof -
  have r: "fat_range small_priv = 128" by (simp add: small_priv_def)
  have "[0..<128] = [0, 1, 2, 3] @ [4..<128 :: nat]" by (simp add: upt_rec)
  then have "find (\<lambda>k. fat small_sect small_priv (of_nat k) = 0) [0..<fat_range small_priv] = Some 3"
    unfolding r using small_entries by simp
  then show ?thesis
    using fat32_allocate_cluster_correct [OF small_vol small_layout] r by auto
qed

end
