(* ===== verification/Vfs_Path.thy ===== *)
theory Vfs_Path
  imports Kernel_String
begin

text \<open>
  Paths, \<^verbatim>\<open>kernel/filesystem/vfs/path.c\<close>: a path is a number of parts and a buffer that holds
  part \<open>i\<close> as a string at offset \<open>128 * i\<close>. A string argument is a byte list, read as if NULs
  followed it.
\<close>

section \<open>Operations\<close>

record VfsPath =
  parts :: int
  pathbuf :: "u8 list"

definition path_part :: "VfsPath \<Rightarrow> nat \<Rightarrow> u8 list" where
  "path_part path i = drop (i * 128) (pathbuf path)"

definition sep :: "u8 \<Rightarrow> bool" where
  "sep c \<longleftrightarrow> c = 0x2f \<or> c = 0"

text \<open>
  One round of the outer loop handles what is left of the path. A part that does not fit into the
  buffer is written behind it.
\<close>

function vfs_path_split_loop :: "u8 list \<Rightarrow> nat \<Rightarrow> u8 list \<Rightarrow> (int \<times> u8 list) kres" where
  "vfs_path_split_loop path count buf =
     (if hd0 path = 0 then Ok (int count, buf)
      else let seg = takeWhile (\<lambda>c. \<not> sep c) path; after = dropWhile (\<lambda>c. \<not> sep c) path
        in if seg = [] then vfs_path_split_loop (tl path) count buf
           else if length buf < count * 128 + length seg + 1 then Fault
           else let buf = blit buf (count * 128) (seg @ [0])
             in if hd0 after = 0 then Ok (int (count + 1), buf)
                else vfs_path_split_loop (tl after) (count + 1) buf)"
  by pat_completeness auto
termination
proof (relation "measure (\<lambda>(path, count, buf). length path)", goal_cases)
  case (2 path count buf)
  then show ?case by (cases path) (auto simp: hd0_def)
next
  case (3 path count buf)
  then show ?case
    using length_dropWhile_le [of "\<lambda>c. \<not> sep c" path]
    by (cases path) (auto simp: hd0_def diff_less_Suc le_less_trans less_Suc_eq_le)
qed simp

declare vfs_path_split_loop.simps [simp del]

definition vfs_path_split :: "u8 list \<Rightarrow> u8 list \<Rightarrow> (int \<times> u8 list) kres" where
  "vfs_path_split path buf = vfs_path_split_loop path 0 buf"

fun vfs_path_compare_loop :: "u8 list \<Rightarrow> u8 list \<Rightarrow> nat \<Rightarrow> nat \<Rightarrow> int" where
  "vfs_path_compare_loop lhs rhs i 0 = 1"
| "vfs_path_compare_loop lhs rhs i (Suc n) =
     (if strncmp_str (drop (i * 128) lhs) (drop (i * 128) rhs) 128 \<noteq> 0 then 0
      else vfs_path_compare_loop lhs rhs (Suc i) n)"

definition vfs_path_compare :: "int \<Rightarrow> u8 list \<Rightarrow> int \<Rightarrow> u8 list \<Rightarrow> int" where
  "vfs_path_compare lhs_parts lhs_buf rhs_parts rhs_buf =
     (if lhs_parts \<noteq> rhs_parts then 0 else vfs_path_compare_loop lhs_buf rhs_buf 0 (nat lhs_parts))"

text \<open>The string at the start of a buffer.\<close>

definition c_string :: "u8 list \<Rightarrow> u8 list" where
  "c_string xs = takeWhile (\<lambda>c. c \<noteq> 0) xs"

text \<open>\<^verbatim>\<open>safestrcpy(buf + off, s, n)\<close> on byte lists, \<open>n > 0\<close>.\<close>

definition put_safe :: "u8 list \<Rightarrow> nat \<Rightarrow> u8 list \<Rightarrow> nat \<Rightarrow> u8 list kres" where
  "put_safe buf off s n =
     (let t = take (n - 1) (c_string s) @ [0]
      in if length buf < off + length t then Fault else Ok (blit buf off t))"

definition put_char :: "u8 list \<Rightarrow> nat \<Rightarrow> u8 \<Rightarrow> u8 list kres" where
  "put_char buf i c = (if i < length buf then Ok (buf[i := c]) else Fault)"

fun vfs_path_tostring_loop :: "VfsPath \<Rightarrow> nat \<Rightarrow> nat \<Rightarrow> nat \<Rightarrow> u8 list \<Rightarrow> (nat \<times> u8 list) kres" where
  "vfs_path_tostring_loop path next i 0 buf = Ok (next, buf)"
| "vfs_path_tostring_loop path next i (Suc n) buf =
     kbind (put_safe buf next (path_part path i) 128) (\<lambda>buf.
       let next = next + length (c_string (path_part path i))
       in kbind (put_char buf next 0x2f) (\<lambda>buf. vfs_path_tostring_loop path (next + 1) (Suc i) n buf))"

definition vfs_path_tostring :: "VfsPath \<Rightarrow> u8 list \<Rightarrow> u8 list kres" where
  "vfs_path_tostring path buf =
     kbind (put_char buf 0 0x2f) (\<lambda>buf.
       kbind (vfs_path_tostring_loop path 1 0 (nat (parts path)) buf) (\<lambda>(next, buf).
         put_char buf next 0))"

text \<open>
  The directory of the process in front of the path, in a fresh page with contents \<open>page\<close>.
\<close>

definition vfs_get_absolute_path :: "VfsPath \<Rightarrow> u8 list \<Rightarrow> VfsPath \<Rightarrow> VfsPath kres" where
  "vfs_get_absolute_path cwd page path =
     (let a = nat (parts cwd) * 128; b = nat (parts path) * 128
      in if length page < a + b \<or> length (pathbuf cwd) < a \<or> length (pathbuf path) < b then Fault
         else Ok \<lparr>parts = parts path + parts cwd,
                pathbuf = blit (blit page 0 (take a (pathbuf cwd))) a (take b (pathbuf path))\<rparr>)"

section \<open>The parts of a path\<close>

text \<open>The specification, one character at a time: \<open>cur\<close> is the part being read.\<close>

fun segs :: "u8 list \<Rightarrow> u8 list \<Rightarrow> u8 list list" where
  "segs [] cur = (if cur = [] then [] else [cur])"
| "segs (c # cs) cur =
     (if c = 0 then segs [] cur
      else if c = 0x2f then segs [] cur @ segs cs []
      else segs cs (cur @ [c]))"

definition holds_parts :: "u8 list \<Rightarrow> u8 list list \<Rightarrow> bool" where
  "holds_parts buf ss \<longleftrightarrow> (\<forall>i < length ss. c_string (drop (i * 128) buf) = ss ! i)"

lemma segs_run: "list_all (\<lambda>c. \<not> sep c) xs \<Longrightarrow> segs (xs @ ys) cur = segs ys (cur @ xs)"
  by (induction xs arbitrary: cur) (auto simp: sep_def)

lemma segs_step:
  assumes "takeWhile (\<lambda>c. \<not> sep c) path = seg" and "dropWhile (\<lambda>c. \<not> sep c) path = rest" and "seg \<noteq> []"
  shows "segs path [] = seg # (if hd0 rest = 0 then [] else segs (tl rest) [])"
proof -
  have "path = seg @ rest" using assms(1,2) by (metis takeWhile_dropWhile_id)
  moreover have "list_all (\<lambda>c. \<not> sep c) seg" using assms(1) by (auto simp: list_all_iff dest: set_takeWhileD)
  ultimately have "segs path [] = segs rest seg" by (simp add: segs_run)
  moreover have "rest = [] \<or> sep (hd rest)" using assms(2) hd_dropWhile by (metis)
  ultimately show ?thesis using assms(3) by (cases rest) (auto simp: sep_def hd0_def)
qed

lemma c_string_blit_at:
  assumes "off + length seg + 1 \<le> length buf" and "0 \<notin> set seg"
  shows "c_string (drop off (blit buf off (seg @ [0]))) = seg"
proof -
  have "takeWhile (\<lambda>c. c \<noteq> 0) (xs @ 0 # ys) = xs" if "0 \<notin> set xs" for xs ys :: "u8 list"
    using that by (induction xs) auto
  then show ?thesis using assms by (simp add: c_string_def blit_def)
qed

lemma c_string_take:
  assumes "length (c_string (drop a bs)) < b - a" and "take b bs' = take b bs"
  shows "c_string (drop a bs') = c_string (drop a bs)"
proof -
  have t: "c_string (take k xs) = c_string xs" if "length (c_string xs) < k" for k and xs :: "u8 list"
    using that
  proof (induction xs arbitrary: k)
    case (Cons x xs)
    then show ?case by (cases k) (auto simp: c_string_def split: if_splits)
  qed (simp add: c_string_def)
  have t': "c_string xs = c_string (take k xs)" if "length (c_string (take k xs)) < k" for k and xs :: "u8 list"
    using that
  proof (induction xs arbitrary: k)
    case (Cons x xs)
    then show ?case by (cases k) (auto simp: c_string_def split: if_splits)
  qed (simp add: c_string_def)
  have "take (b - a) (drop a bs') = take (b - a) (drop a bs)" using assms(2) by (metis drop_take)
  then show ?thesis using t [OF assms(1)] t' [of "b - a" "drop a bs'"] assms(1) by simp
qed

lemma vfs_path_split_loop_ok:
  assumes "\<forall>s \<in> set (segs path []). length s < 128"
    and "(count + length (segs path [])) * 128 \<le> length buf"
  shows "\<exists>buf'. vfs_path_split_loop path count buf = Ok (int (count + length (segs path [])), buf')
     \<and> length buf' = length buf \<and> take (count * 128) buf' = take (count * 128) buf
     \<and> holds_parts (drop (count * 128) buf') (segs path [])"
  using assms
proof (induction path count buf rule: vfs_path_split_loop.induct)
  case (1 path count buf)
  let ?seg = "takeWhile (\<lambda>c. \<not> sep c) path" and ?rest = "dropWhile (\<lambda>c. \<not> sep c) path"
  note unf = vfs_path_split_loop.simps [of path count buf]
  show ?case
  proof (cases "hd0 path = 0")
    case True
    then have "segs path [] = []" by (cases path) (auto simp: hd0_def)
    then show ?thesis using True by (simp add: unf holds_parts_def)
  next
    case nz: False
    show ?thesis
    proof (cases "?seg = []")
      case True
      then have "segs path [] = segs (tl path) []" using nz by (cases path) (auto simp: hd0_def sep_def)
      then show ?thesis using "1.IH"(1) [OF nz refl refl True] "1.prems" nz True by (simp add: unf)
    next
      case False
      note st = segs_step [OF refl refl False]
      let ?more = "if hd0 ?rest = 0 then [] else segs (tl ?rest) []"
      have l: "length ?seg < 128" "count * 128 + length ?seg + 1 \<le> length buf"
        using "1.prems" st by (auto simp: algebra_simps)
      have z: "0 \<notin> set ?seg" by (auto dest: set_takeWhileD simp: sep_def)
      define buf1 where "buf1 = blit buf (count * 128) (?seg @ [0])"
      have b1: "length buf1 = length buf" "take (count * 128) buf1 = take (count * 128) buf"
        "c_string (drop (count * 128) buf1) = ?seg"
        using l z c_string_blit_at [of "count * 128" ?seg buf] by (simp_all add: buf1_def) (simp add: blit_def)
      have eq: "vfs_path_split_loop path count buf =
          (if hd0 ?rest = 0 then Ok (int (count + 1), buf1) else vfs_path_split_loop (tl ?rest) (count + 1) buf1)"
        using nz False l by (simp add: unf buf1_def Let_def)
      show ?thesis
      proof (cases "hd0 ?rest = 0")
        case True
        then show ?thesis using eq st b1 by (simp add: holds_parts_def)
      next
        case more: False
        have "\<exists>buf'. vfs_path_split_loop (tl ?rest) (count + 1) buf1 = Ok (int (count + 1 + length (segs (tl ?rest) [])), buf')
            \<and> length buf' = length buf1 \<and> take ((count + 1) * 128) buf' = take ((count + 1) * 128) buf1
            \<and> holds_parts (drop ((count + 1) * 128) buf') (segs (tl ?rest) [])"
          using "1.IH"(2) [OF nz refl refl False _ buf1_def more] "1.prems" st more b1(1) l(2) by simp
        then obtain buf' where r: "vfs_path_split_loop (tl ?rest) (count + 1) buf1 = Ok (int (count + 1 + length (segs (tl ?rest) [])), buf')"
          "length buf' = length buf1" "take ((count + 1) * 128) buf' = take ((count + 1) * 128) buf1"
          "holds_parts (drop ((count + 1) * 128) buf') (segs (tl ?rest) [])"
          by blast
        have "take (count * 128) buf' = take (count * 128) buf"
          using arg_cong [OF r(3), of "take (count * 128)"] b1(2) by (simp add: min_def)
        moreover have "c_string (drop (count * 128) buf') = ?seg"
          using c_string_take [of "count * 128" buf1 "(count + 1) * 128" buf'] r(3) b1(3) l(1) by simp
        moreover have "holds_parts (drop (count * 128) buf') (?seg # segs (tl ?rest) [])"
          unfolding holds_parts_def
        proof (intro allI impI)
          fix i
          assume "i < length (?seg # segs (tl ?rest) [])"
          then show "c_string (drop (i * 128) (drop (count * 128) buf')) = (?seg # segs (tl ?rest) []) ! i"
            using r(4) calculation(2) by (cases i) (simp_all add: holds_parts_def algebra_simps)
        qed
        ultimately show ?thesis using eq st more r(1,2) b1(1) by simp
      qed
    qed
  qed
qed

section \<open>Printing a path\<close>

definition part_ok :: "u8 list \<Rightarrow> bool" where
  "part_ok s \<longleftrightarrow> s \<noteq> [] \<and> length s < 128 \<and> list_all (\<lambda>c. \<not> sep c) s"

definition join :: "u8 list list \<Rightarrow> u8 list" where
  "join ss = concat (map (\<lambda>s. s @ [0x2f]) ss)"

lemma segs_join: "list_all part_ok ss \<Longrightarrow> segs (join ss @ 0 # r) [] = ss"
  by (induction ss) (auto simp: join_def part_ok_def segs_run)

lemma join_nonzero: "list_all part_ok ss \<Longrightarrow> \<forall>c \<in> set (join ss). c \<noteq> 0"
  by (auto simp: join_def part_ok_def list_all_iff sep_def)

lemma vfs_path_tostring_loop_ok:
  assumes "list_all part_ok ss" and "\<forall>j < length ss. c_string (path_part path (i + j)) = ss ! j"
    and "nx + length (join ss) \<le> length buf"
  shows "\<exists>buf'. vfs_path_tostring_loop path nx i (length ss) buf = Ok (nx + length (join ss), buf')
     \<and> length buf' = length buf \<and> take (nx + length (join ss)) buf' = take nx buf @ join ss"
  using assms
proof (induction ss arbitrary: nx i buf)
  case Nil
  then show ?case by (simp add: join_def)
next
  case (Cons s ss)
  have s: "c_string (path_part path i) = s" "length s < 128" using Cons.prems(1,2) by (auto simp: part_ok_def)
  have j: "join (s # ss) = s @ 0x2f # join ss" by (simp add: join_def)
  have l: "nx + length s + 1 + length (join ss) \<le> length buf" using Cons.prems(3) by (simp add: j)
  have p: "put_safe buf nx (path_part path i) 128 = Ok (blit buf nx (s @ [0]))"
    using s l by (simp add: put_safe_def Let_def)
  define b1 where "b1 = (blit buf nx (s @ [0]))[nx + length s := 0x2f]"
  have b1: "length b1 = length buf" "take (nx + length s + 1) b1 = take nx buf @ s @ [0x2f]"
    using l by (simp_all add: b1_def) (simp add: blit_def list_update_append)
  have "\<forall>k < length ss. c_string (path_part path (Suc i + k)) = ss ! k"
    using Cons.prems(2) by (metis Suc_less_eq add_Suc_shift length_Cons nth_Cons_Suc)
  then obtain b2 where b2: "vfs_path_tostring_loop path (nx + length s + 1) (Suc i) (length ss) b1 =
      Ok (nx + length s + 1 + length (join ss), b2)" "length b2 = length b1"
    "take (nx + length s + 1 + length (join ss)) b2 = take (nx + length s + 1) b1 @ join ss"
    using Cons.IH [of "Suc i" "nx + length s + 1" b1] Cons.prems(1) l b1(1) by auto
  have "vfs_path_tostring_loop path nx i (length (s # ss)) buf = Ok (nx + length (join (s # ss)), b2)"
    using p s l b2(1) by (simp add: put_char_def b1_def Let_def j)
  moreover have "nx + length (join (s # ss)) = nx + length s + 1 + length (join ss)" by (simp add: j)
  then have "take (nx + length (join (s # ss))) b2 = take nx buf @ join (s # ss)"
    unfolding j by (simp only: b2(3) b1(2) append_assoc append_Cons append_Nil)
  ultimately show ?case using b2(2) b1(1) by (intro exI [of _ b2]) (simp only: simp_thms)
qed

section \<open>Properties\<close>

text \<open>
  \<open>vfs_path_split\<close> ends on every path and stores the non-empty segments between slashes,
  in order, each as a string in its 128-byte slot, whatever the buffer held, as long as each segment
  is shorter than 128 bytes and the slots fit.
\<close>

theorem vfs_path_split_correct:
  assumes "\<forall>s \<in> set (segs path []). length s < 128" and "length (segs path []) * 128 \<le> length buf"
  shows "\<exists>buf'. vfs_path_split path buf = Ok (int (length (segs path [])), buf')
     \<and> length buf' = length buf \<and> holds_parts buf' (segs path [])"
  using vfs_path_split_loop_ok [of path 0 buf] assms by (simp add: vfs_path_split_def)

theorem vfs_path_split_correct_witness:
  "\<exists>buf'. vfs_path_split (bytes_of ''//usr/ls'') (replicate 4096 9) = Ok (2, buf')
     \<and> holds_parts buf' [bytes_of ''usr'', bytes_of ''ls'']"
proof -
  have s: "segs (bytes_of ''//usr/ls'') [] = [bytes_of ''usr'', bytes_of ''ls'']"
    by (simp add: bytes_of_def of_char_of)
  show ?thesis
    using vfs_path_split_correct [of "bytes_of ''//usr/ls''" "replicate 4096 9"] unfolding s
    by (simp add: bytes_of_def) auto
qed

text \<open>
  C14. Printing a path with \<open>vfs_path_tostring\<close> and splitting the string again with
  \<open>vfs_path_split\<close> gives back its parts.
\<close>

theorem vfs_path_roundtrip:
  assumes "list_all part_ok ss" and "parts path = int (length ss)" and "holds_parts (pathbuf path) ss"
    and "length (join ss) + 2 \<le> length out" and "length ss * 128 \<le> length buf"
  shows "\<exists>out' buf'. vfs_path_tostring path out = Ok out'
     \<and> vfs_path_split out' buf = Ok (int (length ss), buf') \<and> holds_parts buf' ss"
proof -
  let ?o1 = "out[0 := 0x2f]"
  have p: "\<forall>j < length ss. c_string (path_part path (0 + j)) = ss ! j"
    using assms(3) by (simp add: holds_parts_def path_part_def)
  obtain o2 where o2: "vfs_path_tostring_loop path 1 0 (length ss) ?o1 = Ok (1 + length (join ss), o2)"
    "length o2 = length out" "take (1 + length (join ss)) o2 = take 1 ?o1 @ join ss"
    using vfs_path_tostring_loop_ok [OF assms(1) p, of 1 ?o1] assms(4) by auto
  let ?o3 = "o2[1 + length (join ss) := 0]"
  have o3: "?o3 = 0x2f # join ss @ 0 # drop (2 + length (join ss)) o2"
  proof -
    have "take 1 ?o1 = [0x2f]" using assms(4) by (cases out) auto
    moreover have "?o3 = take (1 + length (join ss)) o2 @ 0 # drop (2 + length (join ss)) o2"
      using assms(4) o2(2) by (simp add: upd_conv_take_nth_drop)
    ultimately show ?thesis unfolding o2(3) by simp
  qed
  have t: "vfs_path_tostring path out = Ok ?o3"
    using assms(2,4) o2(1,2) by (auto simp: vfs_path_tostring_def put_char_def)
  have s: "segs ?o3 [] = ss" unfolding o3 using segs_join [OF assms(1)] by simp
  have "\<forall>s \<in> set ss. length s < 128" using assms(1) by (auto simp: list_all_iff part_ok_def)
  then show ?thesis
    using vfs_path_split_loop_ok [of ?o3 0 buf] t assms(5) unfolding s by (auto simp: vfs_path_split_def)
qed

theorem vfs_path_roundtrip_witness:
  "\<exists>out' buf'. vfs_path_tostring \<lparr>parts = 1, pathbuf = bytes_of ''ls'' @ [0]\<rparr> (replicate 64 1) = Ok out'
     \<and> vfs_path_split out' (replicate 4096 9) = Ok (1, buf') \<and> holds_parts buf' [bytes_of ''ls'']"
  using vfs_path_roundtrip [of "[bytes_of ''ls'']" "\<lparr>parts = 1, pathbuf = bytes_of ''ls'' @ [0]\<rparr>" "replicate 64 1" "replicate 4096 9"]
  by (simp add: part_ok_def sep_def bytes_of_def of_char_of holds_parts_def c_string_def join_def)

end
