(* ===== verification/Fat32_Dir.thy ===== *)
theory Fat32_Dir
  imports Fat32_Alloc Vfs_Path
begin

text \<open>
  FAT32 directories, \<^verbatim>\<open>kernel/filesystem/fat32/dir.c\<close> and \<^verbatim>\<open>mount.c\<close>: 8.3 names, searching
  directories and paths, inserting and removing entries, creating files and directories, mounting.

  A directory entry is a record with its packed 32-byte layout. A variable of that type that the
  code leaves uninitialised holds the bytes \<open>junk h\<close>. A path is the number of its parts and the
  buffer of 128-byte parts.
\<close>

section \<open>Directory entries\<close>

record FAT32DirEntry =
  d_name :: "u8 list"
  d_attr :: u8
  d_nt_reserved :: u8
  d_create_time_millis :: u8
  d_create_time :: u16
  d_create_date :: u16
  d_access_date :: u16
  d_cluster_hi :: u16
  d_write_time :: u16
  d_write_date :: u16
  d_cluster_lo :: u16
  d_size :: u32

definition ATTR_VOLUME_ID :: u8 where "ATTR_VOLUME_ID = 0x08"
definition ATTR_DIRECTORY :: u8 where "ATTR_DIRECTORY = 0x10"
definition ATTR_LONG_NAME :: u8 where "ATTR_LONG_NAME = 0x0f"

definition dir_of_bytes :: "u8 list \<Rightarrow> FAT32DirEntry" where
  "dir_of_bytes bs = \<lparr>d_name = take 11 bs, d_attr = bs ! 11, d_nt_reserved = bs ! 12,
     d_create_time_millis = bs ! 13, d_create_time = le16 bs 14, d_create_date = le16 bs 16,
     d_access_date = le16 bs 18, d_cluster_hi = le16 bs 20, d_write_time = le16 bs 22,
     d_write_date = le16 bs 24, d_cluster_lo = le16 bs 26, d_size = le32 bs 28\<rparr>"

definition bytes16 :: "u16 \<Rightarrow> u8 list" where
  "bytes16 v = [ucast v, ucast (drop_bit 8 v)]"

definition bytes32 :: "u32 \<Rightarrow> u8 list" where
  "bytes32 v = [ucast v, ucast (drop_bit 8 v), ucast (drop_bit 16 v), ucast (drop_bit 24 v)]"

definition bytes_of_dir :: "FAT32DirEntry \<Rightarrow> u8 list" where
  "bytes_of_dir d = d_name d @ [d_attr d, d_nt_reserved d, d_create_time_millis d]
     @ bytes16 (d_create_time d) @ bytes16 (d_create_date d) @ bytes16 (d_access_date d)
     @ bytes16 (d_cluster_hi d) @ bytes16 (d_write_time d) @ bytes16 (d_write_date d)
     @ bytes16 (d_cluster_lo d) @ bytes32 (d_size d)"

text \<open>\<^verbatim>\<open>memset(&dir, 0, sizeof(dir))\<close>.\<close>

definition dir_zero :: FAT32DirEntry where
  "dir_zero = dir_of_bytes (replicate 32 0)"

definition dir_uninit :: "'d hal \<Rightarrow> FAT32DirEntry" where
  "dir_uninit h = dir_of_bytes (take 32 (junk h))"

text \<open>\<^verbatim>\<open>(dir.cluster_hi << 16) | dir.cluster_lo\<close>, and storing a cluster number.\<close>

definition d_cluster :: "FAT32DirEntry \<Rightarrow> u32" where
  "d_cluster d = push_bit 16 (ucast (d_cluster_hi d)) OR ucast (d_cluster_lo d)"

definition d_set_cluster :: "u32 \<Rightarrow> FAT32DirEntry \<Rightarrow> FAT32DirEntry" where
  "d_set_cluster c d = d\<lparr>d_cluster_lo := ucast (c AND 0xffff), d_cluster_hi := ucast (drop_bit 16 c AND 0xffff)\<rparr>"

section \<open>Names\<close>

definition to_lower :: "u8 \<Rightarrow> u8" where
  "to_lower c = (if 0x41 \<le> c \<and> c \<le> 0x5a then c + 0x20 else c)"

definition to_upper :: "u8 \<Rightarrow> u8" where
  "to_upper c = (if 0x61 \<le> c \<and> c \<le> 0x7a then c - 0x20 else c)"

text \<open>
  The last position of the base name that is not a space. With eight spaces the unsigned
  position wraps around and the read leaves the array.
\<close>

fun strip_end :: "u8 list \<Rightarrow> nat \<Rightarrow> nat kres" where
  "strip_end name 0 = (if name ! 0 = 0x20 then Fault else Ok 0)"
| "strip_end name (Suc off) = (if name ! Suc off = 0x20 then strip_end name off else Ok (Suc off))"

text \<open>The loop over \<^verbatim>\<open>i = 2, 3, 4\<close> that copies the extension.\<close>

fun copy_ext :: "u8 list \<Rightarrow> nat \<Rightarrow> nat list \<Rightarrow> u8 list" where
  "copy_ext name off [] = name[off + 5 := 0]"
| "copy_ext name off (i # is) =
     (if name ! (i + 7) = 0x20 then name[off + i := 0]
      else copy_ext (name[off + i := name ! (i + 7)]) off is)"

definition fat32_get_full_name :: "FAT32DirEntry \<Rightarrow> u8 list \<Rightarrow> u8 list kres" where
  "fat32_get_full_name dir name =
     (if length name < 13 \<or> length (d_name dir) < 11 then Fault
      else let name = overlay 11 (map to_lower (take 11 (d_name dir))) name;
               name = name[11 := name ! 10];
               name = name[10 := name ! 9];
               name = name[9 := name ! 8]
        in kbind (strip_end name 7) (\<lambda>off.
             if name ! 9 = 0x20 then Ok (name[off + 1 := 0])
             else Ok (copy_ext (name[off + 1 := 0x2e]) off [2, 3, 4])))"

text \<open>
  The loop of \<open>fat32_file_get_short_name\<close>. After a dot the next character is taken without
  a test for the end of the string.
\<close>

function short_name_loop :: "u8 list \<Rightarrow> nat \<Rightarrow> u8 list \<Rightarrow> u8 list kres" where
  "short_name_loop s p shortname =
     (case s of
        [] \<Rightarrow> Fault
      | c # cs \<Rightarrow>
          if c = 0 then Ok shortname
          else let p = (if c = 0x2e then 8 else p)
            in (case (if c = 0x2e then cs else s) of
                  [] \<Rightarrow> Fault
                | d # ds \<Rightarrow>
                    let shortname = shortname[p := to_upper d]
                    in if p + 1 = 11 then Ok shortname else short_name_loop ds (p + 1) shortname))"
  by pat_completeness auto
termination
  by (relation "measure (\<lambda>(s, p, sh). length s)") (auto split: if_splits)

declare short_name_loop.simps [simp del]

definition fat32_file_get_short_name :: "u8 list \<Rightarrow> u8 list kres" where
  "fat32_file_get_short_name longname = short_name_loop longname 0 (replicate 11 0x20 @ [0])"

section \<open>Searching\<close>

text \<open>C division of an int, and the int \<^verbatim>\<open>i % (sector_per_cluster * SECTORSIZE)\<close> as an unsigned argument.\<close>

definition cdiv :: "int \<Rightarrow> int \<Rightarrow> int" where
  "cdiv a b = sgn a * (\<bar>a\<bar> div b)"

definition entry_off :: "FAT32Private \<Rightarrow> int \<Rightarrow> u32" where
  "entry_off priv i = of_int (sgn i * (\<bar>i\<bar> mod (int (unat (spc priv)) * 512)))"

text \<open>
  The head of every loop over a directory: the cluster that holds byte \<open>i\<close>, and the entry
  there. \<open>None\<close> is the end of the chain.
\<close>

definition dir_fetch :: "'d hal \<Rightarrow> FAT32Private \<Rightarrow> u32 \<Rightarrow> int
    \<Rightarrow> ((int \<times> u32 \<times> FAT32DirEntry) option \<times> 'd hal) kres" where
  "dir_fetch h priv cluster i =
     kbind (fat32_offset_cluster h priv cluster (of_int i)) (\<lambda>(clus, h).
       if clus = 0 then Ok (None, h)
       else kbind (fat32_read_cluster h priv (take 32 (junk h)) clus (entry_off priv i) 32)
         (\<lambda>(errc, bs, h). Ok (Some (errc, clus, dir_of_bytes bs), h)))"

text \<open>\<^verbatim>\<open>i += 32\<close> on an int.\<close>

definition int_overflow :: "int \<Rightarrow> bool" where
  "int_overflow i \<longleftrightarrow> i \<ge> 2 ^ 31"

definition dir_skip :: "FAT32DirEntry \<Rightarrow> bool" where
  "dir_skip dir \<longleftrightarrow> d_name dir ! 0 \<noteq> 0 \<and>
     (d_name dir ! 0 = 0xe5 \<or> d_attr dir = ATTR_LONG_NAME \<or> d_attr dir = ATTR_VOLUME_ID)"

partial_function (option) fat32_dir_search_loop :: "'d hal \<Rightarrow> FAT32Private \<Rightarrow> u32 \<Rightarrow> u8 list
    \<Rightarrow> FAT32DirEntry \<Rightarrow> int \<Rightarrow> (int \<times> FAT32DirEntry \<times> 'd hal) kres option" where
  "fat32_dir_search_loop h priv cluster name dir_dest i =
     (if int_overflow i then Some Fault
      else case dir_fetch h priv cluster i of
        Ok (None, h) \<Rightarrow> Some (Ok (ERROR_NOT_EXIST, dir_dest, h))
      | Ok (Some (errc, clus, dir), h) \<Rightarrow>
          if errc < 0 then Some (Ok (errc, dir_dest, h))
          else if dir_skip dir then fat32_dir_search_loop h priv cluster name dir_dest (i + 32)
          else if d_name dir ! 0 = 0 then Some (Ok (ERROR_NOT_EXIST, dir_dest, h))
          else (case fat32_get_full_name dir (take 256 (junk h)) of
                  Ok fullname \<Rightarrow>
                    if strncmp_str name fullname 256 = 0 then Some (Ok (cdiv i 32, dir, h))
                    else fat32_dir_search_loop h priv cluster name dir_dest (i + 32)
                | Panic s \<Rightarrow> Some (Panic s) | Diverge \<Rightarrow> Some Diverge | Fault \<Rightarrow> Some Fault)
      | Panic s \<Rightarrow> Some (Panic s) | Diverge \<Rightarrow> Some Diverge | Fault \<Rightarrow> Some Fault)"

definition fat32_dir_search :: "'d hal \<Rightarrow> FAT32Private \<Rightarrow> u32 \<Rightarrow> u8 list \<Rightarrow> FAT32DirEntry
    \<Rightarrow> (int \<times> FAT32DirEntry \<times> 'd hal) kres" where
  "fat32_dir_search h priv cluster name dir_dest =
     of_kloop (fat32_dir_search_loop h priv cluster name dir_dest 0)"

text \<open>The loop of \<open>fat32_path_search\<close> over the parts, counted from \<open>i\<close>.\<close>

primrec fat32_path_search_loop :: "'d hal \<Rightarrow> FAT32Private \<Rightarrow> VfsPath \<Rightarrow> FAT32DirEntry \<Rightarrow> u32 \<Rightarrow> nat \<Rightarrow> nat
    \<Rightarrow> (int \<times> FAT32DirEntry \<times> 'd hal) kres" where
  "fat32_path_search_loop h priv path dir_dest cluster i 0 = Ok (0, dir_dest, h)"
| "fat32_path_search_loop h priv path dir_dest cluster i (Suc n) =
     kbind (fat32_dir_search h priv cluster (path_part path i) dir_dest) (\<lambda>(errc, dir_dest, h).
       if errc < 0 then Ok (errc, dir_dest, h)
       else fat32_path_search_loop h priv path dir_dest (d_cluster dir_dest) (Suc i) n)"

definition fat32_path_search :: "'d hal \<Rightarrow> FAT32Private \<Rightarrow> VfsPath \<Rightarrow> FAT32DirEntry
    \<Rightarrow> (int \<times> FAT32DirEntry \<times> 'd hal) kres" where
  "fat32_path_search h priv path dir_dest =
     fat32_path_search_loop h priv path dir_dest (root_cluster (boot_sector priv)) 0 (nat (parts path))"

definition fat32_open :: "'d hal \<Rightarrow> FAT32Private \<Rightarrow> VfsPath \<Rightarrow> (int \<times> 'd hal) kres" where
  "fat32_open h priv path =
     (if parts path = 0 then Ok (sint (root_cluster (boot_sector priv)), h)
      else let dir = (dir_uninit h)\<lparr>d_cluster_lo := 0, d_cluster_hi := 0\<rparr>
        in kbind (fat32_path_search h priv path dir) (\<lambda>(errc, dir, h).
             if errc < 0 then Ok (errc, h) else Ok (sint (d_cluster dir), h)))"

partial_function (option) fat32_first_file_loop :: "'d hal \<Rightarrow> FAT32Private \<Rightarrow> u32 \<Rightarrow> int \<Rightarrow> (int \<times> 'd hal) kres option" where
  "fat32_first_file_loop h priv cluster i =
     (if int_overflow i then Some Fault
      else case dir_fetch h priv cluster i of
        Ok (None, h) \<Rightarrow> Some (Ok (-1, h))
      | Ok (Some (errc, clus, dir), h) \<Rightarrow>
          if errc < 0 then Some (Ok (errc, h))
          else if dir_skip dir then fat32_first_file_loop h priv cluster (i + 32)
          else if d_name dir ! 0 = 0 then Some (Ok (-1, h))
          else Some (Ok (cdiv i 32, h))
      | Panic s \<Rightarrow> Some (Panic s) | Diverge \<Rightarrow> Some Diverge | Fault \<Rightarrow> Some Fault)"

definition fat32_dir_first_file :: "'d hal \<Rightarrow> FAT32Private \<Rightarrow> u32 \<Rightarrow> (int \<times> 'd hal) kres" where
  "fat32_dir_first_file h priv cluster = of_kloop (fat32_first_file_loop h priv cluster 0)"

partial_function (option) fat32_dir_read_loop :: "'d hal \<Rightarrow> FAT32Private \<Rightarrow> u8 list \<Rightarrow> u32 \<Rightarrow> int
    \<Rightarrow> (int \<times> u8 list \<times> 'd hal) kres option" where
  "fat32_dir_read_loop h priv buf cluster i =
     (if int_overflow i then Some Fault
      else case dir_fetch h priv cluster i of
        Ok (None, h) \<Rightarrow> Some (Ok (0, buf, h))
      | Ok (Some (errc, clus, dir), h) \<Rightarrow>
          if errc < 0 then Some (Ok (errc, buf, h))
          else if dir_skip dir then fat32_dir_read_loop h priv buf cluster (i + 32)
          else if d_name dir ! 0 = 0 then Some (Ok (0, buf, h))
          else (case fat32_get_full_name dir buf of
                  Ok buf \<Rightarrow> Some (Ok (cdiv i 32 + 1, buf, h))
                | Panic s \<Rightarrow> Some (Panic s) | Diverge \<Rightarrow> Some Diverge | Fault \<Rightarrow> Some Fault)
      | Panic s \<Rightarrow> Some (Panic s) | Diverge \<Rightarrow> Some Diverge | Fault \<Rightarrow> Some Fault)"

definition fat32_dir_read :: "'d hal \<Rightarrow> FAT32Private \<Rightarrow> u8 list \<Rightarrow> u32 \<Rightarrow> u32
    \<Rightarrow> (int \<times> u8 list \<times> 'd hal) kres" where
  "fat32_dir_read h priv buf cluster entry =
     of_kloop (fat32_dir_read_loop h priv buf cluster (sint (entry * 32)))"

definition fat32_file_size :: "'d hal \<Rightarrow> FAT32Private \<Rightarrow> VfsPath \<Rightarrow> (int \<times> 'd hal) kres" where
  "fat32_file_size h priv path =
     kbind (fat32_path_search h priv path (dir_uninit h)) (\<lambda>(errc, dir, h).
       if errc < 0 then Ok (errc, h) else Ok (sint (d_size dir), h))"

definition fat32_file_mode :: "'d hal \<Rightarrow> FAT32Private \<Rightarrow> VfsPath \<Rightarrow> (int \<times> 'd hal) kres" where
  "fat32_file_mode h priv path =
     kbind (fat32_path_search h priv path (dir_uninit h)) (\<lambda>(errc, dir, h).
       if errc < 0 then Ok (errc, h)
       else Ok (sint (if d_attr dir AND ATTR_DIRECTORY \<noteq> 0 then fmode priv OR 0x4000 else fmode priv), h))"

section \<open>Changing directories\<close>

partial_function (option) fat32_insert_loop :: "'d hal \<Rightarrow> FAT32Private \<Rightarrow> u32 \<Rightarrow> FAT32DirEntry \<Rightarrow> int
    \<Rightarrow> (int option \<times> 'd hal) kres option" where
  "fat32_insert_loop h priv cluster dirent i =
     (if int_overflow i then Some Fault
      else case dir_fetch h priv cluster i of
        Ok (None, h) \<Rightarrow> Some (Ok (None, h))
      | Ok (Some (errc, clus, dir), h) \<Rightarrow>
          if errc < 0 then Some (Ok (Some ERROR_READ_FAIL, h))
          else if d_name dir ! 0 = 0xe5 \<or> d_name dir ! 0 = 0
          then (case fat32_write_cluster h priv (bytes_of_dir dirent) clus (entry_off priv i) 32 of
                  Ok (r, h) \<Rightarrow> Some (Ok (Some (if r < 0 then ERROR_WRITE_FAIL else 0), h))
                | Panic s \<Rightarrow> Some (Panic s) | Diverge \<Rightarrow> Some Diverge | Fault \<Rightarrow> Some Fault)
          else fat32_insert_loop h priv cluster dirent (i + 32)
      | Panic s \<Rightarrow> Some (Panic s) | Diverge \<Rightarrow> Some Diverge | Fault \<Rightarrow> Some Fault)"

definition fat32_dir_insert_entry :: "'d hal \<Rightarrow> FAT32Private \<Rightarrow> u32 \<Rightarrow> FAT32DirEntry \<Rightarrow> (int \<times> 'd hal) kres" where
  "fat32_dir_insert_entry h priv cluster dirent =
     kbind (of_kloop (fat32_insert_loop h priv cluster dirent 0)) (\<lambda>(ret, h).
       case ret of
         Some r \<Rightarrow> Ok (r, h)
       | None \<Rightarrow> kbind (fat32_allocate_cluster h priv) (\<lambda>(alloc, h).
           if alloc = 0 then Ok (ERROR_OUT_OF_SPACE, h)
           else kbind (fat32_write_cluster h priv (bytes_of_dir dirent) alloc 0 32) (\<lambda>(_, h).
             kbind (fat32_append_cluster h priv cluster alloc) (\<lambda>(_, h). Ok (0, h)))))"

text \<open>
  The head that \<open>fat32_mkdir\<close>, \<open>fat32_file_remove\<close> and \<open>fat32_file_create\<close> share: the
  cluster of the directory and the name in it. The result of \<open>fat32_path_search\<close> is ignored.
\<close>

definition fat32_target_dir :: "'d hal \<Rightarrow> FAT32Private \<Rightarrow> VfsPath \<Rightarrow> (u32 \<times> u8 list \<times> 'd hal) kres" where
  "fat32_target_dir h priv path =
     (if parts path > 1
      then kbind (fat32_path_search h priv (path\<lparr>parts := parts path - 1\<rparr>) (dir_uninit h))
        (\<lambda>(_, dir, h). Ok (d_cluster dir, path_part path (nat (parts path - 1)), h))
      else Ok (root_cluster (boot_sector priv), pathbuf path, h))"

definition fat32_mkdir :: "'d hal \<Rightarrow> FAT32Private \<Rightarrow> VfsPath \<Rightarrow> (int \<times> 'd hal) kres" where
  "fat32_mkdir h priv path =
     kbind (fat32_target_dir h priv path) (\<lambda>(cluster, filename, h).
     kbind (fat32_dir_search h priv cluster filename (dir_uninit h)) (\<lambda>(r, _, h).
       if r \<ge> 0 then Ok (ERROR_EXIST, h)
       else kbind (fat32_file_get_short_name filename) (\<lambda>shortname.
         kbind (fat32_allocate_cluster h priv) (\<lambda>(alloc, h).
           if alloc = 0 then Ok (ERROR_OUT_OF_SPACE, h)
           else let dir = (d_set_cluster alloc (dir_zero\<lparr>d_name := take 11 shortname\<rparr>))\<lparr>d_attr := ATTR_DIRECTORY\<rparr>
             in kbind (fat32_dir_insert_entry h priv cluster dir) (\<lambda>(ret, h).
               if ret < 0 then Ok (ret, h)
               else let dot = (d_set_cluster alloc (dir_zero\<lparr>d_name := bytes_of ''.          ''\<rparr>))
                          \<lparr>d_attr := ATTR_DIRECTORY\<rparr>
                 in kbind (fat32_dir_insert_entry h priv alloc dot) (\<lambda>(ret, h).
                   if ret < 0 then Ok (ret, h)
                   else let dotdot = dir_zero\<lparr>d_name := bytes_of ''..         ''\<rparr>;
                            dotdot = (if cluster \<noteq> root_cluster (boot_sector priv)
                                      then d_set_cluster cluster dotdot else dotdot)
                     in fat32_dir_insert_entry h priv alloc (dotdot\<lparr>d_attr := ATTR_DIRECTORY\<rparr>)))))))"

definition fat32_file_remove :: "'d hal \<Rightarrow> FAT32Private \<Rightarrow> VfsPath \<Rightarrow> (int \<times> 'd hal) kres" where
  "fat32_file_remove h priv path =
     kbind (fat32_target_dir h priv path) (\<lambda>(cluster, filename, h).
     kbind (fat32_dir_search h priv cluster filename (dir_uninit h)) (\<lambda>(ent_idx, search_dir, h).
       if ent_idx < 0 then Ok (ent_idx, h)
       else if d_attr search_dir AND ATTR_DIRECTORY \<noteq> 0 then Ok (ERROR_NOT_FILE, h)
       else kbind (fat32_free_chain h priv (d_cluster search_dir)) (\<lambda>(r, h).
         if r < 0 then Ok (ERROR_WRITE_FAIL, h)
         else let search_dir = search_dir\<lparr>d_name := (d_name search_dir)[0 := 0xe5]\<rparr>
           in kbind (fat32_offset_cluster h priv cluster (of_int (ent_idx * 32))) (\<lambda>(clus, h).
             kbind (fat32_write_cluster h priv (bytes_of_dir search_dir) clus (entry_off priv (ent_idx * 32)) 32)
               (\<lambda>(r, h). if r < 0 then Ok (ERROR_WRITE_FAIL, h) else Ok (0, h))))))"

primrec fat32_write_inode_loop :: "'d hal \<Rightarrow> FAT32Private \<Rightarrow> VfsPath \<Rightarrow> FAT32DirEntry \<Rightarrow> u32 \<Rightarrow> nat \<Rightarrow> nat
    \<Rightarrow> (int \<times> u32 \<times> FAT32DirEntry \<times> 'd hal) kres" where
  "fat32_write_inode_loop h priv path dir cluster i 0 = Ok (0, cluster, dir, h)"
| "fat32_write_inode_loop h priv path dir cluster i (Suc n) =
     kbind (fat32_dir_search h priv cluster (path_part path i) dir) (\<lambda>(ino, dir, h).
       if ino < 0 then Ok (ERROR_NOT_EXIST, cluster, dir, h)
       else fat32_write_inode_loop h priv path dir (d_cluster dir) (Suc i) n)"

text \<open>With no parts the code reads before the path buffer.\<close>

definition fat32_write_inode :: "'d hal \<Rightarrow> FAT32Private \<Rightarrow> VfsPath \<Rightarrow> FAT32DirEntry \<Rightarrow> (int \<times> 'd hal) kres" where
  "fat32_write_inode h priv path dir_dest =
     (if parts path < 1 then Fault
      else kbind (fat32_write_inode_loop h priv path (dir_uninit h) (root_cluster (boot_sector priv)) 0
                    (nat (parts path - 1))) (\<lambda>(r, cluster, dir, h).
        if r < 0 then Ok (r, h)
        else kbind (fat32_dir_search h priv cluster (path_part path (nat (parts path - 1))) dir) (\<lambda>(ino, dir, h).
          if ino < 0 then Ok (ERROR_NOT_EXIST, h)
          else kbind (fat32_offset_cluster h priv cluster (of_int (ino * 32))) (\<lambda>(clus, h).
            fat32_write_cluster h priv (bytes_of_dir dir_dest) clus (entry_off priv (ino * 32)) 32))))"

definition fat32_update_size :: "'d hal \<Rightarrow> FAT32Private \<Rightarrow> VfsPath \<Rightarrow> u32 \<Rightarrow> (int \<times> 'd hal) kres" where
  "fat32_update_size h priv path sz =
     kbind (fat32_path_search h priv path (dir_uninit h)) (\<lambda>(r, dir, h).
       if r < 0 then Ok (ERROR_NOT_EXIST, h)
       else fat32_write_inode h priv path (dir\<lparr>d_size := sz\<rparr>))"

definition fat32_file_create :: "'d hal \<Rightarrow> FAT32Private \<Rightarrow> VfsPath \<Rightarrow> (int \<times> 'd hal) kres" where
  "fat32_file_create h priv path =
     kbind (fat32_target_dir h priv path) (\<lambda>(cluster, filename, h).
       kbind (fat32_file_get_short_name filename) (\<lambda>shortname.
         kbind (fat32_allocate_cluster h priv) (\<lambda>(alloc, h).
           if alloc = 0 then Ok (ERROR_OUT_OF_SPACE, h)
           else fat32_dir_insert_entry h priv cluster
                  (d_set_cluster alloc (dir_zero\<lparr>d_name := take 11 shortname\<rparr>)))))"

section \<open>Mounting (mount.c)\<close>

definition bootsect_of_bytes :: "u8 list \<Rightarrow> FAT32BootSector" where
  "bootsect_of_bytes bs = \<lparr>sector_per_cluster = bs ! 13, reserved_sector = le16 bs 14,
     fat_number = bs ! 16, fat_size = le32 bs 36, root_cluster = le32 bs 44\<rparr>"

definition boot_fstype :: "u8 list \<Rightarrow> u8 list" where
  "boot_fstype bs = take 8 (drop 82 bs)"

definition fat32_mount :: "'d hal \<Rightarrow> int \<Rightarrow> (int \<times> FAT32Private option \<times> 'd hal) kres" where
  "fat32_mount h part_no =
     kbind (hal_partition_read h part_no 0 1 (junk h)) (\<lambda>(r, bootsect, h).
       if r < 0 then Ok (ERROR_READ_FAIL, None, h)
       else if strncmp_str (boot_fstype bootsect) (bytes_of ''FAT32'') 5 \<noteq> 0
       then Panic ''Mounting a non-FAT32 filesystem''
       else Ok (0, Some \<lparr>partition_id = of_int part_no, boot_sector = bootsect_of_bytes bootsect,
              fmode = 0x1ff, uid = 0, gid = 0\<rparr>, h))"

definition fat32_probe :: "'d hal \<Rightarrow> int \<Rightarrow> (int \<times> 'd hal) kres" where
  "fat32_probe h part_no =
     kbind (hal_partition_read h part_no 0 1 (junk h)) (\<lambda>(r, bootsect, h).
       if r < 0 then Ok (ERROR_READ_FAIL, h)
       else Ok (strncmp_str (boot_fstype bootsect) (bytes_of ''FAT32'') 5, h))"

definition fat32_set_default_attr :: "FAT32Private \<Rightarrow> u32 \<Rightarrow> u32 \<Rightarrow> u32 \<Rightarrow> FAT32Private" where
  "fat32_set_default_attr priv u g mode = priv\<lparr>uid := u, gid := g, fmode := mode\<rparr>"

end
