(* ===== verification/Fat32_Names.thy ===== *)
theory Fat32_Names
  imports Fat32_Dir
begin

text \<open>
  Facts about 8.3 names and the packed layout of directory entries: what \<open>fat32_get_full_name\<close>
  computes, that it inverts \<open>fat32_file_get_short_name\<close>, and that an entry survives being
  written to and read back from a sector.
\<close>

section \<open>The layout of an entry\<close>

lemma u16_assemble:
  fixes v :: u16
  shows "ucast (ucast v :: u8) OR push_bit 8 (ucast (ucast (drop_bit 8 v) :: u8)) = v" (is "?l = v")
proof (rule bit_word_eqI)
  fix n
  assume n: "n < LENGTH(16)"
  then have "n < 8 \<or> (8 \<le> n \<and> n < 16)" by auto
  then show "bit ?l n \<longleftrightarrow> bit v n" using n by (auto simp: bit_simps)
qed

lemma le16_bytes16: "le16 (xs @ bytes16 v @ ys) (length xs) = v"
  using u16_assemble [of v] by (simp add: le16_def bytes16_def nth_append)

lemma le32_bytes32: "le32 (xs @ bytes32 v @ ys) (length xs) = v"
  using u8_of_u32_assemble [of v] by (simp add: le32_def bytes32_def nth_append)

lemma length_bytes16 [simp]: "length (bytes16 v) = 2"
  by (simp add: bytes16_def)

lemma length_bytes32 [simp]: "length (bytes32 v) = 4"
  by (simp add: bytes32_def)

lemma length_bytes_of_dir: "length (d_name d) = 11 \<Longrightarrow> length (bytes_of_dir d) = 32"
  by (simp add: bytes_of_dir_def)

lemma dir_of_bytes_of_dir:
  assumes "length (d_name d) = 11"
  shows "dir_of_bytes (bytes_of_dir d) = d"
proof -
  have a: "d_attr (dir_of_bytes (bytes_of_dir d)) = d_attr d"
    "d_nt_reserved (dir_of_bytes (bytes_of_dir d)) = d_nt_reserved d"
    "d_create_time_millis (dir_of_bytes (bytes_of_dir d)) = d_create_time_millis d"
    "d_name (dir_of_bytes (bytes_of_dir d)) = d_name d"
    using assms by (simp_all add: dir_of_bytes_def bytes_of_dir_def nth_append)
  let ?h = "d_name d @ [d_attr d, d_nt_reserved d, d_create_time_millis d]"
  have w: "le16 (bytes_of_dir d) i = v"
    if "bytes_of_dir d = xs @ bytes16 v @ ys" "length xs = i" for i v xs ys
    using le16_bytes16 [of xs v ys] that by simp
  have b: "le16 (bytes_of_dir d) 14 = d_create_time d"
    by (rule w [where xs = ?h]) (use assms in \<open>simp_all add: bytes_of_dir_def\<close>)
  have c: "le16 (bytes_of_dir d) 16 = d_create_date d"
    by (rule w [where xs = "?h @ bytes16 (d_create_time d)"]) (use assms in \<open>simp_all add: bytes_of_dir_def\<close>)
  have e: "le16 (bytes_of_dir d) 18 = d_access_date d"
    by (rule w [where xs = "?h @ bytes16 (d_create_time d) @ bytes16 (d_create_date d)"])
      (use assms in \<open>simp_all add: bytes_of_dir_def\<close>)
  let ?k = "?h @ bytes16 (d_create_time d) @ bytes16 (d_create_date d) @ bytes16 (d_access_date d)"
  have f: "le16 (bytes_of_dir d) 20 = d_cluster_hi d"
    by (rule w [where xs = ?k]) (use assms in \<open>simp_all add: bytes_of_dir_def\<close>)
  have g: "le16 (bytes_of_dir d) 22 = d_write_time d"
    by (rule w [where xs = "?k @ bytes16 (d_cluster_hi d)"]) (use assms in \<open>simp_all add: bytes_of_dir_def\<close>)
  have i: "le16 (bytes_of_dir d) 24 = d_write_date d"
    by (rule w [where xs = "?k @ bytes16 (d_cluster_hi d) @ bytes16 (d_write_time d)"])
      (use assms in \<open>simp_all add: bytes_of_dir_def\<close>)
  let ?m = "?k @ bytes16 (d_cluster_hi d) @ bytes16 (d_write_time d) @ bytes16 (d_write_date d)"
  have j: "le16 (bytes_of_dir d) 26 = d_cluster_lo d"
    by (rule w [where xs = ?m]) (use assms in \<open>simp_all add: bytes_of_dir_def\<close>)
  have "bytes_of_dir d = (?m @ bytes16 (d_cluster_lo d)) @ bytes32 (d_size d) @ []"
    by (simp add: bytes_of_dir_def)
  moreover have "length (?m @ bytes16 (d_cluster_lo d)) = 28" using assms by simp
  ultimately have k: "le32 (bytes_of_dir d) 28 = d_size d" using le32_bytes32 by metis
  show ?thesis
    by (rule FAT32DirEntry.equality) (use a b c e f g i j k in \<open>simp_all add: dir_of_bytes_def\<close>)
qed

lemma d_cluster_set: "d_cluster (d_set_cluster c d) = c"
proof -
  have m: "0xffff = (mask 16 :: u32)" by (simp add: mask_eq_exp_minus_1)
  have "push_bit 16 (ucast (ucast (drop_bit 16 c AND 0xffff) :: u16)) OR ucast (ucast (c AND 0xffff) :: u16) = c"
    (is "?l = c")
    unfolding m
  proof (rule bit_word_eqI)
    fix n
    assume n: "n < LENGTH(32)"
    then have "n < 16 \<or> (16 \<le> n \<and> n < 32)" by auto
    then show "bit (push_bit 16 (ucast (ucast (drop_bit 16 c AND mask 16) :: u16))
        OR ucast (ucast (c AND mask 16) :: u16) :: u32) n \<longleftrightarrow> bit c n"
      using n by (auto simp: bit_simps)
  qed
  then show ?thesis by (simp add: d_cluster_def d_set_cluster_def)
qed

lemma d_set_cluster_simps [simp]:
  "d_name (d_set_cluster c d) = d_name d" "d_attr (d_set_cluster c d) = d_attr d"
  "d_size (d_set_cluster c d) = d_size d"
  by (simp_all add: d_set_cluster_def)

section \<open>Full names\<close>

text \<open>What \<open>fat32_get_full_name\<close> puts in front of the terminator.\<close>

definition full_of :: "u8 list \<Rightarrow> u8 list" where
  "full_of n = (let base = rev (dropWhile (\<lambda>c. c = 0x20) (rev (map to_lower (take 8 n))));
                    ext = takeWhile (\<lambda>c. c \<noteq> 0x20) (map to_lower (drop 8 n))
                in if ext = [] then base else base @ 0x2e # ext)"

definition base_ok :: "u8 list \<Rightarrow> bool" where
  "base_ok n \<longleftrightarrow> length n = 11 \<and> (\<exists>c \<in> set (take 8 n). c \<noteq> 0x20)"

lemma to_lower_space [simp]: "to_lower c = 0x20 \<longleftrightarrow> c = 0x20"
proof -
  have "to_lower c \<noteq> 0x20" if "0x41 \<le> c" "c \<le> 0x5a"
  proof
    assume "to_lower c = 0x20"
    with that have "c + 0x20 = 0x20" by (simp add: to_lower_def)
    then have "c = 0" by simp
    with that(1) show False by simp
  qed
  then show ?thesis by (auto simp: to_lower_def)
qed

lemma rstrip_shape:
  obtains k where "xs = rev (dropWhile (\<lambda>c. c = z) (rev xs)) @ replicate k z"
proof -
  have "rev xs = takeWhile (\<lambda>c. c = z) (rev xs) @ dropWhile (\<lambda>c. c = z) (rev xs)" by simp
  moreover have "takeWhile (\<lambda>c. c = z) ys = replicate (length (takeWhile (\<lambda>c. c = z) ys)) z" for ys
    by (induction ys) auto
  ultimately have "rev (rev xs) = rev (replicate (length (takeWhile (\<lambda>c. c = z) (rev xs))) z @ dropWhile (\<lambda>c. c = z) (rev xs))"
    by metis
  then have "xs = rev (dropWhile (\<lambda>c. c = z) (rev xs)) @ replicate (length (takeWhile (\<lambda>c. c = z) (rev xs))) z"
    by simp
  then show thesis by (rule that)
qed

lemma strip_end_ok:
  assumes "name ! b \<noteq> 0x20" and "\<And>i. b < i \<Longrightarrow> i \<le> n \<Longrightarrow> name ! i = 0x20" and "b \<le> n"
  shows "strip_end name n = Ok b"
  using assms
proof (induction n)
  case (Suc n)
  then show ?case by (cases "b = Suc n") auto
qed simp

lemma cname_intro:
  assumes "length s < length r" and "length s < n" and "\<And>i. i < length s \<Longrightarrow> r ! i = s ! i" and "r ! length s = 0"
  shows "cname n r = takeWhile (\<lambda>c. c \<noteq> 0) s"
proof -
  have "take (length s) r = s" using assms(1,3) by (intro nth_equalityI) auto
  then have "r = s @ 0 # drop (Suc (length s)) r"
    using assms(1,4) by (metis id_take_nth_drop)
  then have "take n r = s @ 0 # take (n - Suc (length s)) (drop (Suc (length s)) r)"
    using assms(2) by (metis Suc_diff_Suc append_take_drop_id diff_is_0_eq' less_imp_le take_Suc_Cons take_all_iff take_append)
  moreover have "takeWhile (\<lambda>c. c \<noteq> 0) (xs @ 0 # ys) = takeWhile (\<lambda>c. c \<noteq> 0) xs" for xs ys :: "u8 list"
    by (induction xs) auto
  ultimately show ?thesis by (simp only: cname_def)
qed

text \<open>The loop over the extension, on a buffer whose bytes 9 to 11 hold it.\<close>

lemma copy_ext_ok:
  assumes "name ! 9 = x" and "name ! 10 = y" and "name ! 11 = z" and "x \<noteq> 0x20"
    and "13 \<le> length name" and "off \<le> 7"
    and "ext = takeWhile (\<lambda>c. c \<noteq> 0x20) [x, y, z]" and "r = copy_ext name off [2, 3, 4]"
  shows "length r = length name"
    and "i \<le> off + 1 \<Longrightarrow> r ! i = name ! i"
    and "i < length ext \<Longrightarrow> r ! (off + 2 + i) = ext ! i"
    and "r ! (off + 2 + length ext) = 0"
proof -
  have n: "name ! (2 + 7) = x" "name ! (3 + 7) = y" "name ! (4 + 7) = z" using assms(1-3) by simp_all
  have r: "r = (if y = 0x20 then name[off + 2 := x, off + 3 := 0]
      else if z = 0x20 then name[off + 2 := x, off + 3 := y, off + 4 := 0]
      else name[off + 2 := x, off + 3 := y, off + 4 := z, off + 5 := 0])"
    unfolding assms(8) using n assms(4-6) by (simp add: nth_list_update)
  show "length r = length name" by (simp add: r)
  show "r ! i = name ! i" if "i \<le> off + 1" using that by (simp add: r)
  show "r ! (off + 2 + i) = ext ! i" if "i < length ext"
    using that assms(4-7) r by (auto simp: nth_list_update nth_Cons split: if_splits nat.splits)
  show "r ! (off + 2 + length ext) = 0" using assms(4-7) r by (auto simp: nth_list_update)
qed

lemma fat32_get_full_name_ok:
  assumes "base_ok (d_name d)" and "13 \<le> length buf"
  shows "\<exists>r. fat32_get_full_name d buf = Ok r \<and> length r = length buf
     \<and> (\<forall>n > 12. cname n r = takeWhile (\<lambda>c. c \<noteq> 0) (full_of (d_name d)))"
proof -
  define l where "l = map to_lower (d_name d)"
  have ll: "length l = 11" using assms(1) by (simp add: l_def base_ok_def)
  define base where "base = rev (dropWhile (\<lambda>c. c = 0x20) (rev (take 8 l)))"
  obtain k where k: "take 8 l = base @ replicate k 0x20" unfolding base_def by (rule rstrip_shape)
  have lk: "length base + k = 8" using arg_cong [OF k, of length] ll by simp
  have ne: "base \<noteq> []"
  proof
    assume "base = []"
    then have "\<forall>c \<in> set (take 8 l). c = 0x20" using k by (metis append_Nil in_set_replicate)
    then show False using assms(1) by (auto simp: l_def base_ok_def take_map)
  qed
  have "last base = hd (dropWhile (\<lambda>c. c = 0x20) (rev (take 8 l)))" by (simp only: base_def last_rev)
  moreover have "dropWhile (\<lambda>c. c = 0x20) (rev (take 8 l)) \<noteq> []" using ne by (simp only: base_def rev_is_Nil_conv not_False_eq_True)
  ultimately have "last base \<noteq> 0x20" using hd_dropWhile [of "\<lambda>c. c = 0x20" "rev (take 8 l)"] by simp
  then have lb: "base ! (length base - 1) \<noteq> 0x20" using last_conv_nth [OF ne] by simp
  define m where "m = overlay 11 l buf"
  define name where "name = m[11 := m ! 10, 10 := m ! 9, 9 := m ! 8]"
  have mi: "m ! i = l ! i" if "i < 11" for i using that ll by (simp add: m_def overlay_def nth_append)
  have lm: "length name = length buf" using ll assms(2) by (simp add: name_def m_def)
  have lm2: "length m = length buf" using ll assms(2) by (simp add: m_def)
  have ni: "name ! i = l ! i" if "i < 8" for i using that mi by (simp add: name_def)
  have nx: "name ! 9 = l ! 8" "name ! 10 = l ! 9" "name ! 11 = l ! 10"
    using mi lm2 assms(2) by (simp_all add: name_def)
  have nb: "name ! i = base ! i" if "i < length base" for i
    using that ni [of i] lk arg_cong [OF k, of "\<lambda>xs. xs ! i"] ll by (simp add: nth_append)
  have ns: "name ! i = 0x20" if "length base \<le> i" "i < 8" for i
    using that ni [of i] lk arg_cong [OF k, of "\<lambda>xs. xs ! i"] ll by (simp add: nth_append)
  define off where "off = length base - 1"
  have ol: "length base = off + 1" "off \<le> 7" using ne lk by (simp_all add: off_def)
  have so: "strip_end name 7 = Ok off"
    by (rule strip_end_ok) (use lb nb ns ol in auto)
  have ext3: "drop 8 l = [l ! 8, l ! 9, l ! 10]"
    using ll by (intro nth_equalityI) (auto simp: less_Suc_eq numeral_eq_Suc)
  have fo: "full_of (d_name d) = (let ext = takeWhile (\<lambda>c. c \<noteq> 0x20) (drop 8 l) in
      if ext = [] then base else base @ 0x2e # ext)"
    unfolding full_of_def base_def l_def Let_def by (simp only: take_map drop_map)
  have eq: "fat32_get_full_name d buf = (if l ! 8 = 0x20 then Ok (name[off + 1 := 0])
      else Ok (copy_ext (name[off + 1 := 0x2e]) off [2, 3, 4]))"
  proof -
    have "map to_lower (take 11 (d_name d)) = l" using assms(1) by (simp add: l_def base_ok_def)
    moreover have "(m[11 := m ! 10])[10 := m[11 := m ! 10] ! 9] = m[11 := m ! 10, 10 := m ! 9]" by simp
    moreover have "\<not> (length buf < 13 \<or> length (d_name d) < 11)" using assms by (simp add: base_ok_def)
    ultimately show ?thesis
      using so nx(1) unfolding fat32_get_full_name_def
      by (simp add: m_def [symmetric] name_def Let_def)
  qed
  show ?thesis
  proof (cases "l ! 8 = 0x20")
    case True
    then have "full_of (d_name d) = base" using fo ext3 by simp
    moreover have "cname n (name[off + 1 := 0]) = takeWhile (\<lambda>c. c \<noteq> 0) base" if "n > 12" for n
      by (rule cname_intro) (use ol lm assms(2) nb that in auto)
    ultimately show ?thesis using eq True lm by auto
  next
    case False
    define ext where "ext = takeWhile (\<lambda>c. c \<noteq> 0x20) [l ! 8, l ! 9, l ! 10]"
    define r where "r = copy_ext (name[off + 1 := 0x2e]) off [2, 3, 4]"
    have ce: "length r = length (name[off + 1 := 0x2e])" "\<And>i. i \<le> off + 1 \<Longrightarrow> r ! i = name[off + 1 := 0x2e] ! i"
      "\<And>i. i < length ext \<Longrightarrow> r ! (off + 2 + i) = ext ! i" "r ! (off + 2 + length ext) = 0"
      using copy_ext_ok [of "name[off + 1 := 0x2e]" "l ! 8" "l ! 9" "l ! 10" off ext r]
        False nx ol lm assms(2) ext_def r_def by simp_all
    have le: "length ext \<le> 3" unfolding ext_def by (metis length_takeWhile_le length_Cons list.size(3) numeral_3_eq_3)
    have fe: "full_of (d_name d) = base @ 0x2e # ext" using fo ext3 False by (simp add: ext_def)
    have "cname n r = takeWhile (\<lambda>c. c \<noteq> 0) (base @ 0x2e # ext)" if "n > 12" for n
    proof (rule cname_intro)
      show "length (base @ 0x2e # ext) < length r" "length (base @ 0x2e # ext) < n"
        using ol le ce(1) lm assms(2) that by simp_all
      show "r ! length (base @ 0x2e # ext) = 0" using ce(4) ol by simp
      show "r ! i = (base @ 0x2e # ext) ! i" if "i < length (base @ 0x2e # ext)" for i
      proof (cases "i \<le> off + 1")
        case True
        then show ?thesis using ce(2) [of i] ol nb [of i] lm assms(2)
          by (cases "i = off + 1") (auto simp: nth_append)
      next
        case False
        then obtain j where "i = off + 2 + j" by (metis add.assoc add_Suc_right le_Suc_ex not_less_eq_eq one_add_one plus_1_eq_Suc)
        then show ?thesis using ce(3) [of j] that ol by (simp add: nth_append)
      qed
    qed
    then show ?thesis using eq False fe r_def ce(1) lm by auto
  qed
qed

section \<open>Short names\<close>

definition name_char :: "u8 \<Rightarrow> bool" where
  "name_char c \<longleftrightarrow> c \<noteq> 0 \<and> c \<noteq> 0x20 \<and> c \<noteq> 0x2e \<and> \<not> (0x41 \<le> c \<and> c \<le> 0x5a)"

definition valid83 :: "u8 list \<Rightarrow> u8 list \<Rightarrow> bool" where
  "valid83 base ext \<longleftrightarrow> base \<noteq> [] \<and> length base \<le> 8 \<and> length ext \<le> 3 \<and> list_all name_char (base @ ext)"

definition name83 :: "u8 list \<Rightarrow> u8 list \<Rightarrow> u8 list" where
  "name83 base ext = (if ext = [] then base else base @ 0x2e # ext)"

definition short83 :: "u8 list \<Rightarrow> u8 list \<Rightarrow> u8 list" where
  "short83 base ext = map to_upper base @ replicate (8 - length base) 0x20
     @ map to_upper ext @ replicate (3 - length ext) 0x20"

lemma to_lower_upper: "name_char c \<Longrightarrow> to_lower (to_upper c) = c"
proof (cases "0x61 \<le> c \<and> c \<le> 0x7a")
  case True
  then have "0x20 \<le> c" by (simp add: word_le_nat_alt)
  then have "unat (c - 0x20) = unat c - unat (0x20 :: u8)" by (rule unat_sub)
  then have "0x41 \<le> c - 0x20 \<and> c - 0x20 \<le> 0x5a"
    using True by (auto simp: word_le_nat_alt)
  then show ?thesis using True by (simp add: to_lower_def to_upper_def)
qed (auto simp: name_char_def to_lower_def to_upper_def)

lemma to_upper_space: "name_char c \<Longrightarrow> to_upper c \<noteq> 0x20"
  using to_lower_upper [of c] to_lower_space [of "to_upper c"] by (auto simp: name_char_def to_lower_def)

lemma blit_Nil: "blit sh p [] = sh"
  by (simp add: blit_def)

lemma blit_Cons: "p < length sh \<Longrightarrow> blit sh p (x # xs) = blit (sh[p := x]) (p + 1) xs"
  by (simp add: blit_def take_Suc_conv_app_nth upd_conv_take_nth_drop add.commute)

lemma short_name_base:
  assumes "list_all name_char cs" and "p + length cs \<le> 8" and "8 \<le> length sh"
  shows "short_name_loop (cs @ rest) p sh = short_name_loop rest (p + length cs) (blit sh p (map to_upper cs))"
  using assms
proof (induction cs arbitrary: p sh)
  case (Cons c cs)
  have "c \<noteq> 0" "c \<noteq> 0x2e" "p + 1 \<noteq> 11" using Cons.prems by (auto simp: name_char_def)
  then show ?case
    using Cons.IH [of "p + 1" "sh[p := to_upper c]"] Cons.prems
    by (simp add: short_name_loop.simps [of "c # _"] Let_def blit_Cons)
qed (simp add: blit_Nil)

lemma short_name_ext:
  assumes "list_all name_char ext" and "ext \<noteq> []" and "length ext \<le> 3" and "length sh = 12"
  shows "short_name_loop (0x2e # ext @ 0 # rest) p sh = Ok (blit sh 8 (map to_upper ext))"
proof -
  consider x where "ext = [x]" | x y where "ext = [x, y]" | x y z where "ext = [x, y, z]"
    using assms(2,3) by (cases ext rule: list.exhaust; cases "tl ext"; cases "tl (tl ext)") auto
  then show ?thesis
    by cases (use assms(1,4) in \<open>auto simp: short_name_loop.simps [of "_ # _"] Let_def name_char_def blit_Cons blit_Nil\<close>)
qed

lemma short_name_ok:
  assumes "valid83 base ext"
  shows "\<exists>sh. fat32_file_get_short_name (name83 base ext @ 0 # rest) = Ok sh \<and> take 11 sh = short83 base ext"
proof -
  let ?s0 = "replicate 11 (0x20 :: u8) @ [0]"
  let ?s1 = "blit ?s0 0 (map to_upper base)"
  note v = assms [unfolded valid83_def]
  have s1: "?s1 = map to_upper base @ replicate (8 - length base) 0x20 @ replicate 3 0x20 @ [0]"
  proof -
    have "drop (length base) (replicate 11 (0x20 :: u8)) = replicate (8 - length base) 0x20 @ replicate 3 0x20"
      using v by (simp flip: replicate_add)
    then show ?thesis using v by (simp add: blit_def)
  qed
  have b: "short_name_loop (base @ r) 0 ?s0 = short_name_loop r (length base) ?s1" for r
    using short_name_base [of base 0 ?s0 r] v by simp
  show ?thesis
  proof (cases "ext = []")
    case True
    have "take 11 ?s1 = short83 base ext" unfolding s1 short83_def using v True by simp
    then show ?thesis
      using True b [of "0 # rest"]
      by (simp add: fat32_file_get_short_name_def name83_def short_name_loop.simps [of "0 # rest"])
  next
    case False
    have "take 11 (blit ?s1 8 (map to_upper ext)) = short83 base ext"
      unfolding s1 short83_def using v by (simp add: blit_def)
    moreover have "short_name_loop (0x2e # ext @ 0 # rest) (length base) ?s1 = Ok (blit ?s1 8 (map to_upper ext))"
      by (rule short_name_ext) (use v False s1 in auto)
    ultimately show ?thesis
      using False b [of "0x2e # ext @ 0 # rest"] by (simp add: fat32_file_get_short_name_def name83_def)
  qed
qed

lemma full_of_short83:
  assumes "valid83 base ext"
  shows "base_ok (short83 base ext)" and "full_of (short83 base ext) = name83 base ext"
proof -
  note v = assms [unfolded valid83_def]
  have lu: "map to_lower (map to_upper xs) = xs" if "list_all name_char xs" for xs
    using that by (induction xs) (auto simp: to_lower_upper)
  have t: "take 8 (short83 base ext) = map to_upper base @ replicate (8 - length base) 0x20"
    "drop 8 (short83 base ext) = map to_upper ext @ replicate (3 - length ext) 0x20"
    using v by (simp_all add: short83_def)
  obtain x xs where base: "base = x # xs" using v by (cases base) auto
  then have "to_upper x \<noteq> 0x20" using v to_upper_space by simp
  then show "base_ok (short83 base ext)"
    unfolding base_ok_def t(1) using v base by (auto simp: short83_def)
  have s: "to_lower 0x20 = 0x20" by simp
  have "map to_lower (take 8 (short83 base ext)) = base @ replicate (8 - length base) 0x20"
    unfolding t using lu [of base] v s by (simp add: map_replicate)
  moreover have "dropWhile (\<lambda>c. c = 0x20) (rev (base @ replicate k 0x20)) = rev base" for k
  proof -
    have "last base \<noteq> 0x20" using v last_in_set [of base] by (auto simp: name_char_def list_all_iff)
    then have "dropWhile (\<lambda>c. c = 0x20) (rev base) = rev base"
      using v by (cases base rule: rev_cases) auto
    moreover have "dropWhile (\<lambda>c. c = 0x20) (replicate k 0x20 @ ys) = dropWhile (\<lambda>c. c = 0x20) ys" for ys :: "u8 list"
      by (induction k) auto
    ultimately show ?thesis by simp
  qed
  moreover have "takeWhile (\<lambda>c. c \<noteq> 0x20) (map to_lower (drop 8 (short83 base ext))) = ext"
  proof -
    have e: "\<forall>c \<in> set ext. c \<noteq> 0x20" using v by (auto simp: name_char_def list_all_iff)
    have "map to_lower (drop 8 (short83 base ext)) = ext @ replicate (3 - length ext) 0x20"
      unfolding t using lu [of ext] v s by (simp add: map_replicate)
    moreover have "takeWhile (\<lambda>c. c \<noteq> 0x20) (ext @ replicate k 0x20) = ext" for k
      using e by (cases k) (auto simp: takeWhile_append2)
    ultimately show ?thesis by simp
  qed
  ultimately show "full_of (short83 base ext) = name83 base ext"
    by (simp add: full_of_def name83_def Let_def)
qed

section \<open>Properties\<close>

lemma valid83_nonzero: "valid83 base ext \<Longrightarrow> \<forall>c \<in> set (name83 base ext). c \<noteq> 0"
  by (auto simp: valid83_def name83_def name_char_def list_all_iff)



end
