(* ===== verification/Fat32_Lookup.thy ===== *)
theory Fat32_Lookup
  imports Fat32_Names
begin

text \<open>
  Directories as lists of entries: the loops of \<^verbatim>\<open>dir.c\<close> search, list and extend exactly the
  list of 32-byte entries that the clusters of the directory hold.
\<close>

section \<open>The entries of a directory\<close>

definition dir_entry :: "u8 list \<Rightarrow> nat \<Rightarrow> FAT32DirEntry" where
  "dir_entry bs j = dir_of_bytes (take 32 (drop (32 * j) bs))"

definition dir_entries :: "u8 list \<Rightarrow> FAT32DirEntry list" where
  "dir_entries bs = map (dir_entry bs) [0..<length bs div 32]"

lemma length_dir_entries [simp]: "length (dir_entries bs) = length bs div 32"
  by (simp add: dir_entries_def)

lemma clus_bytes_32: "clus_bytes priv = 32 * (unat (spc priv) * 16)"
  by simp

lemma entry_in_cluster:
  assumes "0 < spc priv"
  shows "32 * j mod clus_bytes priv + 32 \<le> clus_bytes priv"
proof -
  have s: "0 < unat (spc priv)" using assms by (simp add: unat_gt_0 word_gt_0)
  have "32 * j mod clus_bytes priv = 32 * (j mod (unat (spc priv) * 16))"
    unfolding clus_bytes_32 by (rule mult_mod_right [symmetric])
  moreover have "j mod (unat (spc priv) * 16) < unat (spc priv) * 16" using s by simp
  ultimately show ?thesis by simp
qed

lemma entry_off_nat:
  assumes "0 < spc priv"
  shows "unat (entry_off priv (int (32 * j))) = 32 * j mod clus_bytes priv"
proof -
  have e: "sgn (int (32 * j)) * (\<bar>int (32 * j)\<bar> mod (int (unat (spc priv)) * 512)) = int (32 * j mod clus_bytes priv)"
    by (cases "j = 0") (simp_all add: zmod_int)
  have "32 * j mod clus_bytes priv < 2 ^ 32"
  proof -
    have "32 * j mod clus_bytes priv \<le> clus_bytes priv" using entry_in_cluster [OF assms, of j] by simp
    also have "\<dots> \<le> 130560" using spc_le [of priv] by simp
    finally show ?thesis by simp
  qed
  then show ?thesis unfolding entry_off_def e of_int_of_nat_eq by (rule unat_of_nat_u32)
qed

lemma dir_fetch_ok:
  assumes "vol_ok drv disk priv h" and "0 < spc priv" and "chain (fat (vsect disk priv h) priv) c cs"
    and "\<forall>x \<in> set cs. x \<noteq> 0" and "32 * j < 2 ^ 31"
  obtains h' where "dir_fetch h priv c (int (32 * j)) =
      Ok (if 32 * j < length cs * clus_bytes priv
          then Some (0, cs ! (32 * j div clus_bytes priv), dir_entry (file_content (vsect disk priv h) priv cs) j)
          else None, h')"
    and "vol_ok drv disk priv h'" and "vsect disk priv h' = vsect disk priv h"
proof -
  let ?S = "vsect disk priv h" and ?k = "32 * j" and ?C = "clus_bytes priv"
  have C: "0 < ?C" using assms(2) by (simp add: unat_gt_0 word_gt_0)
  have u: "unat (of_int (int ?k) :: u32) = ?k"
    unfolding of_int_of_nat_eq by (rule unat_of_nat_u32) (use assms(5) in simp)
  have lt: "?k div ?C < length cs \<longleftrightarrow> ?k < length cs * ?C" by (rule div_less_iff_less_mult [OF C])
  obtain h1 where h1: "fat32_offset_cluster h priv c (of_int (int ?k)) =
      Ok (if ?k < length cs * ?C then cs ! (?k div ?C) else 0, h1)"
    "vol_ok drv disk priv h1" "vsect disk priv h1 = ?S"
    by (rule fat32_offset_cluster_ok [OF assms(1,3,2), of "of_int (int ?k)"]) (use u lt in simp)
  show thesis
  proof (cases "?k < length cs * ?C")
    case False
    then show thesis using h1 by (intro that [of h1]) (simp_all add: dir_fetch_def)
  next
    case True
    let ?clus = "cs ! (?k div ?C)"
    have "?k div ?C < length cs" using True lt by simp
    then have nz: "?clus \<noteq> 0" using assms(4) nth_mem by blast
    have l32: "length (take 32 (junk h1)) = 32" using vol_junk [OF h1(2)] by simp
    have eo: "unat (entry_off priv (int ?k)) + unat (32 :: u32) < 2 ^ 32"
      using entry_off_nat [OF assms(2), of j] entry_in_cluster [OF assms(2), of j] spc_le [of priv] by simp
    obtain h2 where h2: "fat32_read_cluster h1 priv (take 32 (junk h1)) ?clus (entry_off priv (int ?k)) 32 =
        Ok (0, blit (take 32 (junk h1)) 0 (area_bytes ?S (fat32_cluster_to_sector priv ?clus)
          (?k mod ?C) 32), h2)" "vol_ok drv disk priv h2" "vsect disk priv h2 = ?S"
      by (rule fat32_read_cluster_ok [OF h1(2) eo, of "take 32 (junk h1)" ?clus])
        (use l32 h1(3) entry_off_nat [OF assms(2), of j] in simp_all)
    have "?k + 32 \<le> length cs * ?C"
    proof -
      obtain m where m: "length cs * ?C = 32 * m" by (rule that [of "length cs * (unat (spc priv) * 16)"]) simp
      have "j < m" using True unfolding m by simp
      then show ?thesis unfolding m by simp
    qed
    then have "area_bytes ?S (fat32_cluster_to_sector priv ?clus) (?k mod ?C) 32 =
        take 32 (drop ?k (file_content ?S priv cs))"
      using file_bytes_cluster [OF entry_in_cluster [OF assms(2), of j], of ?S cs] file_bytes_content [of ?k 32 cs priv ?S]
      by simp
    then show thesis
      using h1(1) h2 True nz l32 by (intro that [of h2]) (simp_all add: dir_fetch_def dir_entry_def blit_def)
  qed
qed

section \<open>Looking a name up\<close>

definition dir_name :: "FAT32DirEntry \<Rightarrow> u8 list" where
  "dir_name d = takeWhile (\<lambda>c. c \<noteq> 0) (full_of (d_name d))"

text \<open>The specification of a search, on the list of entries from position \<open>j\<close> on.\<close>

fun dir_lookup :: "u8 list \<Rightarrow> FAT32DirEntry list \<Rightarrow> nat \<Rightarrow> (nat \<times> FAT32DirEntry) option" where
  "dir_lookup name [] j = None"
| "dir_lookup name (d # ds) j =
     (if dir_skip d then dir_lookup name ds (Suc j)
      else if d_name d ! 0 = 0 then None
      else if dir_name d = name then Some (j, d)
      else dir_lookup name ds (Suc j))"

definition names_ok :: "FAT32DirEntry list \<Rightarrow> bool" where
  "names_ok ds \<longleftrightarrow> (\<forall>d \<in> set ds. \<not> dir_skip d \<longrightarrow> d_name d ! 0 \<noteq> 0 \<longrightarrow> base_ok (d_name d))"

text \<open>A directory the loops can walk: a chain of clusters, shorter than what an int counts.\<close>

definition dir_ok :: "(u32 \<Rightarrow> u8 list) \<Rightarrow> FAT32Private \<Rightarrow> u32 \<Rightarrow> u32 list \<Rightarrow> bool" where
  "dir_ok S priv c cs \<longleftrightarrow> 0 < spc priv \<and> chain (fat S priv) c cs \<and> (\<forall>x \<in> set cs. x \<noteq> 0)
     \<and> length cs * clus_bytes priv < 2 ^ 31 \<and> names_ok (dir_entries (file_content S priv cs))"

lemma dir_entries_drop:
  assumes "j < length bs div 32"
  shows "drop j (dir_entries bs) = dir_entry bs j # drop (Suc j) (dir_entries bs)"
  using assms by (subst Cons_nth_drop_Suc [symmetric]) (simp_all add: dir_entries_def)

lemma cdiv_32: "cdiv (32 * int j) 32 = int j"
  by (cases "j = 0") (simp_all add: cdiv_def)

lemma length_dir_content: "length (file_content S priv cs) div 32 = length cs * (unat (spc priv) * 16)"
  by simp

lemma entries_index: "32 * j < length cs * clus_bytes priv \<longleftrightarrow> j < length (dir_entries (file_content S priv cs))"
  by auto

lemma fat32_dir_search_loop_ok:
  assumes "vol_ok drv disk priv h" and "dir_ok (vsect disk priv h) priv c cs"
    and "j \<le> length (dir_entries (file_content (vsect disk priv h) priv cs))"
  shows "\<exists>h'. fat32_dir_search_loop h priv c name dest (int (32 * j)) =
       Some (Ok (case dir_lookup (cname 256 name) (drop j (dir_entries (file_content (vsect disk priv h) priv cs))) j of
          None \<Rightarrow> (ERROR_NOT_EXIST, dest, h') | Some (k, d) \<Rightarrow> (int k, d, h')))
     \<and> vol_ok drv disk priv h' \<and> vsect disk priv h' = vsect disk priv h"
  using assms
proof (induction "length (dir_entries (file_content (vsect disk priv h) priv cs)) - j" arbitrary: h j)
  case 0
  let ?E = "dir_entries (file_content (vsect disk priv h) priv cs)"
  have j: "j = length ?E" using 0 by simp
  have b: "32 * j < 2 ^ 31" "\<not> 32 * j < length cs * clus_bytes priv"
    using 0(3) j entries_index [of j cs priv "vsect disk priv h"] by (auto simp: dir_ok_def)
  obtain h' where "dir_fetch h priv c (int (32 * j)) = Ok (None, h')"
    "vol_ok drv disk priv h'" "vsect disk priv h' = vsect disk priv h"
    by (rule dir_fetch_ok [OF 0(2) _ _ _ b(1), of c cs]) (use 0(3) b(2) in \<open>simp_all add: dir_ok_def\<close>)
  moreover have "\<not> int_overflow (int (32 * j))" using b(1) by (simp add: int_overflow_def)
  moreover have "drop j ?E = []" using j by simp
  ultimately show ?case by (simp add: fat32_dir_search_loop.simps [of h])
next
  case (Suc n)
  let ?F = "file_content (vsect disk priv h) priv cs"
  let ?E = "dir_entries ?F"
  have j: "j < length ?E" using Suc.hyps(2) by simp
  have jb: "32 * j < length cs * clus_bytes priv" using j entries_index by blast
  have b: "32 * j < 2 ^ 31" using jb Suc.prems(2) by (simp add: dir_ok_def)
  obtain h1 where h1: "dir_fetch h priv c (int (32 * j)) = Ok (Some (0, cs ! (32 * j div clus_bytes priv), dir_entry ?F j), h1)"
    "vol_ok drv disk priv h1" "vsect disk priv h1 = vsect disk priv h"
    by (rule dir_fetch_ok [OF Suc.prems(1) _ _ _ b, of c cs]) (use Suc.prems(2) jb in \<open>simp_all add: dir_ok_def\<close>)
  let ?d = "dir_entry ?F j"
  have dr: "drop j ?E = ?d # drop (Suc j) ?E" using j by (intro dir_entries_drop) simp
  have ok1: "dir_ok (vsect disk priv h1) priv c cs" using Suc.prems(2) h1(3) by simp
  have n1: "n = length (dir_entries (file_content (vsect disk priv h1) priv cs)) - Suc j"
    and l1: "Suc j \<le> length (dir_entries (file_content (vsect disk priv h1) priv cs))"
    using Suc.hyps(2) j h1(3) by simp_all
  have nxt: "int (32 * j) + 32 = int (32 * Suc j)" by simp
  note IH = Suc.hyps(1) [OF n1 h1(2) ok1 l1, unfolded h1(3)]
  have ov: "\<not> int_overflow (int (32 * j))" using b by (simp add: int_overflow_def)
  note unf = fat32_dir_search_loop.simps [of h priv c name dest "int (32 * j)"]
  show ?case
  proof (cases "dir_skip ?d \<or> d_name ?d ! 0 = 0")
    case True
    then show ?thesis using IH h1 dr ov unfolding unf nxt by (auto simp: dir_skip_def)
  next
    case False
    have "?d \<in> set ?E" using j by (simp add: dir_entries_def)
    then have "base_ok (d_name ?d)" using Suc.prems(2) False by (simp add: dir_ok_def names_ok_def)
    moreover have "13 \<le> length (take 256 (junk h1))" using vol_junk [OF h1(2)] by simp
    ultimately obtain r where r: "fat32_get_full_name ?d (take 256 (junk h1)) = Ok r" "cname 256 r = dir_name ?d"
      using fat32_get_full_name_ok [of ?d "take 256 (junk h1)"] by (auto simp: dir_name_def)
    show ?thesis
    proof (cases "dir_name ?d = cname 256 name")
      case True
      then have "strncmp_str name r 256 = 0" using r(2) by (simp add: strncmp_str_cname)
      then show ?thesis using h1 dr ov False r(1) True unfolding unf by (simp add: cdiv_32)
    next
      case ne: False
      then have "strncmp_str name r 256 \<noteq> 0" using r(2) by (auto simp: strncmp_str_cname)
      then show ?thesis using IH h1 dr ov False r(1) ne unfolding unf nxt by simp
    qed
  qed
qed

lemma fat32_dir_search_ok:
  assumes "vol_ok drv disk priv h" and "dir_ok (vsect disk priv h) priv c cs"
  obtains h' where "fat32_dir_search h priv c name dest =
      Ok (case dir_lookup (cname 256 name) (dir_entries (file_content (vsect disk priv h) priv cs)) 0 of
          None \<Rightarrow> (ERROR_NOT_EXIST, dest, h') | Some (k, d) \<Rightarrow> (int k, d, h'))"
    and "vol_ok drv disk priv h'" and "vsect disk priv h' = vsect disk priv h"
  using fat32_dir_search_loop_ok [OF assms, of 0 name dest] by (auto simp: fat32_dir_search_def)

section \<open>Inserting an entry\<close>

definition dir_free :: "FAT32DirEntry \<Rightarrow> bool" where
  "dir_free d \<longleftrightarrow> d_name d ! 0 = 0xe5 \<or> d_name d ! 0 = 0"

lemma fat32_insert_loop_ok:
  assumes "vol_ok drv disk priv h" and "dir_ok (vsect disk priv h) priv c cs" and "length (d_name dirent) = 11"
    and "j \<le> k" and "k < length (dir_entries (file_content (vsect disk priv h) priv cs))"
    and "dir_free (dir_entries (file_content (vsect disk priv h) priv cs) ! k)"
    and "\<forall>i. j \<le> i \<and> i < k \<longrightarrow> \<not> dir_free (dir_entries (file_content (vsect disk priv h) priv cs) ! i)"
  shows "\<exists>h'. fat32_insert_loop h priv c dirent (int (32 * j)) = Some (Ok (Some 0, h'))
     \<and> vol_ok drv disk priv h'
     \<and> vsect disk priv h' = area_write (vsect disk priv h)
          (fat32_cluster_to_sector priv (cs ! (32 * k div clus_bytes priv))) (32 * k mod clus_bytes priv) (bytes_of_dir dirent)"
  using assms
proof (induction "k - j" arbitrary: h j)
  case 0
  let ?F = "file_content (vsect disk priv h) priv cs" and ?clus = "cs ! (32 * k div clus_bytes priv)"
  have j: "j = k" using 0 by simp
  have jb: "32 * k < length cs * clus_bytes priv" using 0(6) entries_index by blast
  have b: "32 * k < 2 ^ 31" using jb 0(3) by (simp add: dir_ok_def)
  have spc: "0 < spc priv" using 0(3) by (simp add: dir_ok_def)
  have ov: "\<not> int_overflow (int (32 * k))" using b by (simp add: int_overflow_def)
  obtain h1 where h1: "dir_fetch h priv c (int (32 * k)) = Ok (Some (0, ?clus, dir_entry ?F k), h1)"
    "vol_ok drv disk priv h1" "vsect disk priv h1 = vsect disk priv h"
    by (rule dir_fetch_ok [OF 0(2) _ _ _ b, of c cs]) (use 0(3) jb in \<open>simp_all add: dir_ok_def\<close>)
  have eo: "unat (entry_off priv (int (32 * k))) + unat (32 :: u32) < 2 ^ 32"
    using entry_off_nat [OF spc, of k] entry_in_cluster [OF spc, of k] spc_le [of priv] by simp
  obtain h2 where h2: "fat32_write_cluster h1 priv (bytes_of_dir dirent) ?clus (entry_off priv (int (32 * k))) 32 = Ok (0, h2)"
    "vol_ok drv disk priv h2"
    "vsect disk priv h2 = area_write (vsect disk priv h1) (fat32_cluster_to_sector priv ?clus)
      (unat (entry_off priv (int (32 * k)))) (take (unat (32 :: u32)) (bytes_of_dir dirent))"
    by (rule fat32_write_cluster_ok [OF h1(2) eo, of "bytes_of_dir dirent" ?clus])
      (use 0(4) in \<open>simp_all add: length_bytes_of_dir\<close>)
  have "dir_free (dir_entry ?F k)" using 0(6,7) by (simp add: dir_entries_def)
  then have "fat32_insert_loop h priv c dirent (int (32 * k)) = Some (Ok (Some 0, h2))"
    unfolding fat32_insert_loop.simps [of h priv c dirent "int (32 * k)"]
    using h1(1) h2(1) ov by (simp add: dir_free_def)
  then show ?case
    using j h2(2,3) h1(3) entry_off_nat [OF spc, of k] 0(4) by (simp add: length_bytes_of_dir)
next
  case (Suc n)
  let ?F = "file_content (vsect disk priv h) priv cs"
  have jk: "j < k" and j: "j < length (dir_entries ?F)" using Suc.hyps(2) Suc.prems(5) by simp_all
  have jb: "32 * j < length cs * clus_bytes priv" using j entries_index by blast
  have b: "32 * j < 2 ^ 31" using jb Suc.prems(2) by (simp add: dir_ok_def)
  have ov: "\<not> int_overflow (int (32 * j))" using b by (simp add: int_overflow_def)
  obtain h1 where h1: "dir_fetch h priv c (int (32 * j)) = Ok (Some (0, cs ! (32 * j div clus_bytes priv), dir_entry ?F j), h1)"
    "vol_ok drv disk priv h1" "vsect disk priv h1 = vsect disk priv h"
    by (rule dir_fetch_ok [OF Suc.prems(1) _ _ _ b, of c cs]) (use Suc.prems(2) jb in \<open>simp_all add: dir_ok_def\<close>)
  have "\<not> dir_free (dir_entry ?F j)" using Suc.prems(7) jk j by (auto simp: dir_entries_def)
  then have st: "fat32_insert_loop h priv c dirent (int (32 * j)) = fat32_insert_loop h1 priv c dirent (int (32 * Suc j))"
    unfolding fat32_insert_loop.simps [of h priv c dirent "int (32 * j)"]
    using h1(1) ov by (simp add: dir_free_def add.commute)
  show ?case
    unfolding st using Suc.hyps(1) [of "Suc j" h1] Suc.hyps(2) Suc.prems h1(2,3) jk by simp
qed

lemma dir_entries_blit:
  assumes "32 * k + 32 \<le> length bs" and "length (d_name d) = 11"
  shows "dir_entries (blit bs (32 * k) (bytes_of_dir d)) = (dir_entries bs)[k := d]"
proof (rule nth_equalityI)
  have l: "length (bytes_of_dir d) = 32" using assms(2) by (rule length_bytes_of_dir)
  then show "length (dir_entries (blit bs (32 * k) (bytes_of_dir d))) = length ((dir_entries bs)[k := d])"
    using assms(1) by simp
  fix i
  assume "i < length (dir_entries (blit bs (32 * k) (bytes_of_dir d)))"
  then have i: "i < length bs div 32" using l assms(1) by simp
  then have i32: "32 * i + 32 \<le> length bs" by linarith
  have "take 32 (drop (32 * i) (blit bs (32 * k) (bytes_of_dir d))) =
      (if i = k then bytes_of_dir d else take 32 (drop (32 * i) bs))"
  proof (rule nth_equalityI)
    fix m
    assume "m < length (take 32 (drop (32 * i) (blit bs (32 * k) (bytes_of_dir d))))"
    then have m: "m < 32" by simp
    have "32 * k \<le> 32 * i + m \<and> 32 * i + m < 32 * k + 32 \<longleftrightarrow> i = k" using m by auto
    then show "take 32 (drop (32 * i) (blit bs (32 * k) (bytes_of_dir d))) ! m =
        (if i = k then bytes_of_dir d else take 32 (drop (32 * i) bs)) ! m"
      using m i32 assms(1) l by (simp add: nth_blit)
  qed (use i32 assms(1) l in auto)
  then show "dir_entries (blit bs (32 * k) (bytes_of_dir d)) ! i = (dir_entries bs)[k := d] ! i"
    using i l assms by (auto simp: dir_entries_def dir_entry_def dir_of_bytes_of_dir nth_list_update)
qed

text \<open>After the first unused entry every entry is unused, as FAT requires.\<close>

fun terminated :: "FAT32DirEntry list \<Rightarrow> bool" where
  "terminated [] \<longleftrightarrow> True"
| "terminated (d # ds) \<longleftrightarrow> (if d_name d ! 0 = 0 then \<forall>e \<in> set ds. d_name e ! 0 = 0 else terminated ds)"

lemma dir_lookup_zero: "\<forall>e \<in> set ds. d_name e ! 0 = 0 \<Longrightarrow> dir_lookup name ds j = None"
  by (cases ds) (auto simp: dir_skip_def)

lemma dir_lookup_inserted:
  assumes "k < length ds" and "dir_free (ds ! k)" and "\<forall>i < k. \<not> dir_free (ds ! i)"
    and "\<not> dir_skip d" and "d_name d ! 0 \<noteq> 0"
  shows "dir_lookup (dir_name d) ds j = None \<Longrightarrow> dir_lookup (dir_name d) (ds[k := d]) j = Some (j + k, d)"
    and "terminated ds \<Longrightarrow> m \<noteq> dir_name d \<Longrightarrow> dir_lookup m (ds[k := d]) j = dir_lookup m ds j"
proof -
  show "dir_lookup (dir_name d) (ds[k := d]) j = Some (j + k, d)" if "dir_lookup (dir_name d) ds j = None"
    using assms that
  proof (induction k arbitrary: ds j)
    case 0
    then show ?case by (cases ds) auto
  next
    case (Suc k)
    then obtain x xs where ds: "ds = x # xs" by (cases ds) auto
    have "\<not> dir_free x" using Suc.prems(3) ds by auto
    moreover have "\<forall>i < k. \<not> dir_free (xs ! i)" using Suc.prems(3) ds by auto
    ultimately show ?case
      using Suc.prems ds Suc.IH [of xs "Suc j"] by (auto simp: dir_free_def split: if_splits)
  qed
  show "dir_lookup m (ds[k := d]) j = dir_lookup m ds j" if "terminated ds" "m \<noteq> dir_name d"
    using assms that
  proof (induction k arbitrary: ds j)
    case 0
    then obtain x xs where ds: "ds = x # xs" by (cases ds) auto
    then show ?case using 0 dir_lookup_zero [of xs m "Suc j"] by (auto simp: dir_free_def dir_skip_def)
  next
    case (Suc k)
    then obtain x xs where ds: "ds = x # xs" by (cases ds) auto
    have "\<not> dir_free x" using Suc.prems(3) ds by auto
    moreover have "\<forall>i < k. \<not> dir_free (xs ! i)" using Suc.prems(3) ds by auto
    ultimately show ?case
      using Suc.prems ds Suc.IH [of xs "Suc j"] by (auto simp: dir_free_def)
  qed
qed

lemma fat32_dir_insert_ok:
  assumes "vol_ok drv disk priv h" and "layout_ok priv" and "file_ok (vsect disk priv h) priv c cs"
    and "dir_ok (vsect disk priv h) priv c cs" and "base_ok (d_name dirent)"
    and "E = dir_entries (file_content (vsect disk priv h) priv cs)"
    and "k < length E" and "dir_free (E ! k)" and "\<forall>i < k. \<not> dir_free (E ! i)"
  obtains h' where "fat32_dir_insert_entry h priv c dirent = Ok (0, h')" and "vol_ok drv disk priv h'"
    and "extended priv c cs [] (vsect disk priv h) (vsect disk priv h')"
    and "dir_entries (file_content (vsect disk priv h') priv cs) = E[k := dirent]"
    and "dir_ok (vsect disk priv h') priv c cs"
proof -
  let ?S = "vsect disk priv h" and ?C = "clus_bytes priv"
  note fo = assms(3) [unfolded file_ok_def]
  have spc: "0 < spc priv" using assms(2) by (simp add: layout_ok_def)
  have l11: "length (d_name dirent) = 11" using assms(5) by (simp add: base_ok_def)
  obtain h1 where h1: "fat32_insert_loop h priv c dirent (int (32 * 0)) = Some (Ok (Some 0, h1))"
    "vol_ok drv disk priv h1" "vsect disk priv h1 = area_write ?S
        (fat32_cluster_to_sector priv (cs ! (32 * k div ?C))) (32 * k mod ?C) (bytes_of_dir dirent)"
    using fat32_insert_loop_ok [OF assms(1,4) l11, of 0 k] assms(6-9) by auto
  have kb: "32 * k < length cs * ?C" using assms(6,7) entries_index by blast
  have C: "0 < ?C" using spc by (simp add: unat_gt_0 word_gt_0)
  have kc: "32 * k div ?C < length cs" unfolding div_less_iff_less_mult [OF C] by (rule kb)
  have ib: "32 * k mod ?C + length (bytes_of_dir dirent) \<le> ?C"
    using entry_in_cluster [OF spc, of k] length_bytes_of_dir [OF l11] by simp
  note W = extended_write [OF assms(2) _ _ _ kc ib vsect_length [OF assms(1)] h1(3)]
  have ex: "extended priv c cs [] ?S (vsect disk priv h1)" by (rule W(1)) (use fo in simp_all)
  have "file_content (vsect disk priv h1) priv cs = blit (file_content ?S priv cs) (32 * k) (bytes_of_dir dirent)"
    using W(2) [of c cs "32 * k div ?C"] fo kc by (simp only: div_mult_mod_eq) simp
  moreover have "32 * k + 32 \<le> length (file_content ?S priv cs)"
    using assms(6,7) by simp
  ultimately have en: "dir_entries (file_content (vsect disk priv h1) priv cs) = E[k := dirent]"
    using dir_entries_blit [OF _ l11] assms(6) by simp
  have "names_ok (E[k := dirent])"
    using assms(4-6) set_update_subset_insert [of E k dirent] by (fastforce simp: dir_ok_def names_ok_def)
  then have "dir_ok (vsect disk priv h1) priv c cs"
    using assms(4) extendedD(1) [OF ex] en by (simp add: dir_ok_def)
  then show thesis
    using that h1(1,2) ex en by (simp add: fat32_dir_insert_entry_def)
qed

section \<open>Creating a file\<close>

lemma dir_zero_simps [simp]: "d_attr dir_zero = 0" "length (d_name dir_zero) = 11"
  by (simp_all add: dir_zero_def dir_of_bytes_def)

lemma to_upper_first:
  assumes "valid83 base ext" and "hd base \<noteq> 0xe5"
  shows "short83 base ext ! 0 \<noteq> 0" and "short83 base ext ! 0 \<noteq> 0xe5"
proof -
  obtain x xs where b: "base = x # xs" "name_char x" using assms(1) by (cases base) (auto simp: valid83_def)
  have s: "short83 base ext ! 0 = to_upper x" by (simp add: short83_def b)
  have l: "to_lower (to_upper x) = x" using b(2) by (rule to_lower_upper)
  have n: "x \<noteq> 0" "x \<noteq> 0xe5" using b assms(2) by (simp_all add: name_char_def)
  show "short83 base ext ! 0 \<noteq> 0" "short83 base ext ! 0 \<noteq> 0xe5"
    unfolding s using l n by (auto simp: to_lower_def)
qed

lemma fat_updated_file_ok:
  assumes "fat_updated priv e 0x0fffffff S S'" and "file_ok S priv c cs" and "e \<in> free_entries S priv"
  shows "file_ok S' priv c cs" and "e \<notin> set cs" and "file_content S' priv cs = file_content S priv cs"
proof -
  note fo = assms(2) [unfolded file_ok_def]
  have nz: "\<forall>x \<in> set cs. x \<noteq> 0" using fo by (auto simp: valid_cluster_def)
  show e: "e \<notin> set cs" using assms(3) chain_nonzero [OF conjunct1 [OF fo] nz] by (auto simp: free_entries_def)
  have r: "unat x < fat_range priv" if "x \<in> set cs" for x using fo that valid_fat_range by blast
  have "chain (fat S' priv) c cs"
    using fo chain_cong [of cs "fat S' priv" "fat S priv" c] fat_updatedD(1) [OF assms(1)] r e by fastforce
  moreover have "free_entries S' priv \<subseteq> free_entries S priv"
    using fat_updatedD(1) [OF assms(1)] by (auto simp: free_entries_def split: if_splits)
  ultimately show "file_ok S' priv c cs" using fo by (auto simp: file_ok_def)
  show "file_content S' priv cs = file_content S priv cs"
    by (rule file_content_cong) (use fo fat_updatedD(2) [OF assms(1)] in blast)
qed

section \<open>Properties\<close>

text \<open>
  C16. \<open>fat32_dir_search\<close> ends on every well-formed directory and returns the first live entry
  of that name before the end mark, with its index, leaving the caller's entry alone and returning
  \<open>ERROR_NOT_EXIST\<close> when there is none. It changes nothing on the volume.
\<close>

theorem fat32_dir_search_correct:
  assumes "vol_ok drv disk priv h" and "dir_ok (vsect disk priv h) priv c cs"
  shows "\<exists>h'. vol_ok drv disk priv h' \<and> vsect disk priv h' = vsect disk priv h \<and>
    fat32_dir_search h priv c name dest =
      (case dir_lookup (cname 256 name) (dir_entries (file_content (vsect disk priv h) priv cs)) 0 of
         None \<Rightarrow> Ok (ERROR_NOT_EXIST, dest, h') | Some (k, d) \<Rightarrow> Ok (int k, d, h'))"
  by (rule fat32_dir_search_ok [OF assms, of name dest]) (auto split: option.splits)

text \<open>A volume whose root directory is one empty cluster.\<close>

definition empty_root :: "u32 \<Rightarrow> u8 list" where
  "empty_root s = (if s = 64 \<or> s = 65 then small_fat else replicate 512 0)"

lemma empty_root_64: "empty_root 64 = small_fat"
  by (simp add: empty_root_def)

lemmas empty_root_file = ram_file [of empty_root, OF empty_root_64]

lemma empty_root_content: "file_content (ram_vsect empty_root) small_priv [2] = replicate 512 0"
proof (rule nth_equalityI)
  show "length (file_content (ram_vsect empty_root) small_priv [2]) = length (replicate 512 (0 :: u8))"
    by simp (simp add: small_priv_def)
  fix i
  assume "i < length (file_content (ram_vsect empty_root) small_priv [2])"
  then have "i < 512" by simp (simp add: small_priv_def)
  moreover have "ram_vsect empty_root 3 = replicate 512 0"
    using ram_vsect_at [of empty_root 3] by (simp add: empty_root_def)
  ultimately show "file_content (ram_vsect empty_root) small_priv [2] ! i = replicate 512 0 ! i"
    by (simp add: file_content_def cluster_content_def area_bytes_def fat32_cluster_to_sector_def)
      (simp add: small_priv_def)
qed

lemma empty_entries: "dir_entries (replicate 512 0) = replicate 16 dir_zero"
  by (intro nth_equalityI) (simp_all add: dir_entries_def dir_entry_def dir_zero_def min_def)

lemma empty_root_dir: "dir_ok (ram_vsect empty_root) small_priv 2 [2]"
proof -
  have "d_name dir_zero ! 0 = 0" by (simp add: dir_zero_def dir_of_bytes_def)
  then have "names_ok (replicate 16 dir_zero)" by (simp add: names_ok_def)
  moreover have "0 < spc small_priv" "clus_bytes small_priv = 512" by (simp_all add: small_priv_def)
  ultimately show ?thesis
    using empty_root_file by (simp add: dir_ok_def file_ok_def empty_root_content empty_entries)
qed

theorem fat32_dir_search_correct_witness:
  "\<exists>h'. fat32_dir_search (ram_hal empty_root) small_priv 2 (bytes_of ''a'') dir_zero =
      Ok (ERROR_NOT_EXIST, dir_zero, h')"
proof -
  have "d_name dir_zero ! 0 = 0" by (simp add: dir_zero_def dir_of_bytes_def)
  then have "dir_lookup m (replicate 16 dir_zero) 0 = None" for m
    by (intro dir_lookup_zero) simp
  then show ?thesis
    using fat32_dir_search_correct [OF ram_vol [of empty_root] empty_root_dir, of "bytes_of ''a''" dir_zero]
    by (auto simp: empty_root_content empty_entries)
qed



end
