(* ===== verification/Vfs.thy ===== *)
theory Vfs
  imports Fat32_Lookup
begin

text \<open>
  The virtual file system, \<^verbatim>\<open>kernel/filesystem/vfs\<close> (\<^verbatim>\<open>vfs.c\<close>, \<^verbatim>\<open>filedesc.c\<close>, \<^verbatim>\<open>dir.c\<close>) and the
  driver table of \<^verbatim>\<open>fs-driver.c\<close> and \<^verbatim>\<open>fat32.c\<close>. A file system driver is a record of operations on
  a state \<open>'s\<close> and a mount record \<open>'p\<close>; a null driver pointer is \<open>None\<close>. Freshly allocated
  pages have the contents \<open>page\<close>.
\<close>

section \<open>Drivers and the mount table\<close>

record ('p, 's) FilesystemDriver =
  fs_name :: "u8 list"
  fs_mount :: "'s \<Rightarrow> int \<Rightarrow> (int \<times> 'p option \<times> 's) kres"
  fs_probe :: "'s \<Rightarrow> int \<Rightarrow> (int \<times> 's) kres"
  fs_set_default_attr :: "'p \<Rightarrow> u32 \<Rightarrow> u32 \<Rightarrow> u32 \<Rightarrow> 'p"
  fs_dir_first_file :: "'s \<Rightarrow> 'p \<Rightarrow> u32 \<Rightarrow> (int \<times> 's) kres"
  fs_dir_read :: "'s \<Rightarrow> 'p \<Rightarrow> u8 list \<Rightarrow> u32 \<Rightarrow> u32 \<Rightarrow> (int \<times> u8 list \<times> 's) kres"
  fs_open :: "'s \<Rightarrow> 'p \<Rightarrow> VfsPath \<Rightarrow> (int \<times> 's) kres"
  fs_create_file :: "'s \<Rightarrow> 'p \<Rightarrow> VfsPath \<Rightarrow> (int \<times> 's) kres"
  fs_update_size :: "'s \<Rightarrow> 'p \<Rightarrow> VfsPath \<Rightarrow> u32 \<Rightarrow> (int \<times> 's) kres"
  fs_read :: "'s \<Rightarrow> 'p \<Rightarrow> u32 \<Rightarrow> u8 list \<Rightarrow> u32 \<Rightarrow> u32 \<Rightarrow> (int \<times> u8 list \<times> 's) kres"
  fs_write :: "'s \<Rightarrow> 'p \<Rightarrow> u32 \<Rightarrow> u8 list \<Rightarrow> u32 \<Rightarrow> u32 \<Rightarrow> (int \<times> 's) kres"
  fs_get_file_size :: "'s \<Rightarrow> 'p \<Rightarrow> VfsPath \<Rightarrow> (int \<times> 's) kres"
  fs_get_file_mode :: "'s \<Rightarrow> 'p \<Rightarrow> VfsPath \<Rightarrow> (int \<times> 's) kres"
  fs_create_directory :: "'s \<Rightarrow> 'p \<Rightarrow> VfsPath \<Rightarrow> (int \<times> 's) kres"
  fs_remove_file :: "'s \<Rightarrow> 'p \<Rightarrow> VfsPath \<Rightarrow> (int \<times> 's) kres"

definition fat32_driver :: "(FAT32Private, 'd hal) FilesystemDriver" where
  "fat32_driver = \<lparr>fs_name = bytes_of ''fat32'', fs_mount = fat32_mount, fs_probe = fat32_probe,
     fs_set_default_attr = fat32_set_default_attr, fs_dir_first_file = fat32_dir_first_file,
     fs_dir_read = fat32_dir_read, fs_open = fat32_open, fs_create_file = fat32_file_create,
     fs_update_size = fat32_update_size, fs_read = fat32_read, fs_write = fat32_write,
     fs_get_file_size = fat32_file_size, fs_get_file_mode = fat32_file_mode,
     fs_create_directory = fat32_mkdir, fs_remove_file = fat32_file_remove\<rparr>"

definition VFS_MOUNT_TABLE_MAX :: nat where "VFS_MOUNT_TABLE_MAX = 8"

record ('p, 's) VfsMountTableEntry =
  fs_driver :: "('p, 's) FilesystemDriver option"
  fs_private :: "'p option"

record ('p, 's) vfs =
  vfs_mount_table :: "('p, 's) VfsMountTableEntry list"
  cwd :: VfsPath
  page :: "u8 list"
  store :: 's

definition filesystem_register_driver ::
    "('p, 's) FilesystemDriver option \<Rightarrow> ('p, 's) FilesystemDriver \<Rightarrow> ('p, 's) FilesystemDriver option" where
  "filesystem_register_driver cur drv =
     (if strncmp_str (fs_name drv) (bytes_of ''fat32'') 10 = 0 then Some drv else cur)"

definition fat32_init ::
    "(FAT32Private, 'd hal) FilesystemDriver option \<Rightarrow> (FAT32Private, 'd hal) FilesystemDriver option" where
  "fat32_init cur = filesystem_register_driver cur fat32_driver"

text \<open>
  The loop of \<open>vfs_init\<close> over the partitions, from partition \<open>i\<close> on: the first partition it
  mounts ends it. \<open>fat32_drv\<close> is \<^verbatim>\<open>filesystem_fat32_driver\<close>.
\<close>

definition vfs_mount_here :: "('p, 's) FilesystemDriver option \<Rightarrow> ('p, 's) VfsMountTableEntry list \<Rightarrow> 's \<Rightarrow> nat \<Rightarrow> int
    \<Rightarrow> (nat \<times> ('p, 's) VfsMountTableEntry list \<times> 's) kres" where
  "vfs_mount_here fat32_drv tbl s fs_id i =
     (case fat32_drv of
        None \<Rightarrow> Fault
      | Some drv \<Rightarrow> kbind (fs_mount drv s i) (\<lambda>(_, priv, s).
          Ok (fs_id + 1, tbl[fs_id := \<lparr>fs_driver = Some drv, fs_private = priv\<rparr>], s)))"

fun vfs_init_loop :: "('p, 's) FilesystemDriver option \<Rightarrow> ('p, 's) VfsMountTableEntry list \<Rightarrow> 's \<Rightarrow> nat
    \<Rightarrow> HalPartitionFilesystemType list \<Rightarrow> int \<Rightarrow> (nat \<times> ('p, 's) VfsMountTableEntry list \<times> 's) kres" where
  "vfs_init_loop fat32_drv tbl s fs_id [] i = Ok (fs_id, tbl, s)"
| "vfs_init_loop fat32_drv tbl s fs_id (t # ts) i =
     (if t = HAL_PARTITION_TYPE_FAT32 then vfs_mount_here fat32_drv tbl s fs_id i
      else if t = HAL_PARTITION_TYPE_DATA
      then (case fat32_drv of
              None \<Rightarrow> Fault
            | Some drv \<Rightarrow> kbind (fs_probe drv s i) (\<lambda>(r, s).
                if r \<noteq> 0 then vfs_init_loop fat32_drv tbl s fs_id ts (i + 1)
                else vfs_mount_here fat32_drv tbl s fs_id i))
      else vfs_init_loop fat32_drv tbl s fs_id ts (i + 1))"

definition vfs_init :: "('p, 's) FilesystemDriver option \<Rightarrow> HalPartitionFilesystemType list \<Rightarrow> ('p, 's) vfs
    \<Rightarrow> ('p, 's) vfs kres" where
  "vfs_init fat32_drv types v =
     kbind (vfs_init_loop fat32_drv (replicate VFS_MOUNT_TABLE_MAX \<lparr>fs_driver = None, fs_private = None\<rparr>)
              (store v) 0 types 0) (\<lambda>(fs_id, tbl, s).
       if fs_id = 0 then Panic ''root filesystem not found''
       else Ok (v\<lparr>vfs_mount_table := tbl, store := s\<rparr>))"

definition vfs_path_to_fs :: "VfsPath \<Rightarrow> nat \<times> VfsPath" where
  "vfs_path_to_fs orig =
     (if parts orig = 0 then (0, orig\<lparr>parts := 0\<rparr>)
      else if strncmp_str (pathbuf orig) (bytes_of ''fat32'') 64 = 0
      then (1, \<lparr>parts = parts orig - 1, pathbuf = drop 128 (pathbuf orig)\<rparr>)
      else (0, orig))"

text \<open>
  The head that the operations on names share: split the name, put the working directory in front
  of a relative one, choose the file system.
\<close>

definition vfs_resolve :: "('p, 's) vfs \<Rightarrow> u8 list \<Rightarrow> (nat \<times> VfsPath) kres" where
  "vfs_resolve v filename =
     kbind (vfs_path_split filename (page v)) (\<lambda>(n, buf).
       let filepath = \<lparr>parts = n, pathbuf = buf\<rparr>
       in kbind (if hd0 filename \<noteq> 0x2f then vfs_get_absolute_path (cwd v) (page v) filepath else Ok filepath)
            (\<lambda>filepath. Ok (vfs_path_to_fs filepath)))"

text \<open>\<^verbatim>\<open>vfs_mount_table[fs_id].fs_driver->op(vfs_mount_table[fs_id].private, ...)\<close>.\<close>

definition vfs_call :: "('p, 's) vfs \<Rightarrow> nat \<Rightarrow> (('p, 's) FilesystemDriver \<Rightarrow> 's \<Rightarrow> 'p \<Rightarrow> 'a kres) \<Rightarrow> 'a kres" where
  "vfs_call v fs_id f =
     kbind (arr (vfs_mount_table v) (int fs_id)) (\<lambda>e.
       case (fs_driver e, fs_private e) of
         (Some drv, Some priv) \<Rightarrow> f drv (store v) priv
       | _ \<Rightarrow> Fault)"

definition vfs_op :: "(('p, 's) FilesystemDriver \<Rightarrow> 's \<Rightarrow> 'p \<Rightarrow> VfsPath \<Rightarrow> (int \<times> 's) kres) \<Rightarrow> ('p, 's) vfs \<Rightarrow> u8 list
    \<Rightarrow> (int \<times> ('p, 's) vfs) kres" where
  "vfs_op f v filename =
     kbind (vfs_resolve v filename) (\<lambda>(fs_id, path).
       kbind (vfs_call v fs_id (\<lambda>drv s priv. f drv s priv path)) (\<lambda>(r, s). Ok (r, v\<lparr>store := s\<rparr>)))"

definition vfs_file_get_size :: "('p, 's) vfs \<Rightarrow> u8 list \<Rightarrow> (int \<times> ('p, 's) vfs) kres" where
  "vfs_file_get_size = vfs_op fs_get_file_size"

definition vfs_file_get_mode :: "('p, 's) vfs \<Rightarrow> u8 list \<Rightarrow> (int \<times> ('p, 's) vfs) kres" where
  "vfs_file_get_mode = vfs_op fs_get_file_mode"

definition vfs_mkdir :: "('p, 's) vfs \<Rightarrow> u8 list \<Rightarrow> (int \<times> ('p, 's) vfs) kres" where
  "vfs_mkdir = vfs_op fs_create_directory"

definition vfs_file_remove :: "('p, 's) vfs \<Rightarrow> u8 list \<Rightarrow> (int \<times> ('p, 's) vfs) kres" where
  "vfs_file_remove = vfs_op fs_remove_file"

section \<open>File descriptors (filedesc.c)\<close>

record FileDesc =
  fd_used :: bool
  fd_read :: bool
  fd_write :: bool
  fd_append :: bool
  fd_dir :: bool
  fd_fs_id :: u32
  fd_block :: u32
  fd_offset :: u32
  fd_size :: u32
  fd_path :: VfsPath

definition fd_zero :: FileDesc where
  "fd_zero = \<lparr>fd_used = False, fd_read = False, fd_write = False, fd_append = False, fd_dir = False,
     fd_fs_id = 0, fd_block = 0, fd_offset = 0, fd_size = 0, fd_path = \<lparr>parts = 0, pathbuf = []\<rparr>\<rparr>"

definition O_READ :: u32 where "O_READ = 1"
definition O_WRITE :: u32 where "O_WRITE = 2"
definition O_CREATE :: u32 where "O_CREATE = 4"
definition O_APPEND :: u32 where "O_APPEND = 8"
definition O_TRUNC :: u32 where "O_TRUNC = 16"

datatype FileSeekMode = SEEK_SET | SEEK_CUR | SEEK_END

text \<open>The descriptor filled in once the first block and the size are known.\<close>

definition vfs_fd_fill :: "('p, 's) vfs \<Rightarrow> u32 \<Rightarrow> nat \<Rightarrow> VfsPath \<Rightarrow> int \<Rightarrow> int \<Rightarrow> FileDesc kres" where
  "vfs_fd_fill v mode fs_id path fblock sz =
     (let fd = fd_zero\<lparr>fd_block := of_int fblock, fd_size := of_int sz, fd_read := mode AND O_READ \<noteq> 0,
                 fd_fs_id := of_nat fs_id, fd_used := True\<rparr>
      in if mode AND O_WRITE = 0 then Ok fd
         else if length (page v) < nat (parts path) * 128 \<or> length (pathbuf path) < nat (parts path) * 128 then Fault
         else Ok (fd\<lparr>fd_write := True,
                fd_path := \<lparr>parts = parts path, pathbuf = overlay (nat (parts path) * 128) (pathbuf path) (page v)\<rparr>,
                fd_append := mode AND O_APPEND \<noteq> 0,
                fd_size := if mode AND O_TRUNC \<noteq> 0 then 0 else of_int sz\<rparr>))"

definition vfs_fd_open :: "('p, 's) vfs \<Rightarrow> u8 list \<Rightarrow> u32 \<Rightarrow> (int \<times> FileDesc \<times> ('p, 's) vfs) kres" where
  "vfs_fd_open v filename mode =
     kbind (vfs_resolve v filename) (\<lambda>(fs_id, path).
       kbind (vfs_call v fs_id (\<lambda>drv s priv. fs_open drv s priv path)) (\<lambda>(fblock, s).
         let v = v\<lparr>store := s\<rparr>
         in if fblock < 0 \<and> mode AND O_CREATE = 0 then Ok (ERROR_NOT_EXIST, fd_zero, v)
            else kbind (if fblock < 0
                        then vfs_call v fs_id (\<lambda>drv s priv. kbind (fs_create_file drv s priv path) (\<lambda>(_, s).
                               fs_open drv s priv path))
                        else Ok (fblock, s)) (\<lambda>(fblock, s).
              let v = v\<lparr>store := s\<rparr>
              in kbind (vfs_call v fs_id (\<lambda>drv s priv. fs_get_file_size drv s priv path)) (\<lambda>(sz, s).
                   let v = v\<lparr>store := s\<rparr>
                   in kbind (vfs_fd_fill v mode fs_id path fblock sz) (\<lambda>fd. Ok (0, fd, v))))))"

definition vfs_fd_read :: "('p, 's) vfs \<Rightarrow> FileDesc \<Rightarrow> u8 list \<Rightarrow> u32
    \<Rightarrow> (int \<times> u8 list \<times> FileDesc \<times> ('p, 's) vfs) kres" where
  "vfs_fd_read v fd buf sz =
     (if \<not> fd_used fd \<or> \<not> fd_read fd \<or> fd_dir fd then Ok (ERROR_INVAILD, buf, fd, v)
      else if fd_offset fd \<ge> fd_size fd then Ok (0, buf, fd, v)
      else let status = (if fd_offset fd + sz > fd_size fd then fd_size fd - fd_offset fd else sz)
        in kbind (vfs_call v (unat (fd_fs_id fd)) (\<lambda>drv s priv. fs_read drv s priv (fd_block fd) buf (fd_offset fd) sz))
             (\<lambda>(ret, buf, s).
                let v = v\<lparr>store := s\<rparr>
                in if ret < 0 then Ok (ret, buf, fd, v)
                   else Ok (sint status, buf, fd\<lparr>fd_offset := fd_offset fd + status\<rparr>, v)))"

definition vfs_fd_write :: "('p, 's) vfs \<Rightarrow> FileDesc \<Rightarrow> u8 list \<Rightarrow> u32 \<Rightarrow> (int \<times> FileDesc \<times> ('p, 's) vfs) kres" where
  "vfs_fd_write v fd buf sz =
     (if \<not> fd_used fd \<or> \<not> fd_write fd \<or> fd_dir fd then Ok (ERROR_INVAILD, fd, v)
      else let fd = (if fd_append fd then fd\<lparr>fd_offset := fd_size fd\<rparr> else fd)
        in kbind (vfs_call v (unat (fd_fs_id fd)) (\<lambda>drv s priv. fs_write drv s priv (fd_block fd) buf (fd_offset fd) sz))
             (\<lambda>(ret, s).
                let v = v\<lparr>store := s\<rparr>
                in if ret < 0 then Ok (ret, fd, v)
                   else let fd = fd\<lparr>fd_offset := fd_offset fd + of_int ret\<rparr>;
                            fd = (if fd_offset fd > fd_size fd
                                  then fd\<lparr>fd_size := fd_size fd + (fd_offset fd - fd_size fd)\<rparr> else fd)
                     in Ok (ret, fd, v)))"

definition vfs_fd_close :: "('p, 's) vfs \<Rightarrow> FileDesc \<Rightarrow> (int \<times> FileDesc \<times> ('p, 's) vfs) kres" where
  "vfs_fd_close v fd =
     (if \<not> fd_used fd \<or> fd_dir fd then Ok (ERROR_INVAILD, fd, v)
      else kbind (if fd_write fd
                  then kbind (vfs_call v (unat (fd_fs_id fd)) (\<lambda>drv s priv. fs_update_size drv s priv (fd_path fd) (fd_size fd)))
                         (\<lambda>(_, s). Ok (v\<lparr>store := s\<rparr>))
                  else Ok v) (\<lambda>v. Ok (0, fd\<lparr>fd_used := False\<rparr>, v)))"

definition vfs_fd_seek :: "FileDesc \<Rightarrow> u32 \<Rightarrow> FileSeekMode \<Rightarrow> int \<times> FileDesc" where
  "vfs_fd_seek fd off mode =
     (if \<not> fd_used fd \<or> fd_dir fd \<or> off \<ge> fd_size fd then (ERROR_INVAILD, fd)
      else let fd = (case mode of
                       SEEK_SET \<Rightarrow> fd\<lparr>fd_offset := off\<rparr>
                     | SEEK_CUR \<Rightarrow> fd\<lparr>fd_offset := fd_offset fd + off\<rparr>
                     | SEEK_END \<Rightarrow> fd\<lparr>fd_offset := fd_size fd + off\<rparr>)
        in (sint (fd_offset fd), fd))"

section \<open>Directories (dir.c)\<close>

definition vfs_dir_open :: "('p, 's) vfs \<Rightarrow> u8 list \<Rightarrow> (int \<times> FileDesc \<times> ('p, 's) vfs) kres" where
  "vfs_dir_open v dirname =
     kbind (vfs_resolve v dirname) (\<lambda>(fs_id, path).
       kbind (vfs_call v fs_id (\<lambda>drv s priv. fs_open drv s priv path)) (\<lambda>(fblock, s).
         let v = v\<lparr>store := s\<rparr>
         in if fblock < 0 then Ok (fblock, fd_zero, v)
            else kbind (vfs_call v fs_id (\<lambda>drv s priv. fs_dir_first_file drv s priv (of_int fblock))) (\<lambda>(off, s).
              Ok (0, fd_zero\<lparr>fd_block := of_int fblock, fd_offset := of_int off, fd_fs_id := of_nat fs_id,
                        fd_dir := True, fd_read := True, fd_used := True\<rparr>, v\<lparr>store := s\<rparr>))))"

definition vfs_dir_read :: "('p, 's) vfs \<Rightarrow> FileDesc \<Rightarrow> u8 list \<Rightarrow> (int \<times> u8 list \<times> FileDesc \<times> ('p, 's) vfs) kres" where
  "vfs_dir_read v fd buffer =
     (if \<not> fd_used fd \<or> \<not> fd_read fd \<or> \<not> fd_dir fd then Ok (ERROR_INVAILD, buffer, fd, v)
      else kbind (vfs_call v (unat (fd_fs_id fd)) (\<lambda>drv s priv. fs_dir_read drv s priv buffer (fd_block fd) (fd_offset fd)))
        (\<lambda>(off, buffer, s).
           let v = v\<lparr>store := s\<rparr>
           in if off = 0 then Ok (0, buffer, fd, v)
              else if off < 0 then Ok (off, buffer, fd, v)
              else Ok (1, buffer, fd\<lparr>fd_offset := of_int off\<rparr>, v)))"

definition vfs_dir_close :: "FileDesc \<Rightarrow> int \<times> FileDesc" where
  "vfs_dir_close fd =
     (if \<not> fd_used fd \<or> \<not> fd_dir fd then (ERROR_INVAILD, fd) else (0, fd\<lparr>fd_used := False\<rparr>))"

lemma vfs_call_at:
  "i < length (vfs_mount_table v) \<Longrightarrow> vfs_mount_table v ! i = \<lparr>fs_driver = Some drv, fs_private = Some p\<rparr> \<Longrightarrow>
    vfs_call v i f = f drv (store v) p"
  by (simp add: vfs_call_def)

lemma small_sint: "unat (w :: u32) < 2 ^ 31 \<Longrightarrow> sint w = int (unat w)"
proof -
  assume "unat w < 2 ^ 31"
  then have "int (unat w) < int (2 ^ 31)" by (simp only: of_nat_less_iff)
  then have "uint w < 2 ^ 31" by simp
  moreover have "- (2 ^ 31) \<le> uint w" using uint_ge_0 [of w] by (rule order_trans [rotated]) simp
  ultimately have "signed_take_bit 31 (uint w) = uint w" by (intro signed_take_bit_int_eq_self)
  then show ?thesis by (simp add: sint_uint)
qed

text \<open>
  The descriptor \<open>fd\<close> is open on a file of a mounted driver with the operations \<open>rd\<close> and \<open>wr\<close>,
  and \<open>has\<close> says that the space allocated to the file holds \<open>F\<close>.
\<close>

definition fd_at :: "('s \<Rightarrow> 'p \<Rightarrow> u32 \<Rightarrow> u8 list \<Rightarrow> u32 \<Rightarrow> u32 \<Rightarrow> (int \<times> u8 list \<times> 's) kres)
    \<Rightarrow> ('s \<Rightarrow> 'p \<Rightarrow> u32 \<Rightarrow> u8 list \<Rightarrow> u32 \<Rightarrow> u32 \<Rightarrow> (int \<times> 's) kres)
    \<Rightarrow> ('s \<Rightarrow> 'p \<Rightarrow> u32 \<Rightarrow> u8 list \<Rightarrow> bool) \<Rightarrow> ('p, 's) vfs \<Rightarrow> FileDesc \<Rightarrow> u8 list \<Rightarrow> bool" where
  "fd_at rd wr has v fd F \<longleftrightarrow> (\<exists>drv p. unat (fd_fs_id fd) < length (vfs_mount_table v)
     \<and> vfs_mount_table v ! unat (fd_fs_id fd) = \<lparr>fs_driver = Some drv, fs_private = Some p\<rparr>
     \<and> fs_read drv = rd \<and> fs_write drv = wr \<and> has (store v) p (fd_block fd) F)
   \<and> fd_used fd \<and> \<not> fd_dir fd \<and> unat (fd_size fd) \<le> length F"

section \<open>The contract of a file store\<close>

text \<open>
  What the descriptors rely on: \<open>has s p c F\<close> says that the space allocated to the file at block
  \<open>c\<close> holds the bytes \<open>F\<close>; reads return them and writes inside that space replace them.
\<close>

locale file_store =
  fixes rd :: "'s \<Rightarrow> 'p \<Rightarrow> u32 \<Rightarrow> u8 list \<Rightarrow> u32 \<Rightarrow> u32 \<Rightarrow> (int \<times> u8 list \<times> 's) kres"
    and wr :: "'s \<Rightarrow> 'p \<Rightarrow> u32 \<Rightarrow> u8 list \<Rightarrow> u32 \<Rightarrow> u32 \<Rightarrow> (int \<times> 's) kres"
    and has :: "'s \<Rightarrow> 'p \<Rightarrow> u32 \<Rightarrow> u8 list \<Rightarrow> bool"
  assumes has_bound: "has s p c F \<Longrightarrow> length F < 2 ^ 31"
    and rd_has: "has s p c F \<Longrightarrow> unat off + unat sz \<le> length F \<Longrightarrow> unat sz \<le> length buf \<Longrightarrow>
      \<exists>s'. rd s p c buf off sz = Ok (sint sz, blit buf 0 (take (unat sz) (drop (unat off) F)), s') \<and> has s' p c F"
    and wr_has: "has s p c F \<Longrightarrow> unat off + unat sz \<le> length F \<Longrightarrow> unat sz \<le> length buf \<Longrightarrow>
      \<exists>s'. wr s p c buf off sz = Ok (sint sz, s') \<and> has s' p c (blit F (unat off) (take (unat sz) buf))"
begin

lemma fd_read_ok:
  assumes "fd_at rd wr has v fd F" and "fd_read fd" and "unat (fd_offset fd) + unat sz \<le> length F"
    and "fd_offset fd < fd_size fd" and "unat sz \<le> length buf"
  shows "\<exists>v'. vfs_fd_read v fd buf sz =
      Ok (int (min (unat sz) (unat (fd_size fd) - unat (fd_offset fd))),
          blit buf 0 (take (unat sz) (drop (unat (fd_offset fd)) F)),
          fd\<lparr>fd_offset := fd_offset fd + of_nat (min (unat sz) (unat (fd_size fd) - unat (fd_offset fd)))\<rparr>, v')
    \<and> fd_at rd wr has v' fd F"
proof -
  obtain drv p where d: "unat (fd_fs_id fd) < length (vfs_mount_table v)"
     "vfs_mount_table v ! unat (fd_fs_id fd) = \<lparr>fs_driver = Some drv, fs_private = Some p\<rparr>"
     "fs_read drv = rd" "fs_write drv = wr" "has (store v) p (fd_block fd) F"
    using assms(1) by (auto simp: fd_at_def)
  have f: "fd_used fd" "\<not> fd_dir fd" "unat (fd_size fd) \<le> length F" using assms(1) by (simp_all add: fd_at_def)
  note bd = has_bound [OF d(5)]
  have sum: "unat (fd_offset fd + sz) = unat (fd_offset fd) + unat sz"
    by (rule unat_add_lt_u32) (use assms(3) bd in simp)
  let ?n = "min (unat sz) (unat (fd_size fd) - unat (fd_offset fd))"
  define status where "status = (if fd_offset fd + sz > fd_size fd then fd_size fd - fd_offset fd else sz)"
  have lt: "unat (fd_offset fd) < unat (fd_size fd)" using assms(4) by (simp add: word_less_nat_alt)
  have st: "unat status = ?n"
    using lt sum unat_sub_le_u32 [of "fd_offset fd" "fd_size fd"]
    by (auto simp: status_def word_less_nat_alt word_le_nat_alt)
  obtain s' where s': "rd (store v) p (fd_block fd) buf (fd_offset fd) sz =
      Ok (sint sz, blit buf 0 (take (unat sz) (drop (unat (fd_offset fd)) F)), s')" "has s' p (fd_block fd) F"
    using rd_has [OF d(5) assms(3,5)] by blast
  have nn: "\<not> sint sz < 0" using small_sint [of sz] assms(3) bd by simp
  have ss: "sint status = int ?n" using small_sint [of status] st lt f(3) bd by simp
  have ws: "status = of_nat ?n" using arg_cong [OF st, of "of_nat :: nat \<Rightarrow> u32"] by simp
  have "vfs_fd_read v fd buf sz = Ok (sint status, blit buf 0 (take (unat sz) (drop (unat (fd_offset fd)) F)),
      fd\<lparr>fd_offset := fd_offset fd + status\<rparr>, v\<lparr>store := s'\<rparr>)"
    using assms(2) assms(4) [unfolded not_le [symmetric]] f d s'(1) nn
    by (simp add: vfs_fd_read_def vfs_call_at Let_def status_def)
  moreover have "fd_at rd wr has (v\<lparr>store := s'\<rparr>) fd F" using d s'(2) f by (auto simp: fd_at_def)
  ultimately show ?thesis using ss ws by (intro exI [of _ "v\<lparr>store := s'\<rparr>"]) simp
qed

lemma fd_write_ok:
  assumes "fd_at rd wr has v fd F" and "fd_write fd" and "\<not> fd_append fd"
    and "unat (fd_offset fd) + unat sz \<le> length F" and "unat sz \<le> length buf"
  shows "\<exists>v'. vfs_fd_write v fd buf sz =
      Ok (int (unat sz), fd\<lparr>fd_offset := fd_offset fd + sz, fd_size := max (fd_size fd) (fd_offset fd + sz)\<rparr>, v')
    \<and> fd_at rd wr has v' (fd\<lparr>fd_offset := fd_offset fd + sz, fd_size := max (fd_size fd) (fd_offset fd + sz)\<rparr>)
        (blit F (unat (fd_offset fd)) (take (unat sz) buf))"
proof -
  obtain drv p where d: "unat (fd_fs_id fd) < length (vfs_mount_table v)"
     "vfs_mount_table v ! unat (fd_fs_id fd) = \<lparr>fs_driver = Some drv, fs_private = Some p\<rparr>"
     "fs_read drv = rd" "fs_write drv = wr" "has (store v) p (fd_block fd) F"
    using assms(1) by (auto simp: fd_at_def)
  have f: "fd_used fd" "\<not> fd_dir fd" "unat (fd_size fd) \<le> length F" using assms(1) by (simp_all add: fd_at_def)
  note bd = has_bound [OF d(5)]
  have sum: "unat (fd_offset fd + sz) = unat (fd_offset fd) + unat sz"
    by (rule unat_add_lt_u32) (use assms(4) bd in simp)
  obtain s' where s': "wr (store v) p (fd_block fd) buf (fd_offset fd) sz = Ok (sint sz, s')"
    "has s' p (fd_block fd) (blit F (unat (fd_offset fd)) (take (unat sz) buf))"
    using wr_has [OF d(5) assms(4,5)] by blast
  have si: "sint sz = int (unat sz)" using small_sint [of sz] assms(4) bd by simp
  let ?fd = "fd\<lparr>fd_offset := fd_offset fd + sz, fd_size := max (fd_size fd) (fd_offset fd + sz)\<rparr>"
  have "vfs_fd_write v fd buf sz = Ok (int (unat sz), ?fd, v\<lparr>store := s'\<rparr>)"
    using assms(2,3) f d s'(1) si
    by (simp add: vfs_fd_write_def vfs_call_at Let_def max_def not_less)
  moreover have "unat (max (fd_size fd) (fd_offset fd + sz)) \<le> length F"
    using f(3) sum assms(4) by (simp add: max_def)
  then have "fd_at rd wr has (v\<lparr>store := s'\<rparr>) ?fd (blit F (unat (fd_offset fd)) (take (unat sz) buf))"
    using d s'(2) f assms(4,5) by (auto simp: fd_at_def)
  ultimately show ?thesis by blast
qed

lemma write_seek_read:
  assumes "fd_at rd wr has v fd F" and "fd_read fd" and "fd_write fd" and "\<not> fd_append fd"
    and "unat (fd_offset fd) + unat sz \<le> length F" and "unat sz \<le> length data"
    and "unat sz \<le> length buf" and "0 < sz"
  shows "\<exists>fd1 v1 fd2 fd3 v3. vfs_fd_write v fd data sz = Ok (int (unat sz), fd1, v1)
     \<and> vfs_fd_seek fd1 (fd_offset fd) SEEK_SET = (int (unat (fd_offset fd)), fd2)
     \<and> vfs_fd_read v1 fd2 buf sz = Ok (int (unat sz), blit buf 0 (take (unat sz) data), fd3, v3)"
proof -
  define fd1 where "fd1 = fd\<lparr>fd_offset := fd_offset fd + sz, fd_size := max (fd_size fd) (fd_offset fd + sz)\<rparr>"
  let ?F = "blit F (unat (fd_offset fd)) (take (unat sz) data)"
  obtain v1 where v1: "vfs_fd_write v fd data sz = Ok (int (unat sz), fd1, v1)" "fd_at rd wr has v1 fd1 ?F"
    using fd_write_ok [OF assms(1,3-6)] unfolding fd1_def by blast
  define fd2 where "fd2 = fd1\<lparr>fd_offset := fd_offset fd\<rparr>"
  have F: "length F < 2 ^ 31" using assms(1) has_bound by (auto simp: fd_at_def)
  have sum: "unat (fd_offset fd + sz) = unat (fd_offset fd) + unat sz"
    by (rule unat_add_lt_u32) (use assms(5) F in simp)
  have z: "0 < unat sz" using assms(8) by (simp add: word_gt_0 unat_gt_0)
  have mx: "unat (fd_offset fd) + unat sz \<le> unat (fd_size fd1)"
    using sum by (simp add: fd1_def max_def word_le_nat_alt)
  then have lt: "fd_offset fd < fd_size fd1" using z by (simp add: word_less_nat_alt)
  have u: "fd_used fd1" "\<not> fd_dir fd1" "fd_read fd1" using assms(1,2) by (simp_all add: fd1_def fd_at_def)
  have so: "sint (fd_offset fd) = int (unat (fd_offset fd))" using small_sint [of "fd_offset fd"] assms(5) F by simp
  have sk: "vfs_fd_seek fd1 (fd_offset fd) SEEK_SET = (int (unat (fd_offset fd)), fd2)"
    using u lt [unfolded not_le [symmetric]] so by (simp add: vfs_fd_seek_def fd2_def)
  have a2: "fd_at rd wr has v1 fd2 ?F" using v1(2) by (simp add: fd_at_def fd2_def)
  have f2: "fd_read fd2" "fd_offset fd2 = fd_offset fd" "fd_size fd2 = fd_size fd1" using u by (simp_all add: fd2_def)
  have lF: "length ?F = length F" using assms(5,6) by simp
  have mn: "min (unat sz) (unat (fd_size fd2) - unat (fd_offset fd2)) = unat sz" using mx f2 by simp
  obtain v3 where "vfs_fd_read v1 fd2 buf sz = Ok (int (unat sz), blit buf 0 (take (unat sz) (drop (unat (fd_offset fd)) ?F)),
      fd2\<lparr>fd_offset := fd_offset fd2 + of_nat (unat sz)\<rparr>, v3)"
    using fd_read_ok [OF a2 f2(1), of sz buf] assms(5,7) f2 lt lF unfolding mn by auto
  moreover have "take (unat sz) (drop (unat (fd_offset fd)) ?F) = take (unat sz) data"
    using assms(5,6) by (simp add: blit_def)
  ultimately show ?thesis using v1(1) sk by auto
qed

end

section \<open>FAT32 keeps the contract\<close>

definition fat_has :: "'d BlockDeviceDriver \<Rightarrow> ('d \<Rightarrow> u32 \<Rightarrow> u8 list) \<Rightarrow> 'd hal \<Rightarrow> FAT32Private \<Rightarrow> u32 \<Rightarrow> u8 list \<Rightarrow> bool" where
  "fat_has drv disk h priv c F \<longleftrightarrow> (\<exists>cs. vol_ok drv disk priv h \<and> layout_ok priv
     \<and> file_ok (vsect disk priv h) priv c cs \<and> F = file_content (vsect disk priv h) priv cs \<and> length F < 2 ^ 31)"

interpretation fat_files: file_store fat32_read fat32_write "fat_has drv disk" for drv disk
proof
  fix h priv c F off sz buf
  assume "fat_has drv disk h priv c F"
  then obtain cs where f: "vol_ok drv disk priv h" "layout_ok priv" "file_ok (vsect disk priv h) priv c cs"
    "F = file_content (vsect disk priv h) priv cs" "length F < 2 ^ 31"
    by (auto simp: fat_has_def)
  then show "length F < 2 ^ 31" by simp
  have ch: "chain (fat (vsect disk priv h) priv) c cs" using f(3) by (simp add: file_ok_def)
  assume b: "unat (off :: u32) + unat (sz :: u32) \<le> length F" "unat sz \<le> length (buf :: u8 list)"
  have b2: "unat off + unat sz < 2 ^ 32" "unat off + unat sz \<le> length cs * clus_bytes priv" using b f(4,5) by simp_all
  show "\<exists>h'. fat32_read h priv c buf off sz = Ok (sint sz, blit buf 0 (take (unat sz) (drop (unat off) F)), h')
      \<and> fat_has drv disk h' priv c F"
    by (rule fat32_read_ok [OF f(1,2) ch b2 b(2)]) (use f in \<open>auto simp: fat_has_def\<close>)
  show "\<exists>h'. fat32_write h priv c buf off sz = Ok (sint sz, h')
      \<and> fat_has drv disk h' priv c (blit F (unat off) (take (unat sz) buf))"
  proof (rule fat32_write_in_place [OF f(1-3) b2 b(2)])
    fix h'
    assume w: "fat32_write h priv c buf off sz = Ok (sint sz, h')" "vol_ok drv disk priv h'"
      "file_ok (vsect disk priv h') priv c cs" "file_content (vsect disk priv h') priv cs =
        blit (file_content (vsect disk priv h) priv cs) (unat off) (take (unat sz) buf)"
    have "length (blit F (unat off) (take (unat sz) buf)) < 2 ^ 31" using b f(5) by simp
    then show ?thesis using w f(2,4) unfolding fat_has_def by metis
  qed
qed

section \<open>Properties\<close>

text \<open>
  C18. Through a descriptor that is open for reading and writing on a FAT32 file: writing bytes inside
  the space of the file, seeking back and reading the same number gives the bytes written.
\<close>

theorem vfs_write_seek_read:
  assumes "fd_at fat32_read fat32_write (fat_has drv disk) v fd F" and "fd_read fd" and "fd_write fd"
    and "\<not> fd_append fd" and "unat (fd_offset fd) + unat sz \<le> length F" and "unat sz \<le> length data"
    and "unat sz \<le> length buf" and "0 < sz"
  shows "\<exists>fd1 v1 fd2 fd3 v3. vfs_fd_write v fd data sz = Ok (int (unat sz), fd1, v1)
     \<and> vfs_fd_seek fd1 (fd_offset fd) SEEK_SET = (int (unat (fd_offset fd)), fd2)
     \<and> vfs_fd_read v1 fd2 buf sz = Ok (int (unat sz), blit buf 0 (take (unat sz) data), fd3, v3)"
  by (rule fat_files.write_seek_read [OF assms])

definition small_vfs :: "(FAT32Private, (u32 \<Rightarrow> u8 list) hal) vfs" where
  "small_vfs = \<lparr>vfs_mount_table = [\<lparr>fs_driver = Some fat32_driver, fs_private = Some small_priv\<rparr>],
     cwd = \<lparr>parts = 0, pathbuf = []\<rparr>, page = replicate 4096 0, store = ram_hal small_disk\<rparr>"

definition small_fd :: FileDesc where
  "small_fd = fd_zero\<lparr>fd_used := True, fd_read := True, fd_write := True, fd_block := 2, fd_offset := 10, fd_size := 100\<rparr>"

lemma small_fd_at:
  "fd_at fat32_read fat32_write (fat_has ram_driver ram_sect) small_vfs small_fd (file_content small_sect small_priv [2])"
proof -
  have "length (file_content small_sect small_priv [2]) = 512" by simp (simp add: small_priv_def)
  then show ?thesis
    using small_vol small_layout small_file
    by (auto simp: fd_at_def small_vfs_def small_fd_def fd_zero_def fat32_driver_def fat_has_def)
qed

theorem vfs_write_seek_read_witness:
  "\<exists>fd1 v1 fd2 fd3 v3. vfs_fd_write small_vfs small_fd [7, 8, 9] 3 = Ok (3, fd1, v1)
     \<and> vfs_fd_seek fd1 10 SEEK_SET = (10, fd2)
     \<and> vfs_fd_read v1 fd2 [0, 0, 0, 5] 3 = Ok (3, [7, 8, 9, 5], fd3, v3)"
proof -
  have "length (file_content small_sect small_priv [2]) = 512" by simp (simp add: small_priv_def)
  then show ?thesis
    using vfs_write_seek_read [OF small_fd_at, of 3 "[7, 8, 9]" "[0, 0, 0, 5]"]
    by (simp add: small_fd_def fd_zero_def blit_def)
qed



lemma vfs_init_loop_entry:
  assumes "vfs_init_loop drv tbl s 0 types i = Ok (n, tbl', s')"
  shows "length tbl' = length tbl \<and> (\<forall>k. 0 < k \<longrightarrow> tbl' ! k = tbl ! k)"
  using assms
proof (induction types arbitrary: s i)
  case (Cons t ts)
  have here: "length tbl' = length tbl \<and> (\<forall>k. 0 < k \<longrightarrow> tbl' ! k = tbl ! k)"
    if "vfs_mount_here drv tbl s0 0 i = Ok (n, tbl', s')" for s0
    using that by (auto simp: vfs_mount_here_def kbind_Ok_iff split: option.splits)
  show ?case
    using Cons.prems Cons.IH here
    by (auto simp: kbind_Ok_iff split: if_splits option.splits)
qed auto

text \<open>
  C20. \<open>vfs_init\<close> stops at the first partition it mounts, so only the first entry of the mount
  table is ever filled; opening any path below \<^verbatim>\<open>/fat32\<close>, which \<open>vfs_path_to_fs\<close> sends to the second
  entry, follows a null driver pointer.
\<close>

theorem vfs_fat32_prefix_faults:
  assumes "vfs_init drv types v0 = Ok v" and "hd0 filename = 0x2f"
    and "segs filename [] = bytes_of ''fat32'' # rest"
    and "\<forall>s \<in> set rest. length s < 128" and "(1 + length rest) * 128 \<le> length (page v0)"
  shows "vfs_fd_open v filename mode = Fault"
proof -
  obtain n tbl s where i: "vfs_init_loop drv (replicate VFS_MOUNT_TABLE_MAX \<lparr>fs_driver = None, fs_private = None\<rparr>)
      (store v0) 0 types 0 = Ok (n, tbl, s)" "v = v0\<lparr>vfs_mount_table := tbl, store := s\<rparr>"
    using assms(1) by (auto simp: vfs_init_def kbind_Ok_iff split: if_splits)
  have t: "length tbl = 8" "tbl ! 1 = \<lparr>fs_driver = None, fs_private = None\<rparr>"
    using vfs_init_loop_entry [OF i(1)] by (simp_all add: VFS_MOUNT_TABLE_MAX_def)
  obtain buf where b: "vfs_path_split filename (page v) = Ok (int (1 + length rest), buf)"
    "c_string buf = bytes_of ''fat32''"
    using vfs_path_split_loop_ok [of filename 0 "page v"] assms(3-5) i(2)
    by (auto simp: vfs_path_split_def holds_parts_def bytes_of_def)
  have "strncmp_str buf (bytes_of ''fat32'') 64 = 0"
  proof -
    have "cname 64 buf = c_string buf"
      using b(2) c_string_take [of 0 buf 64 "take 64 buf"] by (simp add: cname_def c_string_def bytes_of_def)
    then show ?thesis unfolding strncmp_str_cname b(2) by (simp add: cname_def bytes_of_def of_char_of)
  qed
  then have "vfs_resolve v filename = Ok (1, \<lparr>parts = int (length rest), pathbuf = drop 128 buf\<rparr>)"
    using b(1) assms(2) by (simp add: vfs_resolve_def vfs_path_to_fs_def Let_def)
  then show ?thesis using t i(2) by (simp add: vfs_fd_open_def vfs_call_def)
qed

definition boot_disk :: "u32 \<Rightarrow> u8 list" where
  "boot_disk s = replicate 82 1 @ bytes_of ''FAT32   '' @ replicate 422 0"

lemma boot_mount: "\<exists>priv h'. fat32_mount (ram_hal boot_disk) 0 = Ok (0, Some priv, h')"
proof -
  have p: "pid small_priv = 0" by (simp add: small_priv_def)
  have l: "length (boot_disk s) = 512" for s by (simp add: boot_disk_def bytes_of_def)
  have j: "512 \<le> length (junk (ram_hal boot_disk))" by (simp add: ram_hal_def)
  have v: "part_sect ram_sect 0 (ram_hal boot_disk) 0 = boot_disk 63"
    using ram_vsect_at [of boot_disk 0] l p by simp
  obtain h' where r: "hal_partition_read (ram_hal boot_disk) 0 0 1 (junk (ram_hal boot_disk)) =
      Ok (0, overlay 512 (boot_disk 63) (junk (ram_hal boot_disk)), h')"
    by (rule vol_read [OF ram_vol [of boot_disk] j, where b = 0]) (simp add: p v)
  have "boot_fstype (overlay 512 (boot_disk 63) (junk (ram_hal boot_disk))) = bytes_of ''FAT32   ''"
    by (simp add: boot_fstype_def overlay_def boot_disk_def bytes_of_def)
  then have "strncmp_str (boot_fstype (overlay 512 (boot_disk 63) (junk (ram_hal boot_disk)))) (bytes_of ''FAT32'') 5 = 0"
    by (simp add: strncmp_str_cname cname_def bytes_of_def of_char_of)
  then show ?thesis using r by (simp add: fat32_mount_def)
qed

theorem vfs_fat32_prefix_faults_witness:
  "\<exists>v. vfs_init (Some fat32_driver) [HAL_PARTITION_TYPE_FAT32] (small_vfs\<lparr>store := ram_hal boot_disk\<rparr>) = Ok v
     \<and> vfs_fd_open v (bytes_of ''/fat32/a'') O_READ = Fault"
proof -
  obtain v where v: "vfs_init (Some fat32_driver) [HAL_PARTITION_TYPE_FAT32] (small_vfs\<lparr>store := ram_hal boot_disk\<rparr>) = Ok v"
    using boot_mount by (auto simp: vfs_init_def vfs_mount_here_def fat32_driver_def small_vfs_def)
  have s: "segs (bytes_of ''/fat32/a'') [] = bytes_of ''fat32'' # [bytes_of ''a'']" "hd0 (bytes_of ''/fat32/a'') = 0x2f"
    by (simp_all add: bytes_of_def of_char_of hd0_def)
  show ?thesis
    using vfs_fat32_prefix_faults [OF v s(2,1), of O_READ] v by (auto simp: bytes_of_def small_vfs_def)
qed

end
