(* ===== verification/Paging.thy ===== *)
theory Paging
  imports Page_Alloc
begin

text \<open>
  The page tables of \<^verbatim>\<open>kernel/arch/x86/vm.c\<close>: \<open>walkpgdir\<close>, \<open>mappages\<close> and \<open>unmappages\<close> on the
  three-level tables of \<^verbatim>\<open>arch/x86/mmu.h\<close> (page directory pointer table, page directories,
  page tables of 64-bit entries). The tables live in pages of the allocator of \<open>Page_Alloc\<close>
  and are read and written through the same byte memory, at the kernel addresses \<^verbatim>\<open>P2V\<close> gives.

  \<open>pmap\<close> reads a table as a function from virtual addresses to entries; \<open>vm_ok\<close> is the
  invariant of a set of tables and of the data pages they may point to. The lemmas show that a
  walk that allocates tables leaves this function alone, and that \<open>mappages\<close> changes it exactly
  on the pages asked for.
\<close>

section \<open>Entries and addresses (arch/x86/mmu.h, memlayout.h)\<close>

definition load64 :: "mem \<Rightarrow> u32 \<Rightarrow> u64" where
  "load64 m p = ucast (load32 m p) OR push_bit 32 (ucast (load32 m (p + 4)))"

definition store64 :: "mem \<Rightarrow> u32 \<Rightarrow> u64 \<Rightarrow> mem" where
  "store64 m p v = store32 (store32 m p (ucast v)) (p + 4) (ucast (drop_bit 32 v))"

definition KERNBASE :: u32 where "KERNBASE = 0x80000000"
definition EXTMEM :: u32 where "EXTMEM = 0x100000"
definition PHYSTOP :: u32 where "PHYSTOP = 0x8000000"
definition DEVSPACE :: u32 where "DEVSPACE = 0xB0000000"
definition KERNLINK :: u32 where "KERNLINK = KERNBASE + EXTMEM"

definition V2P :: "u32 \<Rightarrow> u32" where
  "V2P a = a - KERNBASE"

text \<open>\<^verbatim>\<open>P2V\<close> casts to \<^verbatim>\<open>unsigned int\<close>: the upper half of a 64-bit argument is dropped.\<close>

definition P2V :: "u64 \<Rightarrow> u32" where
  "P2V a = ucast a + KERNBASE"

definition PDX :: "u32 \<Rightarrow> u32" where
  "PDX va = drop_bit 21 va AND 0x1FF"

definition PTX :: "u32 \<Rightarrow> u32" where
  "PTX va = drop_bit 12 va AND 0x1FF"

definition PDPTX :: "u32 \<Rightarrow> u32" where
  "PDPTX va = drop_bit 30 va AND 0x3"

definition PGADDR :: "u32 \<Rightarrow> u32 \<Rightarrow> u32 \<Rightarrow> u32 \<Rightarrow> u32" where
  "PGADDR pdpte pde pte off =
     push_bit 30 pdpte OR push_bit 21 pde OR push_bit 12 pte OR off"

definition PTE_P :: u32 where "PTE_P = 0x001"
definition PTE_W :: u32 where "PTE_W = 0x002"
definition PTE_U :: u32 where "PTE_U = 0x004"

definition PTE_ADDR :: "u64 \<Rightarrow> u64" where
  "PTE_ADDR pte = pte AND NOT 0xfff0000000000fff"

definition PTE_FLAGS :: "u64 \<Rightarrow> u64" where
  "PTE_FLAGS pte = pte AND 0xfff0000000000fff"

text \<open>\<^verbatim>\<open>e & PTE_P\<close> and \<^verbatim>\<open>e & PTE_U\<close>: the \<^verbatim>\<open>int\<close> flag is converted to 64 bits.\<close>

definition present :: "u64 \<Rightarrow> bool" where
  "present e \<longleftrightarrow> e AND ucast PTE_P \<noteq> 0"

definition user_page :: "u64 \<Rightarrow> bool" where
  "user_page e \<longleftrightarrow> e AND ucast PTE_U \<noteq> 0"

section \<open>Walking, mapping and unmapping\<close>

text \<open>
  The result is the address of the entry, 0 when a table is missing and \<^verbatim>\<open>alloc\<close> is 0.
  \<open>kalloc\<close> panics instead of returning 0, so the test for 0 never succeeds.
\<close>

definition walkpgdir :: "kmem_state \<Rightarrow> u32 \<Rightarrow> u32 \<Rightarrow> bool \<Rightarrow> u32 \<Rightarrow> (u32 \<times> kmem_state) kres" where
  "walkpgdir st pdpte_table va alloc perm =
     (let pdpte = pdpte_table + 8 * PDPTX va
      in if present (load64 (ram st) pdpte)
         then let pde_tab = P2V (PTE_ADDR (load64 (ram st) pdpte));
                  pde = pde_tab + 8 * PDX va
              in if present (load64 (ram st) pde)
                 then Ok (P2V (PTE_ADDR (load64 (ram st) pde)) + 8 * PTX va, st)
                 else if \<not> alloc then Ok (0, st)
                 else kbind (kalloc st) (\<lambda>(pte_tab, st).
                   if pte_tab = 0 then Ok (0, st)
                   else let st = st\<lparr>ram := memset (ram st) pte_tab 0 PGSIZE\<rparr>;
                            st = st\<lparr>ram := store64 (ram st) pde
                                     (ucast (V2P pte_tab OR PTE_P OR perm))\<rparr>
                        in Ok (pte_tab + 8 * PTX va, st))
         else if \<not> alloc then Ok (0, st)
         else kbind (kalloc st) (\<lambda>(pde_tab, st).
           if pde_tab = 0 then Ok (0, st)
           else let st = st\<lparr>ram := memset (ram st) pde_tab 0 PGSIZE\<rparr>;
                    st = st\<lparr>ram := store64 (ram st) pdpte (ucast (V2P pde_tab OR PTE_P))\<rparr>;
                    pde = pde_tab + 8 * PDX va
                in kbind (kalloc st) (\<lambda>(pte_tab, st).
                  if pte_tab = 0 then Ok (0, st)
                  else let st = st\<lparr>ram := memset (ram st) pte_tab 0 PGSIZE\<rparr>;
                           st = st\<lparr>ram := store64 (ram st) pde
                                    (ucast (V2P pte_tab OR PTE_P OR perm))\<rparr>
                       in Ok (pte_tab + 8 * PTX va, st))))"

partial_function (option) mappages_loop ::
  "kmem_state \<Rightarrow> u32 \<Rightarrow> u32 \<Rightarrow> u32 \<Rightarrow> u32 \<Rightarrow> u32 \<Rightarrow> (int \<times> kmem_state) kres option" where
  "mappages_loop st pgdir a lst pa perm =
     (case walkpgdir st pgdir a True (PTE_W OR PTE_U) of
        Ok (pte, st) \<Rightarrow>
          if pte = 0 then Some (Ok (-1, st))
          else if present (load64 (ram st) pte) then Some (Panic ''remap'')
          else let st = st\<lparr>ram := store64 (ram st) pte (ucast (pa OR perm OR PTE_P))\<rparr>
               in if a = lst then Some (Ok (0, st))
                  else mappages_loop st pgdir (a + PGSIZE) lst (pa + PGSIZE) perm
      | Panic s \<Rightarrow> Some (Panic s)
      | Diverge \<Rightarrow> None
      | Fault \<Rightarrow> Some Fault)"

definition mappages ::
  "kmem_state \<Rightarrow> u32 \<Rightarrow> u32 \<Rightarrow> u32 \<Rightarrow> u32 \<Rightarrow> u32 \<Rightarrow> (int \<times> kmem_state) kres" where
  "mappages st pgdir va sz pa perm =
     of_kloop (mappages_loop st pgdir (PGROUNDDOWN va) (PGROUNDDOWN (va + sz - 1)) pa perm)"

partial_function (option) unmappages_loop ::
  "kmem_state \<Rightarrow> u32 \<Rightarrow> u32 \<Rightarrow> u32 \<Rightarrow> (int \<times> kmem_state) kres option" where
  "unmappages_loop st pgdir a lst =
     (case walkpgdir st pgdir a True (PTE_W OR PTE_U) of
        Ok (pte, st) \<Rightarrow>
          if pte = 0 then Some (Ok (-1, st))
          else let st = st\<lparr>ram := store64 (ram st) pte 0\<rparr>
               in if a = lst then Some (Ok (0, st))
                  else unmappages_loop st pgdir (a + PGSIZE) lst
      | Panic s \<Rightarrow> Some (Panic s)
      | Diverge \<Rightarrow> None
      | Fault \<Rightarrow> Some Fault)"

definition unmappages :: "kmem_state \<Rightarrow> u32 \<Rightarrow> u32 \<Rightarrow> u32 \<Rightarrow> (int \<times> kmem_state) kres" where
  "unmappages st pgdir va sz =
     of_kloop (unmappages_loop st pgdir (PGROUNDDOWN va) (PGROUNDDOWN (va + sz - 1)))"

section \<open>64-bit loads and stores\<close>

lemma u64_assemble:
  fixes v :: u64
  shows "ucast (ucast v :: u32) OR push_bit 32 (ucast (ucast (drop_bit 32 v) :: u32)) = v"
  by (rule bit_word_eqI) (auto simp: bit_simps)

lemma load64_store64_same [mem_simps]: "load64 (store64 m p v) p = v"
proof -
  have "load32 (store64 m p v) p = ucast v"
    unfolding store64_def by (subst load32_store32_other) (simp_all add: load32_store32_same)
  moreover have "load32 (store64 m p v) (p + 4) = ucast (drop_bit 32 v)"
    by (simp add: store64_def load32_store32_same)
  ultimately show ?thesis by (simp add: load64_def u64_assemble)
qed

lemma load64_cong:
  assumes "\<And>k. k < 8 \<Longrightarrow> m' (p + of_nat k) = m (p + of_nat k)"
  shows "load64 m' p = load64 m p"
proof -
  have "load32 m' p = load32 m p" by (rule load32_cong) (use assms in simp)
  moreover have "load32 m' (p + 4) = load32 m (p + 4)"
  proof (rule load32_cong)
    fix k :: nat
    assume "k < 4"
    then show "m' (p + 4 + of_nat k) = m (p + 4 + of_nat k)"
      using assms [of "4 + k"] by (simp add: add.assoc)
  qed
  ultimately show ?thesis by (simp add: load64_def)
qed

lemma store64_other [mem_simps]:
  assumes "8 \<le> unat (a - p)"
  shows "store64 m p v a = m a"
proof -
  have "unat (a - p - 4) = unat (a - p) - 4"
    using assms by (subst unat_sub_le_u32) simp_all
  then have "4 \<le> unat (a - (p + 4))" using assms by (simp add: algebra_simps)
  with assms show ?thesis by (simp add: store64_def store32_other)
qed

text \<open>An entry of an aligned table: its address, and the page it lies in.\<close>

lemma unat_entry:
  assumes "aligned t" and "unat i < 512" and "k < 8"
  shows "unat (t + 8 * i + of_nat k) = unat t + 8 * unat i + k"
proof -
  obtain n where n: "unat t = 4096 * n" "n < 1048576" by (rule alignedE [OF assms(1)])
  have "unat (8 * i) = 8 * unat i" using assms(2) by (simp add: unat_word_ariths)
  then have "unat (t + 8 * i) = unat t + 8 * unat i"
    using n assms(2) by (subst unat_add_lt_u32) simp_all
  then show ?thesis using n assms(2,3) by (subst unat_add_lt_u32) simp_all
qed

lemma page_of_entry:
  assumes "aligned t" and "unat i < 512" and "k < 8"
  shows "page_of (t + 8 * i + of_nat k) = page_of t"
proof -
  obtain n where n: "unat t = 4096 * n" "n < 1048576" by (rule alignedE [OF assms(1)])
  then show ?thesis using unat_entry [OF assms] assms(2,3) by (simp add: page_of_def)
qed

lemma entry_apart:
  assumes "aligned t" "aligned u" "unat i < 512" "unat j < 512" and "\<not> (u = t \<and> j = i)"
  shows "8 \<le> unat (u + 8 * j - (t + 8 * i))"
proof -
  obtain n where n: "unat t = 4096 * n" "n < 1048576" by (rule alignedE [OF assms(1)])
  obtain l where l: "unat u = 4096 * l" "l < 1048576" by (rule alignedE [OF assms(2)])
  have e: "unat (t + 8 * i) = 8 * (512 * n + unat i)" "unat (u + 8 * j) = 8 * (512 * l + unat j)"
    using unat_entry [of t i 0] unat_entry [of u j 0] n l assms by simp_all
  have "512 * n + unat i \<noteq> 512 * l + unat j"
  proof
    assume eq: "512 * n + unat i = 512 * l + unat j"
    then have "(512 * n + unat i) div 512 = (512 * l + unat j) div 512" by simp
    then have "n = l" using assms(3,4) by simp
    with eq n l have "unat i = unat j" "unat t = unat u" by simp_all
    with assms(5) show False by (simp add: word_unat_eq_iff)
  qed
  then have "512 * n + unat i + 1 \<le> 512 * l + unat j \<or> 512 * l + unat j + 1 \<le> 512 * n + unat i"
    by arith
  then have "8 * (512 * n + unat i) + 8 \<le> 8 * (512 * l + unat j)
      \<or> 8 * (512 * l + unat j) + 8 \<le> 8 * (512 * n + unat i)" by arith
  then show ?thesis
    by (intro apart_u32) (use e n l assms(3,4) in auto)
qed

lemma load64_store64_entry:
  assumes "aligned t" "aligned u" "unat i < 512" "unat j < 512"
  shows "load64 (store64 m (t + 8 * i) v) (u + 8 * j) =
     (if u = t \<and> j = i then v else load64 m (u + 8 * j))"
proof (cases "u = t \<and> j = i")
  case True
  then show ?thesis by (simp add: load64_store64_same)
next
  case False
  have "store64 m (t + 8 * i) v (u + 8 * j + of_nat k) = m (u + 8 * j + of_nat k)" if "k < 8" for k
  proof (rule store64_other)
    have a: "8 \<le> unat (u + 8 * j - (t + 8 * i))" "8 \<le> unat (t + 8 * i - (u + 8 * j))"
      using entry_apart assms False by auto
    have e: "unat (u + 8 * j + of_nat k) = unat (u + 8 * j) + k" 
      using unat_entry [of u j k] unat_entry [of u j 0] assms that by simp
    have "unat (u + 8 * j) < 4294967296" "unat (t + 8 * i) < 4294967296" by simp_all
    then show "8 \<le> unat (u + 8 * j + of_nat k - (t + 8 * i))"
      using a e that offset_cases_u32 [of "u + 8 * j" "t + 8 * i"]
        offset_cases_u32 [of "t + 8 * i" "u + 8 * j"]
        offset_cases_u32 [of "u + 8 * j + of_nat k" "t + 8 * i"]
      by (auto split: if_splits)
  qed
  then show ?thesis unfolding if_not_P [OF False] by (rule load64_cong)
qed

lemma store64_entry_page:
  assumes "aligned t" "unat i < 512" "page_of x \<noteq> page_of t"
  shows "store64 m (t + 8 * i) v x = m x"
proof (rule store64_other, rule ccontr)
  assume "\<not> 8 \<le> unat (x - (t + 8 * i))"
  then have "page_of (t + 8 * i + of_nat (unat (x - (t + 8 * i)))) = page_of t"
    by (intro page_of_entry assms) simp
  with assms(3) show False by simp
qed

lemma load64_page:
  assumes "aligned t" "unat i < 512" and "\<And>x. page_of x = page_of t \<Longrightarrow> m' x = m x"
  shows "load64 m' (t + 8 * i) = load64 m (t + 8 * i)"
  by (rule load64_cong) (use assms page_of_entry in simp)

section \<open>Pages\<close>

lemma page_of_offset:
  assumes "aligned t"
  shows "page_of x = page_of t \<longleftrightarrow> unat (x - t) < 4096"
proof -
  obtain n where n: "unat t = 4096 * n" "n < 1048576" by (rule alignedE [OF assms])
  have "unat x < 4294967296" by simp
  then show ?thesis
    using n offset_cases_u32 [of x t] by (auto simp: page_of_def split: if_splits)
qed

lemma fill_page:
  assumes "aligned t"
  shows "fill m t c 4096 x = (if page_of x = page_of t then c else m x)"
  using page_of_offset [OF assms, of x] by (simp add: fill_def)

lemma load64_zero:
  assumes "aligned t" "unat i < 512" and "\<And>x. page_of x = page_of t \<Longrightarrow> m x = 0"
  shows "load64 m (t + 8 * i) = 0"
proof -
  have "load64 m (t + 8 * i) = load64 (\<lambda>_. 0) (t + 8 * i)"
    by (rule load64_cong) (use assms page_of_entry in simp)
  also have "\<dots> = 0" by (simp add: load64_def load32_def)
  finally show ?thesis .
qed

lemma aligned_inj: "aligned t \<Longrightarrow> aligned u \<Longrightarrow> page_of t = page_of u \<longleftrightarrow> t = u"
  by (auto simp: page_of_def word_unat_eq_iff elim!: alignedE)

text \<open>Writing to pages that are not free does not disturb the allocator.\<close>

lemma kmem_runs_write:
  assumes rs: "kmem_runs st rs" and m': "\<And>x. page_of x \<in> free_pages rs \<Longrightarrow> m' x = ram st x"
  shows "kmem_runs (st\<lparr>ram := m'\<rparr>) rs"
proof -
  have w: "wf_runs rs" using rs by (simp add: kmem_runs_def)
  have "load32 m' (fst r) = load32 (ram st) (fst r)
      \<and> load32 m' (fst r + 4) = load32 (ram st) (fst r + 4)" if "r \<in> set rs" for r
  proof -
    have g: "good_run r" "page_of (fst r) \<in> free_pages rs"
      using wf_runs_free [OF w that] first_page [of r] by auto
    have same: "m' x = ram st x" if "page_of x = page_of (fst r)" for x
      by (rule m') (use g(2) that in simp)
    show ?thesis
      using load32_page [of "fst r" m' "ram st", OF good_run_aligned [OF g(1)] same] by (rule conjI)
  qed
  then have "runs m' (freelist st) rs = runs (ram st) (freelist st) rs"
    by (intro runs_cong) simp_all
  then show ?thesis using rs by (simp add: kmem_runs_def)
qed

lemma kmem_write:
  assumes "kmem_ok st" and "\<And>x. page_of x \<in> kmem_avail st \<Longrightarrow> m' x = ram st x"
  shows "kmem_ok (st\<lparr>ram := m'\<rparr>)" "kmem_avail (st\<lparr>ram := m'\<rparr>) = kmem_avail st"
proof -
  obtain rs where rs: "kmem_runs st rs" using assms(1) by (auto simp: kmem_ok_def)
  have "kmem_runs (st\<lparr>ram := m'\<rparr>) rs"
    by (rule kmem_runs_write [OF rs]) (use assms(2) kmem_avail_runs [OF rs] in simp)
  then show "kmem_ok (st\<lparr>ram := m'\<rparr>)" "kmem_avail (st\<lparr>ram := m'\<rparr>) = kmem_avail st"
    using kmem_avail_runs rs by (auto simp: kmem_ok_def)
qed

text \<open>One page from the allocator.\<close>

lemma kalloc_page:
  assumes "kmem_ok st" and "kalloc st = Ok (t, st')"
  shows "kmem_ok st'" "aligned t" "t \<noteq> 0" "page_of t \<notin> kmem_avail st'"
    "kmem_avail st = insert (page_of t) (kmem_avail st')"
    "page_of x \<notin> kmem_avail st \<Longrightarrow> ram st' x = ram st x"
proof -
  have a: "pgalloc st 1 = Ok (t, st')" using assms(2) by (simp add: kalloc_def)
  have r: "run_pages (t, unat (1 :: u32)) = {page_of t}" by (simp add: run_pages_def page_of_def)
  note k = kpages.alloc_ok [OF assms(1) _ a, unfolded r]
  show "kmem_ok st'" "aligned t" "t \<noteq> 0" "page_of t \<notin> kmem_avail st'"
    "kmem_avail st = insert (page_of t) (kmem_avail st')"
    using k by (auto simp: good_run_def)
  show "page_of x \<notin> kmem_avail st \<Longrightarrow> ram st' x = ram st x"
    by (rule kpages.alloc_frame [OF assms(1) _ a]) simp_all
qed

lemma kalloc_total:
  assumes "kmem_ok st"
  obtains "kalloc st = Panic ''out of memory''" "kmem_avail st = {}"
  | t st' where "kalloc st = Ok (t, st')"
proof -
  obtain rs where rs: "kmem_runs st rs" using assms by (auto simp: kmem_ok_def)
  have w: "wf_runs rs" using rs by (simp add: kmem_runs_def)
  note ref = pgalloc_refines_first_fit [OF rs, of 1]
  show ?thesis
  proof (cases "first_fit rs 1")
    case None
    have "False" if "r \<in> set rs" for r
      using None first_fit_None_iff [of rs 1] that wf_runs_good [OF w that]
      by (auto simp: good_run_def)
    then have "rs = []" by (cases rs) auto
    then show ?thesis
      using None ref kmem_avail_runs [OF rs] that(1) by (simp add: kalloc_def free_pages_def)
  next
    case (Some q)
    then show ?thesis using ref that(2) by (cases q) (auto simp: kalloc_def)
  qed
qed

lemma card_insert_bound: "card (insert x A) \<le> Suc (card A)"
  by (cases "finite A") (simp_all add: card_insert_if)

lemma kfree_page:
  assumes "kmem_ok st" "aligned t" "t \<noteq> 0" "page_of t \<notin> kmem_avail st"
  shows "kmem_ok (kfree st t)" "kmem_avail (kfree st t) = insert (page_of t) (kmem_avail st)"
    "page_of x \<noteq> page_of t \<Longrightarrow> ram (kfree st t) x = ram st x"
proof -
  have r: "run_pages (t, unat (1 :: u32)) = {page_of t}" by (simp add: run_pages_def page_of_def)
  have g: "good_run (t, unat (1 :: u32))"
    using assms(2,3) aligned_le [of t] by (simp add: good_run_def)
  note k = kpages.free_ok [OF assms(1) g, unfolded r]
  show "kmem_ok (kfree st t)" "kmem_avail (kfree st t) = insert (page_of t) (kmem_avail st)"
    using k assms(4) by (auto simp: kfree_def)
  show "page_of x \<noteq> page_of t \<Longrightarrow> ram (kfree st t) x = ram st x"
    using kpages.free_frame [OF assms(1) g, of x] r by (simp add: kfree_def)
qed

section \<open>Entries\<close>

lemma unat_take_bit12: "unat (take_bit 12 (t :: u32)) = unat t mod 4096"
proof -
  have "unat (take_bit 12 t) = take_bit 12 (unat t)" by (simp add: unsigned_take_bit_eq)
  also have "\<dots> = unat t mod 4096" by (simp add: take_bit_nat_def)
  finally show ?thesis .
qed

lemma aligned_take_bit: "aligned t \<longleftrightarrow> take_bit 12 t = 0"
  by (simp add: word_unat_eq_iff [of "take_bit 12 t"] unat_take_bit12)

lemma small_take_bit: "unat (f :: u32) < 4096 \<longleftrightarrow> take_bit 12 f = f"
proof -
  have "unat f mod 4096 = unat f \<longleftrightarrow> unat f < 4096" by (metis mod_less mod_less_divisor zero_less_numeral)
  then show ?thesis by (simp add: word_unat_eq_iff [of "take_bit 12 f"] unat_take_bit12)
qed

lemma flags_mask: "(0xfff0000000000fff :: u64) = NOT (push_bit 12 (mask 40))"
  by (simp add: mask_eq_exp_minus_1 push_bit_eq_mult)

lemma aligned_bits: "aligned a \<Longrightarrow> n < 12 \<Longrightarrow> \<not> bit a n"
proof -
  assume "aligned a" "n < 12"
  then have "\<not> bit (take_bit 12 a) n" by (simp add: aligned_take_bit)
  with \<open>n < 12\<close> show ?thesis by (simp add: bit_take_bit_iff)
qed

lemma small_bits: "unat (f :: u32) < 4096 \<Longrightarrow> 12 \<le> n \<Longrightarrow> \<not> bit f n"
proof -
  assume "unat f < 4096" "12 \<le> n"
  then have "bit f n \<longleftrightarrow> bit (take_bit 12 f) n" by (simp add: small_take_bit)
  with \<open>12 \<le> n\<close> show ?thesis by (simp add: bit_take_bit_iff)
qed

lemma PTE_ADDR_ucast:
  fixes a f :: u32
  assumes "aligned a" and "unat f < 4096"
  shows "ucast (PTE_ADDR (ucast (a OR f))) = a"
proof (rule bit_word_eqI)
  fix n
  assume n: "n < LENGTH(32)"
  show "bit (ucast (PTE_ADDR (ucast (a OR f))) :: u32) n \<longleftrightarrow> bit a n"
    using n aligned_bits [OF assms(1), of n] small_bits [OF assms(2), of n]
    by (cases "n < 12") (auto simp: PTE_ADDR_def flags_mask bit_simps not_less)
qed

lemma PTE_FLAGS_ucast:
  fixes a f :: u32
  assumes "aligned a" and "unat f < 4096"
  shows "ucast (PTE_FLAGS (ucast (a OR f))) = f"
proof (rule bit_word_eqI)
  fix n
  assume n: "n < LENGTH(32)"
  show "bit (ucast (PTE_FLAGS (ucast (a OR f))) :: u32) n \<longleftrightarrow> bit f n"
    using n aligned_bits [OF assms(1), of n] small_bits [OF assms(2), of n]
    by (cases "n < 12") (auto simp: PTE_FLAGS_def flags_mask bit_simps not_less)
qed

lemma aligned_diff:
  assumes "aligned a" "aligned b"
  shows "aligned (a - b)"
  using assms offset_cases_u32 [of a b] by (auto split: if_splits)

lemma aligned_KERNBASE: "aligned KERNBASE"
  by (simp add: KERNBASE_def)

lemma aligned_V2P: "aligned t \<Longrightarrow> aligned (V2P t)"
  unfolding V2P_def by (rule aligned_diff [OF _ aligned_KERNBASE])

lemma present_bit: "present e \<longleftrightarrow> bit e 0"
  by (simp add: present_def PTE_P_def and_one_eq bit_0 mod_2_eq_odd)

lemma present_OR: "present (ucast (a OR PTE_P OR f))" "present (ucast (a OR f OR PTE_P))"
  by (simp_all add: present_bit bit_simps PTE_P_def)

lemma small_OR:
  fixes f g :: u32
  shows "unat f < 4096 \<Longrightarrow> unat g < 4096 \<Longrightarrow> unat (f OR g) < 4096"
  unfolding small_take_bit by simp

lemma entry_bits:
  assumes "aligned t" and "unat perm < 4096"
  shows "P2V (PTE_ADDR (ucast (V2P t OR PTE_P OR perm))) = t"
    "P2V (PTE_ADDR (ucast (V2P t OR perm OR PTE_P))) = t"
proof -
  have p: "unat PTE_P < 4096" by (simp add: PTE_P_def)
  have "aligned (V2P t)" using assms(1) by (simp add: aligned_V2P)
  then show "P2V (PTE_ADDR (ucast (V2P t OR PTE_P OR perm))) = t"
    "P2V (PTE_ADDR (ucast (V2P t OR perm OR PTE_P))) = t"
    using small_OR [OF p assms(2)] small_OR [OF assms(2) p]
    by (simp_all add: P2V_def PTE_ADDR_ucast V2P_def or.assoc)
qed

section \<open>Tables as trees\<close>

text \<open>
  Entry \<open>i\<close> of a table, the table it points to, and the table reached along a list of indices.
  A table directory is reached by no index, a page directory by one and a page table by two.
\<close>

abbreviation ent :: "mem \<Rightarrow> u32 \<Rightarrow> u32 \<Rightarrow> u64" where
  "ent m t i \<equiv> load64 m (t + 8 * i)"

definition tab_of :: "mem \<Rightarrow> u32 \<Rightarrow> u32 \<Rightarrow> u32 option" where
  "tab_of m t i = (if present (ent m t i) then Some (P2V (PTE_ADDR (ent m t i))) else None)"

primrec node :: "mem \<Rightarrow> u32 \<Rightarrow> u32 list \<Rightarrow> u32 option" where
  "node m t [] = Some t"
| "node m t (i # is) = (case tab_of m t i of None \<Rightarrow> None | Some u \<Rightarrow> node m u is)"

definition path :: "u32 list \<Rightarrow> bool" where
  "path is \<longleftrightarrow> length is \<le> 2 \<and> (\<forall>i \<in> set is. unat i < 512)"

definition tabs :: "mem \<Rightarrow> u32 set \<Rightarrow> nat set" where
  "tabs m R = {page_of t |p is t. p \<in> R \<and> path is \<and> node m p is = Some t}"

text \<open>The entry of a virtual address; a missing table counts as a table of absent entries.\<close>

definition pmap :: "mem \<Rightarrow> u32 \<Rightarrow> u32 \<Rightarrow> u64" where
  "pmap m p va = (case node m p [PDPTX va, PDX va] of None \<Rightarrow> 0 | Some t \<Rightarrow> ent m t (PTX va))"

text \<open>
  The invariant of the tables with roots \<open>R\<close> and of the data pages \<open>D\<close>: tables are whole pages,
  no page is a table twice, and tables, data pages and free pages are disjoint.
\<close>

definition vm_ok :: "kmem_state \<Rightarrow> u32 set \<Rightarrow> nat set \<Rightarrow> bool" where
  "vm_ok st R D \<longleftrightarrow> kmem_ok st \<and> D \<inter> kmem_avail st = {}
     \<and> tabs (ram st) R \<inter> (kmem_avail st \<union> D) = {}
     \<and> (\<forall>p \<in> R. \<forall>is t. path is \<longrightarrow> node (ram st) p is = Some t \<longrightarrow> aligned t \<and> t \<noteq> 0)
     \<and> (\<forall>p \<in> R. \<forall>q \<in> R. \<forall>is js t. path is \<longrightarrow> path js \<longrightarrow> node (ram st) p is = Some t \<longrightarrow>
           node (ram st) q js = Some t \<longrightarrow> p = q \<and> is = js)"

lemma path_simps [simp]:
  "path []" "path [i] \<longleftrightarrow> unat i < 512" "path [i, j] \<longleftrightarrow> unat i < 512 \<and> unat j < 512"
  by (simp_all add: path_def)

lemma path_cases:
  assumes "path is"
  obtains "is = []" | i where "is = [i]" "unat i < 512"
    | i j where "is = [i, j]" "unat i < 512" "unat j < 512"
proof -
  consider "is = []" | i where "is = [i]" | i j where "is = [i, j]" | i j k l where "is = i # j # k # l"
    by (metis list.exhaust)
  then show ?thesis using assms that by cases (auto simp: path_def)
qed

lemma indexes_small [simp]:
  "unat (PDPTX va) < 512" "unat (PDX va) < 512" "unat (PTX va) < 512"
proof -
  have a: "unat (x AND y) \<le> unat y" for x y :: u32
    using word_and_le1 [of x y] by (simp add: word_le_nat_alt)
  show "unat (PDPTX va) < 512" "unat (PDX va) < 512" "unat (PTX va) < 512"
    using a [of "drop_bit 30 va" "0x3"] a [of "drop_bit 21 va" "0x1FF"]
      a [of "drop_bit 12 va" "0x1FF"]
    by (simp_all add: PDPTX_def PDX_def PTX_def)
qed

lemma vm_okD:
  assumes "vm_ok st R D"
  shows "kmem_ok st" "D \<inter> kmem_avail st = {}" "tabs (ram st) R \<inter> (kmem_avail st \<union> D) = {}"
    "\<And>p is t. p \<in> R \<Longrightarrow> path is \<Longrightarrow> node (ram st) p is = Some t \<Longrightarrow> aligned t"
    "\<And>p is t. p \<in> R \<Longrightarrow> path is \<Longrightarrow> node (ram st) p is = Some t \<Longrightarrow> t \<noteq> 0"
    "\<And>p is t. p \<in> R \<Longrightarrow> path is \<Longrightarrow> node (ram st) p is = Some t \<Longrightarrow> page_of t \<in> tabs (ram st) R"
    "\<And>p q is js t. p \<in> R \<Longrightarrow> q \<in> R \<Longrightarrow> path is \<Longrightarrow> path js \<Longrightarrow> node (ram st) p is = Some t \<Longrightarrow>
       node (ram st) q js = Some t \<Longrightarrow> p = q \<and> is = js"
proof -
  note v = assms [unfolded vm_ok_def]
  show "kmem_ok st" "D \<inter> kmem_avail st = {}" "tabs (ram st) R \<inter> (kmem_avail st \<union> D) = {}"
    using v by auto
  show "aligned t" "t \<noteq> 0" if "p \<in> R" "path is" "node (ram st) p is = Some t" for p "is" t
    using v that by blast+
  show "page_of t \<in> tabs (ram st) R" if "p \<in> R" "path is" "node (ram st) p is = Some t" for p "is" t
    using that by (auto simp: tabs_def)
  show "p = q \<and> is = js" if "p \<in> R" "q \<in> R" "path is" "path js" "node (ram st) p is = Some t"
    "node (ram st) q js = Some t" for p q "is" js t
    using v that by blast
qed

lemma node_cong:
  assumes "\<And>js u j. path js \<Longrightarrow> length js < 2 \<Longrightarrow> node m p js = Some u \<Longrightarrow> unat j < 512 \<Longrightarrow>
      ent m' u j = ent m u j"
    and "path is"
  shows "node m' p is = node m p is"
  using assms(2)
proof (cases rule: path_cases)
  case 1
  then show ?thesis by simp
next
  case (2 i)
  then show ?thesis using assms(1) [of "[]" p i] by (simp add: tab_of_def)
next
  case (3 i j)
  have t: "tab_of m' p i = tab_of m p i"
    using assms(1) [of "[]" p i] 3 by (simp add: tab_of_def)
  show ?thesis
  proof (cases "tab_of m p i")
    case None
    then show ?thesis using t 3 by simp
  next
    case (Some u)
    then have "ent m' u j = ent m u j" using assms(1) [of "[i]" u j] 3 by simp
    then show ?thesis using t 3 Some by (simp add: tab_of_def)
  qed
qed

text \<open>A change outside the tables changes no table.\<close>

lemma vm_frame:
  assumes ok: "vm_ok st R D" and k: "kmem_ok st'"
    and same: "\<And>x. page_of x \<in> tabs (ram st) R \<Longrightarrow> ram st' x = ram st x"
    and d: "tabs (ram st) R \<inter> (kmem_avail st' \<union> D') = {}" "D' \<inter> kmem_avail st' = {}"
  shows "vm_ok st' R D'" "\<And>p. p \<in> R \<Longrightarrow> pmap (ram st') p = pmap (ram st) p"
    "tabs (ram st') R = tabs (ram st) R"
    "\<And>p is. p \<in> R \<Longrightarrow> path is \<Longrightarrow> node (ram st') p is = node (ram st) p is"
proof -
  note v = vm_okD [OF ok]
  have e: "ent (ram st') u j = ent (ram st) u j"
    if "p \<in> R" "path js" "node (ram st) p js = Some u" "unat j < 512" for p js u j
    by (rule load64_page [OF v(4) [OF that(1-3)] that(4)])
      (use same v(6) [OF that(1-3)] in simp)
  show n: "node (ram st') p is = node (ram st) p is" if "p \<in> R" "path is" for p "is"
    by (rule node_cong [OF _ that(2)]) (use e that(1) in blast)
  show t: "tabs (ram st') R = tabs (ram st) R"
    unfolding tabs_def by (intro Collect_cong ex_cong1) (use n in auto)
  show "vm_ok st' R D'"
    unfolding vm_ok_def t using k d n v(4,5,7) by simp
  show "pmap (ram st') p = pmap (ram st) p" if "p \<in> R" for p
  proof
    fix va
    show "pmap (ram st') p va = pmap (ram st) p va"
      using n [OF that, of "[PDPTX va, PDX va]"] e [OF that, of "[PDPTX va, PDX va]"]
      by (simp add: pmap_def split: option.splits)
  qed
qed

text \<open>The three indices of an address determine its page, and nothing else of it.\<close>

lemma unat_indexes:
  "unat (PDPTX va) = page_of va div 262144 mod 4" "unat (PDX va) = page_of va div 512 mod 512"
  "unat (PTX va) = page_of va mod 512"
proof -
  have "unat (drop_bit n va AND mask k) = unat va div 2 ^ n mod 2 ^ k" for n k
    by (simp add: unsigned_drop_bit_eq unsigned_take_bit_eq drop_bit_eq_div [where ?'a = nat] take_bit_nat_def
        flip: take_bit_eq_mask)
  from this [of 30 2] this [of 21 9] this [of 12 9]
  show "unat (PDPTX va) = page_of va div 262144 mod 4" "unat (PDX va) = page_of va div 512 mod 512"
    "unat (PTX va) = page_of va mod 512"
    by (simp_all add: PDPTX_def PDX_def PTX_def page_of_def mask_eq_exp_minus_1
        flip: div_mult2_eq)
qed

lemma page_of_less: "page_of va < 1048576"
  unfolding page_of_def by (rule less_mult_imp_div_less) simp

lemma indexes_inj:
  "PDPTX va = PDPTX vb \<and> PDX va = PDX vb \<and> PTX va = PTX vb \<longleftrightarrow> page_of va = page_of vb"
proof
  have split: "n = n div 262144 mod 4 * 262144 + n div 512 mod 512 * 512 + n mod 512"
    if "n < 1048576" for n :: nat
  proof -
    have "n div 262144 = n div 512 div 512" by (simp flip: div_mult2_eq)
    moreover have "n div 262144 < 4" using that by (intro less_mult_imp_div_less) simp
    ultimately have "n div 262144 mod 4 = n div 512 div 512" by simp
    then show ?thesis
      using div_mult_mod_eq [of n 512] div_mult_mod_eq [of "n div 512" 512] by linarith
  qed
  assume "PDPTX va = PDPTX vb \<and> PDX va = PDX vb \<and> PTX va = PTX vb"
  then show "page_of va = page_of vb"
    using split [OF page_of_less, of va] split [OF page_of_less, of vb]
      unat_indexes [of va] unat_indexes [of vb] by simp
next
  assume "page_of va = page_of vb"
  then show "PDPTX va = PDPTX vb \<and> PDX va = PDX vb \<and> PTX va = PTX vb"
    by (simp add: word_unat_eq_iff unat_indexes)
qed

declare node.simps(2) [simp del]

text \<open>Writing an entry of a page table.\<close>

lemma set_entry:
  assumes ok: "vm_ok st R D" and p: "p \<in> R" and t: "node (ram st) p [PDPTX a, PDX a] = Some t"
    and m': "m' = store64 (ram st) (t + 8 * PTX a) v"
  shows "vm_ok (st\<lparr>ram := m'\<rparr>) R D"
    "\<And>q va. q \<in> R \<Longrightarrow> pmap m' q va = (if q = p \<and> page_of va = page_of a then v else pmap (ram st) q va)"
    "\<And>x. page_of x \<notin> tabs (ram st) R \<Longrightarrow> m' x = ram st x"
    "\<And>q is. q \<in> R \<Longrightarrow> path is \<Longrightarrow> node m' q is = node (ram st) q is"
    "kmem_avail (st\<lparr>ram := m'\<rparr>) = kmem_avail st" "tabs m' R = tabs (ram st) R"
proof -
  note o = vm_okD [OF ok]
  have pt: "path [PDPTX a, PDX a]" by simp
  note al = o(4) [OF p pt t] and tp = o(6) [OF p pt t]
  have e: "ent m' u j = (if u = t \<and> j = PTX a then v else ent (ram st) u j)"
    if "q \<in> R" "path js" "node (ram st) q js = Some u" "unat j < 512" for q js u j
    unfolding m' using load64_store64_entry [OF al o(4) [OF that(1-3)] _ that(4)] by simp
  show fr: "m' x = ram st x" if "page_of x \<notin> tabs (ram st) R" for x
    unfolding m' by (rule store64_entry_page [OF al]) (use that tp in auto)
  have "m' x = ram st x" if "page_of x \<in> kmem_avail st" for x
    using fr that o(3) by blast
  note kw = kmem_write [OF o(1) this]
  show av: "kmem_avail (st\<lparr>ram := m'\<rparr>) = kmem_avail st" by (rule kw(2))
  show n: "node m' q is = node (ram st) q is" if "q \<in> R" "path is" for q "is"
  proof (rule node_cong [OF _ that(2)])
    fix js u j
    assume h: "path js" "length js < 2" "node (ram st) q js = Some u" "unat (j :: u32) < 512"
    have "u \<noteq> t" using o(7) [OF that(1) p h(1) pt h(3)] t h(2) by auto
    then show "ent m' u j = ent (ram st) u j" using e [OF that(1) h(1,3,4)] by simp
  qed
  show tb: "tabs m' R = tabs (ram st) R"
    unfolding tabs_def by (intro Collect_cong ex_cong1) (use n in auto)
  show "vm_ok (st\<lparr>ram := m'\<rparr>) R D"
    unfolding vm_ok_def using kw o(2,3) tb n o(4,5,7) by simp
  show "pmap m' q va = (if q = p \<and> page_of va = page_of a then v else pmap (ram st) q va)"
    if "q \<in> R" for q va
  proof (cases "node (ram st) q [PDPTX va, PDX va]")
    case None
    then have "\<not> (q = p \<and> page_of va = page_of a)"
      using t indexes_inj [of va a] by auto
    then show ?thesis using n [OF that, of "[PDPTX va, PDX va]"] None by (auto simp: pmap_def)
  next
    case (Some u)
    have u: "u = t \<longleftrightarrow> q = p \<and> PDPTX va = PDPTX a \<and> PDX va = PDX a"
      using o(7) [OF that p _ pt Some] t Some by auto
    show ?thesis
      using n [OF that, of "[PDPTX va, PDX va]"] Some e [OF that _ Some, of "PTX va"] u
        indexes_inj [of va a]
      by (auto simp: pmap_def)
  qed
qed

text \<open>
  Hanging a fresh zeroed page under an absent entry of the directory or of a page directory.
\<close>

lemma grow_node:
  assumes h: "\<And>q js u j. q \<in> R \<Longrightarrow> path js \<Longrightarrow> node m q js = Some u \<Longrightarrow> unat j < 512 \<Longrightarrow>
      ent m' u j = (if u = t \<and> j = i then e else ent m u j)"
    and inj: "\<And>p q is js t. p \<in> R \<Longrightarrow> q \<in> R \<Longrightarrow> path is \<Longrightarrow> path js \<Longrightarrow> node m p is = Some t \<Longrightarrow>
       node m q js = Some t \<Longrightarrow> p = q \<and> is = js"
    and t: "p \<in> R" "path is" "length is < 2" "node m p is = Some t" "unat i < 512"
    and e: "\<not> present (ent m t i)" "present e" "P2V (PTE_ADDR e) = t'"
    and z: "\<And>j. unat j < 512 \<Longrightarrow> ent m' t' j = 0"
    and q: "q \<in> R" "path js"
  shows "node m' q js = (if q = p \<and> js = is @ [i] then Some t' else node m q js)"
  using q(2)
proof (cases rule: path_cases)
  case 1
  then show ?thesis by auto
next
  case (2 a)
  have "q = t \<longleftrightarrow> q = p \<and> is = []"
    using inj [OF q(1) t(1) _ t(2), of "[]"] t(4) by auto
  then show ?thesis
    using 2 h [OF q(1), of "[]" q a] e by (auto simp: node.simps(2) tab_of_def)
next
  case (3 a b)
  have r: "q = t \<longleftrightarrow> q = p \<and> is = []"
    using inj [OF q(1) t(1) _ t(2), of "[]"] t(4) by auto
  note ha = h [OF q(1), of "[]" q a]
  show ?thesis
  proof (cases "tab_of m q a")
    case None
    have "tab_of m' t' b = None" using z [OF 3(3)] by (simp add: tab_of_def present_def)
    moreover have "\<not> (q = p \<and> [a, b] = is @ [i])"
      using None t(3,4) by (cases "is") (auto simp: node.simps(2))
    moreover have "tab_of m' q a = None \<or> tab_of m' q a = Some t'"
      using None ha 3(2) e by (auto simp: tab_of_def split: if_splits)
    ultimately show ?thesis using None 3 by (auto simp: node.simps(2))
  next
    case (Some u)
    have s: "tab_of m' q a = Some u"
      using Some ha 3(2) e r by (auto simp: tab_of_def split: if_splits)
    have nu: "node m q [a] = Some u" using Some by (simp add: node.simps(2))
    have "u = t \<longleftrightarrow> q = p \<and> is = [a]"
      using inj [OF q(1) t(1) _ t(2) nu] 3(2) t(4) nu by auto
    then show ?thesis
      using s Some 3 h [OF q(1) _ nu, of b] e by (auto simp: node.simps(2) tab_of_def)
  qed
qed

text \<open>
  What a walk may do to the tables: new table pages come out of the free pages, no entry of any
  address changes, and nothing but tables and pages that were free is written.
\<close>

definition vm_kept :: "kmem_state \<Rightarrow> kmem_state \<Rightarrow> u32 set \<Rightarrow> nat set \<Rightarrow> bool" where
  "vm_kept st st' R D \<longleftrightarrow> vm_ok st' R D
     \<and> (\<forall>x. page_of x \<notin> tabs (ram st) R \<union> kmem_avail st \<longrightarrow> ram st' x = ram st x)
     \<and> kmem_avail st' \<subseteq> kmem_avail st
     \<and> tabs (ram st) R \<subseteq> tabs (ram st') R
     \<and> tabs (ram st') R \<union> kmem_avail st' = tabs (ram st) R \<union> kmem_avail st"

definition vm_grown :: "kmem_state \<Rightarrow> kmem_state \<Rightarrow> u32 set \<Rightarrow> nat set \<Rightarrow> bool" where
  "vm_grown st st' R D \<longleftrightarrow> vm_kept st st' R D \<and> (\<forall>q \<in> R. pmap (ram st') q = pmap (ram st) q)"

lemma vm_kept_refl: "vm_ok st R D \<Longrightarrow> vm_kept st st R D"
  by (auto simp: vm_kept_def)

lemma vm_kept_trans: "vm_kept st st1 R D \<Longrightarrow> vm_kept st1 st2 R D \<Longrightarrow> vm_kept st st2 R D"
  unfolding vm_kept_def by auto

lemma vm_grown_refl: "vm_ok st R D \<Longrightarrow> vm_grown st st R D"
  by (simp add: vm_grown_def vm_kept_refl)

lemma vm_grown_trans: "vm_grown st st1 R D \<Longrightarrow> vm_grown st1 st2 R D \<Longrightarrow> vm_grown st st2 R D"
  unfolding vm_grown_def by (auto intro: vm_kept_trans)

lemma vm_keptD:
  assumes "vm_kept st st' R D"
  shows "vm_ok st' R D" "page_of x \<notin> tabs (ram st) R \<Longrightarrow> page_of x \<notin> kmem_avail st \<Longrightarrow> ram st' x = ram st x"
    "page_of x \<in> D \<Longrightarrow> vm_ok st R D \<Longrightarrow> ram st' x = ram st x"
    "kmem_avail st' \<subseteq> kmem_avail st"
  using assms vm_okD(2,3) [of st R D] unfolding vm_kept_def by auto

lemma node_append: "node m p (is @ js) = (case node m p is of None \<Rightarrow> None | Some u \<Rightarrow> node m u js)"
  by (induction "is" arbitrary: p) (auto simp: node.simps(2) split: option.splits)

lemma grow_vm_ok:
  assumes ok: "vm_ok st R D" and P: "p \<in> R" "path ks"
    and n: "\<And>q js. q \<in> R \<Longrightarrow> path js \<Longrightarrow>
      node (ram st2) q js = (if q = p \<and> js = ks then Some t' else node (ram st) q js)"
    and old: "node (ram st) p ks = None" and t': "aligned t'" "t' \<noteq> 0" "page_of t' \<notin> kmem_avail st2"
      "kmem_avail st = insert (page_of t') (kmem_avail st2)"
    and k: "kmem_ok st2"
  shows "vm_ok st2 R D" "tabs (ram st2) R = insert (page_of t') (tabs (ram st) R)"
proof -
  note o = vm_okD [OF ok]
  have fresh: "page_of t' \<notin> tabs (ram st) R" using t'(4) o(3) by auto
  have nt: "u \<noteq> t'" if "q \<in> R" "path js" "node (ram st) q js = Some u" for q js u
    using o(6) [OF that] fresh by auto
  have n2: "node (ram st2) q js = Some u \<longleftrightarrow>
      (if u = t' then q = p \<and> js = ks else node (ram st) q js = Some u)"
    if "q \<in> R" "path js" for q js u
    using n [OF that] nt [OF that] old by auto
  show tb: "tabs (ram st2) R = insert (page_of t') (tabs (ram st) R)" (is "?l = ?r")
  proof (intro equalityI subsetI)
    fix y
    assume "y \<in> ?l"
    then obtain q js u where y: "y = page_of u" "q \<in> R" "path js" "node (ram st2) q js = Some u"
      by (auto simp: tabs_def)
    then show "y \<in> ?r" using n2 [OF y(2,3), of u] o(6) [OF y(2,3), of u] by (auto split: if_splits)
  next
    fix y
    assume y: "y \<in> ?r"
    have "page_of t' \<in> ?l" using n2 [OF P, of t'] P unfolding tabs_def by auto
    moreover have "y \<in> ?l" if "y \<in> tabs (ram st) R"
    proof -
      obtain q js u where u: "y = page_of u" "q \<in> R" "path js" "node (ram st) q js = Some u"
        using \<open>y \<in> tabs (ram st) R\<close> by (auto simp: tabs_def)
      then have "node (ram st2) q js = Some u" using n2 [OF u(2,3), of u] nt [OF u(2-4)] by simp
      then show ?thesis using u unfolding tabs_def by auto
    qed
    ultimately show "y \<in> ?l" using y by auto
  qed
  have al: "aligned u \<and> u \<noteq> 0" if "q \<in> R" "path js" "node (ram st2) q js = Some u" for q js u
    using n2 [OF that(1,2), of u] that o(4) [OF that(1,2)] o(5) [OF that(1,2)] t'(1,2)
    by (auto split: if_splits)
  have inj: "q = q' \<and> js = js'" if "q \<in> R" "q' \<in> R" "path js" "path js'"
    "node (ram st2) q js = Some u" "node (ram st2) q' js' = Some u" for q q' js js' u
    using n2 [OF that(1,3), of u] n2 [OF that(2,4), of u] that o(7) [OF that(1-4), of u]
    by (auto split: if_splits)
  have d: "D \<inter> kmem_avail st2 = {}"
    "insert (page_of t') (tabs (ram st) R) \<inter> (kmem_avail st2 \<union> D) = {}"
    using o(2,3) t'(3,4) by auto
  show "vm_ok st2 R D"
    unfolding vm_ok_def tb by (intro conjI ballI allI impI k d) (use al inj in blast)+
qed

lemma grow_tab:
  assumes ok: "vm_ok st R D"
    and t: "p \<in> R" "path is" "length is < 2" "node (ram st) p is = Some t" "unat i < 512"
    and a: "\<not> present (ent (ram st) t i)" and k: "kalloc st = Ok (t', st1)"
    and e: "present e" "P2V (PTE_ADDR e) = t'"
    and st2: "st2 = st1\<lparr>ram := store64 (memset (ram st1) t' 0 PGSIZE) (t + 8 * i) e\<rparr>"
  shows "vm_grown st st2 R D" "node (ram st2) p (is @ [i]) = Some t'"
    "\<And>js u. path js \<Longrightarrow> node (ram st) p js = Some u \<Longrightarrow> node (ram st2) p js = Some u"
    "\<And>j. unat j < 512 \<Longrightarrow> ent (ram st2) t' j = 0"
    "kmem_avail st = insert (page_of t') (kmem_avail st2)"
proof -
  note o = vm_okD [OF ok]
  note ka = kalloc_page [OF o(1) k]
  note al = o(4) [OF t(1,2,4)] and tp = o(6) [OF t(1,2,4)]
  let ?m = "ram st" and ?m2 = "ram st2"
  have P: "path (is @ [i])" using t(2,3,5) by (auto simp: path_def)
  have fresh: "page_of t' \<notin> tabs ?m R" using ka(5) o(3) by auto
  have tt: "page_of t \<noteq> page_of t'" using tp fresh by auto
  have m2: "?m2 x = ?m x" if "page_of x \<notin> kmem_avail st" "page_of x \<noteq> page_of t" for x
    using that ka(5) ka(6) [of x] store64_entry_page [OF al t(5) that(2)]
    by (auto simp: st2 memset_fill PGSIZE_def fill_page [OF ka(2)])
  have z: "ent ?m2 t' j = 0" if "unat j < 512" for j
    unfolding st2 using load64_store64_entry [OF al ka(2) t(5) that] tt that ka(2)
    by (auto simp: memset_fill PGSIZE_def fill_page intro: load64_zero)
  show "ent ?m2 t' j = 0" if "unat j < 512" for j by (rule z [OF that])
  have h: "ent ?m2 u j = (if u = t \<and> j = i then e else ent ?m u j)"
    if "q \<in> R" "path js" "node ?m q js = Some u" "unat j < 512" for q js u j
  proof -
    have u: "aligned u" "page_of u \<in> tabs ?m R" using o(4,6) that by blast+
    have "ent (memset (ram st1) t' 0 PGSIZE) u j = ent ?m u j"
    proof (rule load64_page [OF u(1) that(4)])
      fix x
      assume x: "page_of x = page_of u"
      then have "page_of x \<notin> kmem_avail st" "page_of x \<noteq> page_of t'" using u(2) o(3) fresh by auto
      then show "memset (ram st1) t' 0 PGSIZE x = ?m x"
        using ka(6) [of x] by (simp add: memset_fill PGSIZE_def fill_page [OF ka(2)])
    qed
    then show ?thesis unfolding st2 using load64_store64_entry [OF al u(1) t(5) that(4)] by simp
  qed
  have n: "node ?m2 q js = (if q = p \<and> js = is @ [i] then Some t' else node ?m q js)"
    if "q \<in> R" "path js" for q js
    by (rule grow_node [of R ?m ?m2 t i e, OF h o(7) t a e z that])
  show "node ?m2 p (is @ [i]) = Some t'" using n [OF t(1) P] by simp
  have old: "node ?m p (is @ [i]) = None"
    using t(4) a by (simp add: node_append node.simps(2) tab_of_def)
  show "node ?m2 p js = Some u" if "path js" "node ?m p js = Some u" for js u
    using n [OF t(1) that(1)] that(2) old by auto
  have "?m2 x = ram st1 x" if "page_of x \<in> kmem_avail st1" for x
  proof -
    have "page_of x \<noteq> page_of t" "page_of x \<noteq> page_of t'" using that ka(4,5) tp o(3) by auto
    then show ?thesis
      using store64_entry_page [OF al t(5)]
      by (simp add: st2 memset_fill PGSIZE_def fill_page [OF ka(2)])
  qed
  from kmem_write [OF ka(1) this]
  have kw: "kmem_ok st2" "kmem_avail st2 = kmem_avail st1" by (simp_all add: st2)
  show "kmem_avail st = insert (page_of t') (kmem_avail st2)" using ka(5) kw(2) by simp
  have g: "vm_ok st2 R D" "tabs ?m2 R = insert (page_of t') (tabs ?m R)"
    by (rule grow_vm_ok [OF ok t(1) P], rule n, assumption, assumption,
        use old ka(2-5) kw in simp_all)+
  have "pmap ?m2 q va = pmap ?m q va" if "q \<in> R" for q va
  proof (cases "node ?m q [PDPTX va, PDX va]")
    case None
    then show ?thesis
      using n [OF that, of "[PDPTX va, PDX va]"] z [of "PTX va"] by (simp add: pmap_def)
  next
    case (Some u)
    have "u \<noteq> t" using o(7) [OF that t(1) _ t(2) Some] t(3,4) by auto
    moreover have "node ?m2 q [PDPTX va, PDX va] = Some u"
      using n [OF that, of "[PDPTX va, PDX va]"] Some old by auto
    ultimately show ?thesis
      using Some h [OF that _ Some, of "PTX va"] by (simp add: pmap_def)
  qed
  moreover have "?m2 x = ?m x" if "page_of x \<notin> tabs ?m R \<union> kmem_avail st" for x
    by (rule m2) (use that tp in auto)
  ultimately show "vm_grown st st2 R D"
    unfolding vm_grown_def vm_kept_def using g kw(2) ka(5) by auto
qed

section \<open>walkpgdir\<close>

lemma node2: "node m p [i, j] = (case node m p [i] of None \<Rightarrow> None | Some t \<Rightarrow> tab_of m t j)"
  by (simp add: node.simps(2) split: option.splits)

lemma node1: "node m p [i] = tab_of m p i"
  by (simp add: node.simps(2) split: option.splits)

text \<open>
  The contract of a walk: with \<open>alloc\<close> it returns the entry of \<open>va\<close>, growing the tables, or
  panics when memory runs out; without, it returns the entry or 0 and changes nothing.
\<close>

lemma alloc_pte_tab:
  assumes ok: "vm_ok st R D" and p: "p \<in> R" and perm: "unat perm < 4096"
    and ij: "unat i < 512" "unat j < 512"
    and d: "node (ram st) p [i] = Some d" and a: "\<not> present (ent (ram st) d j)"
  obtains "kalloc st = Panic ''out of memory''" "kmem_avail st = {}"
  | t st1 st2 where "kalloc st = Ok (t, st1)" "t \<noteq> 0" "vm_grown st st2 R D"
      "st2 = st1\<lparr>ram := store64 (memset (ram st1) t 0 PGSIZE) (d + 8 * j)
          (ucast (V2P t OR PTE_P OR perm))\<rparr>"
      "node (ram st2) p [i, j] = Some t" "card (kmem_avail st) \<le> Suc (card (kmem_avail st2))"
proof (cases rule: kalloc_total [OF vm_okD(1) [OF ok]])
  case (2 t st1)
  note k = kalloc_page [OF vm_okD(1) [OF ok] 2]
  note g = grow_tab [OF ok p _ _ d ij(2) a 2 present_OR(1) entry_bits(1) [OF k(2) perm] refl]
  show ?thesis by (rule that(2) [OF 2 k(3) g(1) refl]) (use g(2,5) ij card_insert_bound in simp_all)
qed (use that(1) in blast)

lemma alloc_pde_tab:
  assumes ok: "vm_ok st R D" and p: "p \<in> R" and i: "unat i < 512"
    and a: "\<not> present (ent (ram st) p i)"
  obtains "kalloc st = Panic ''out of memory''" "kmem_avail st = {}"
  | t st1 st2 where "kalloc st = Ok (t, st1)" "t \<noteq> 0" "vm_grown st st2 R D"
      "st2 = st1\<lparr>ram := store64 (memset (ram st1) t 0 PGSIZE) (p + 8 * i)
          (ucast (V2P t OR PTE_P))\<rparr>"
      "node (ram st2) p [i] = Some t" "\<And>j. unat j < 512 \<Longrightarrow> \<not> present (ent (ram st2) t j)"
      "card (kmem_avail st) \<le> Suc (card (kmem_avail st2))"
proof (cases rule: kalloc_total [OF vm_okD(1) [OF ok]])
  case (2 t st1)
  note k = kalloc_page [OF vm_okD(1) [OF ok] 2]
  have e: "present (ucast (V2P t OR PTE_P))" "P2V (PTE_ADDR (ucast (V2P t OR PTE_P))) = t"
    using present_OR(1) [of "V2P t" 0] entry_bits(1) [OF k(2), of 0] by simp_all
  have "node (ram st) p [] = Some p" by simp
  note g = grow_tab [OF ok p _ _ this i a 2 e refl]
  show ?thesis
  proof (rule that(2) [OF 2 k(3) g(1) refl])
    fix j :: u32
    assume "unat j < 512"
    from g(4) [OF _ _ this] show "\<not> present (ent (ram (st1\<lparr>ram := store64
        (memset (ram st1) t 0 PGSIZE) (p + 8 * i) (ucast (V2P t OR PTE_P))\<rparr>)) t j)"
      by (simp add: present_def)
  qed (use g(2,5) card_insert_bound in simp_all)
qed (use that(1) in blast)

text \<open>
  The contract of a walk: with \<open>alloc\<close> it returns the entry of \<open>va\<close>, growing the tables, or
  panics when memory runs out; without, it returns the entry or 0 and changes nothing.
\<close>

lemma walkpgdir_alloc:
  assumes ok: "vm_ok st R D" and p: "p \<in> R" and perm: "unat perm < 4096"
  obtains "walkpgdir st p va True perm = Panic ''out of memory''"
      "node (ram st) p [PDPTX va, PDX va] = None" "card (kmem_avail st) < 2"
  | t st' where "walkpgdir st p va True perm = Ok (t + 8 * PTX va, st')" "vm_grown st st' R D"
      "node (ram st') p [PDPTX va, PDX va] = Some t" "card (kmem_avail st) \<le> card (kmem_avail st') + 2"
proof (cases "present (ent (ram st) p (PDPTX va))")
  case False
  show ?thesis
  proof (cases rule: alloc_pde_tab [OF ok p indexes_small(1) [of va] False])
    case 1
    show ?thesis by (rule that(1)) (use False 1 in \<open>simp_all add: walkpgdir_def node2 node1 tab_of_def\<close>)
  next
    case (2 d st1 st2)
    have ok2: "vm_ok st2 R D" using 2(3) by (simp add: vm_grown_def vm_kept_def)
    show ?thesis
    proof (cases rule: alloc_pte_tab [OF ok2 p perm indexes_small(1,2) [of va] 2(5)
        2(6) [OF indexes_small(2) [of va]]])
      case 1
      show ?thesis
        by (rule that(1))
          (use False 2(1,2,4,7) 1 in \<open>simp_all add: walkpgdir_def Let_def node2 node1 tab_of_def\<close>)
    next
      case (2 t st3 st4)
      show ?thesis
        by (rule that(2) [OF _ vm_grown_trans [OF \<open>vm_grown st st2 R D\<close> 2(3)] 2(5)])
          (use False \<open>kalloc st = Ok (d, st1)\<close> \<open>d \<noteq> 0\<close> \<open>st2 = _\<close> 2(1,2,4,6)
             \<open>card (kmem_avail st) \<le> _\<close> in \<open>simp_all add: walkpgdir_def Let_def\<close>)
    qed
  qed
next
  case True
  note pr = True
  define d where "d = P2V (PTE_ADDR (ent (ram st) p (PDPTX va)))"
  have d: "node (ram st) p [PDPTX va] = Some d" using True by (simp add: node1 tab_of_def d_def)
  show ?thesis
  proof (cases "present (ent (ram st) d (PDX va))")
    case True
    show ?thesis
      by (rule that(2) [OF _ vm_grown_refl [OF ok]])
        (use True pr d in \<open>simp_all add: walkpgdir_def Let_def node2 tab_of_def d_def\<close>)
  next
    case False
    show ?thesis
    proof (cases rule: alloc_pte_tab [OF ok p perm indexes_small(1,2) [of va] d False])
      case 1
      show ?thesis
        by (rule that(1))
          (use False pr 1 d in \<open>simp_all add: walkpgdir_def Let_def node2 tab_of_def d_def\<close>)
    next
      case (2 t st3 st4)
      show ?thesis
        by (rule that(2) [OF _ 2(3,5)])
          (use False pr 2(1,2,4,6) in \<open>simp_all add: walkpgdir_def Let_def d_def\<close>)
    qed
  qed
qed

lemma walkpgdir_look:
  "walkpgdir st p va False perm = Ok (case node (ram st) p [PDPTX va, PDX va] of
     None \<Rightarrow> 0 | Some t \<Rightarrow> t + 8 * PTX va, st)"
  by (simp add: walkpgdir_def Let_def node2 node1 tab_of_def)

section \<open>mappages\<close>

text \<open>
  Walking with \<open>alloc\<close> and writing the entry found: the only change to any address space is the
  entry of the page of \<open>a\<close> in \<open>p\<close>.
\<close>

definition entry_set :: "kmem_state \<Rightarrow> kmem_state \<Rightarrow> u32 set \<Rightarrow> nat set \<Rightarrow> u32 \<Rightarrow> u32 \<Rightarrow> u64 \<Rightarrow> bool" where
  "entry_set st st' R D p a v \<longleftrightarrow> vm_kept st st' R D \<and> (\<forall>q \<in> R. \<forall>va. pmap (ram st') q va =
     (if q = p \<and> page_of va = page_of a then v else pmap (ram st) q va))"

lemma entry_setI:
  assumes g: "vm_grown st st1 R D" and p: "p \<in> R"
    and t: "node (ram st1) p [PDPTX a, PDX a] = Some t"
  shows "entry_set st (st1\<lparr>ram := store64 (ram st1) (t + 8 * PTX a) v\<rparr>) R D p a v"
    "load64 (ram st1) (t + 8 * PTX a) = pmap (ram st) p a" "t + 8 * PTX a \<noteq> 0"
    "kmem_avail (st1\<lparr>ram := store64 (ram st1) (t + 8 * PTX a) v\<rparr>) = kmem_avail st1"
proof -
  have ok1: "vm_ok st1 R D" using g by (simp add: vm_grown_def vm_kept_def)
  note s = set_entry [OF ok1 p t refl, where v = v]
  show "kmem_avail (st1\<lparr>ram := store64 (ram st1) (t + 8 * PTX a) v\<rparr>) = kmem_avail st1"
    by (rule s(5))
  have "vm_kept st1 (st1\<lparr>ram := store64 (ram st1) (t + 8 * PTX a) v\<rparr>) R D"
    unfolding vm_kept_def using s by simp
  then show "entry_set st (st1\<lparr>ram := store64 (ram st1) (t + 8 * PTX a) v\<rparr>) R D p a v"
    using g s(2) unfolding entry_set_def vm_grown_def by (auto intro: vm_kept_trans)
  have "pmap (ram st1) p a = pmap (ram st) p a" using g p by (simp add: vm_grown_def)
  then show "load64 (ram st1) (t + 8 * PTX a) = pmap (ram st) p a" using t by (simp add: pmap_def)
  have "aligned t" "t \<noteq> 0" using vm_okD(4,5) [OF ok1 p _ t] by simp_all
  then have "unat (t + 8 * PTX a) \<noteq> 0"
    using unat_entry [of t "PTX a" 0] by (simp add: word_unat_eq_iff)
  then show "t + 8 * PTX a \<noteq> 0" by auto
qed

text \<open>Pages counted from an aligned base; addresses wrap at the top of the address space.\<close>

lemma page_of_step:
  "page_of (va - (a + 4096)) = (if page_of (va - a) = 0 then 1048575 else page_of (va - a) - 1)"
proof -
  define x where "x = unat (va - a)"
  have "unat (4096 :: u32) = 4096" by simp
  then have "unat (va - a - 4096) = (if 4096 \<le> x then x - 4096 else 4294967296 + x - 4096)"
    using offset_cases_u32 [of "va - a" 4096] by (simp add: x_def)
  moreover have "va - (a + 4096) = va - a - 4096" by (simp add: algebra_simps)
  ultimately have u: "unat (va - (a + 4096)) = (if 4096 \<le> x then x - 4096 else 4294967296 + x - 4096)"
    by (simp only:)
  have "(4294967296 + x - 4096) div 4096 = 1048575" if "x < 4096"
    using that by (intro div_nat_eqI) simp_all
  then show ?thesis
    unfolding page_of_def u x_def [symmetric] 
    using le_div_geq [of 4096 x] by (cases "4096 \<le> x") simp_all
qed

text \<open>What \<open>mappages\<close> leaves: pages \<open>0 \<dots> n\<close> from \<open>a\<close> on lead to the frames from \<open>pa\<close> on.\<close>

definition mapped ::
  "kmem_state \<Rightarrow> kmem_state \<Rightarrow> u32 set \<Rightarrow> nat set \<Rightarrow> u32 \<Rightarrow> u32 \<Rightarrow> nat \<Rightarrow> u32 \<Rightarrow> u32 \<Rightarrow> bool" where
  "mapped st st' R D p a n pa perm \<longleftrightarrow> vm_kept st st' R D \<and> (\<forall>q \<in> R. \<forall>va. pmap (ram st') q va =
     (if q = p \<and> page_of (va - a) \<le> n
      then ucast (pa + of_nat (page_of (va - a)) * 4096 OR perm OR PTE_P)
      else pmap (ram st) q va))"

lemma same_page_iff: "aligned a \<Longrightarrow> page_of va = page_of a \<longleftrightarrow> page_of (va - a) = 0"
  using page_of_offset [of a va] by (simp add: page_of_def [of "va - a"] div_eq_0_iff)

lemma mapped_first:
  assumes "aligned a" and "entry_set st st' R D p a (ucast (pa OR perm OR PTE_P))"
  shows "mapped st st' R D p a 0 pa perm"
  using assms(2) same_page_iff [OF assms(1)] by (simp add: mapped_def entry_set_def)

lemma mapped_step:
  assumes a: "aligned a" and e: "entry_set st st1 R D p a (ucast (pa OR perm OR PTE_P))"
    and m: "mapped st1 st2 R D p (a + 4096) n (pa + 4096) perm" and n: "Suc n < 1048576"
  shows "mapped st st2 R D p a (Suc n) pa perm"
proof -
  note z = same_page_iff [OF a]
  have "pmap (ram st2) q va = (if q = p \<and> page_of (va - a) \<le> Suc n
      then ucast (pa + of_nat (page_of (va - a)) * 4096 OR perm OR PTE_P)
      else pmap (ram st) q va)" if "q \<in> R" for q va
  proof (cases "page_of (va - a)")
    case 0
    then show ?thesis
      using m e that n z [of va] by (simp add: mapped_def entry_set_def page_of_step)
  next
    case (Suc k)
    then show ?thesis
      using m e that n z [of va] by (auto simp: mapped_def entry_set_def page_of_step add.assoc)
  qed
  then show ?thesis using m e unfolding mapped_def entry_set_def by (auto intro: vm_kept_trans)
qed

text \<open>One round of the loop, up to the test for the end.\<close>

lemma mappages_round:
  assumes ok: "vm_ok st R D" and p: "p \<in> R"
  obtains "mappages_loop st p a lst pa perm = Some (Panic ''out of memory'')" "card (kmem_avail st) < 2"
  | "mappages_loop st p a lst pa perm = Some (Panic ''remap'')" "present (pmap (ram st) p a)"
  | st' where "\<not> present (pmap (ram st) p a)" "entry_set st st' R D p a (ucast (pa OR perm OR PTE_P))"
      "mappages_loop st p a lst pa perm = (if a = lst then Some (Ok (0, st'))
         else mappages_loop st' p (a + PGSIZE) lst (pa + PGSIZE) perm)"
      "card (kmem_avail st) \<le> card (kmem_avail st') + 2"
proof -
  have small: "unat (PTE_W OR PTE_U) < 4096" by (simp add: PTE_W_def PTE_U_def)
  show ?thesis
  proof (cases rule: walkpgdir_alloc [OF ok p small, of a])
    case 1
    show ?thesis by (rule that(1)) (subst mappages_loop.simps, simp_all add: 1)
  next
    case (2 t st1)
    note e = entry_setI [OF 2(2) p 2(3)]
    show ?thesis
    proof (cases "present (pmap (ram st) p a)")
      case True
      show ?thesis
        by (rule that(2)) (subst mappages_loop.simps, simp_all add: 2(1) e(2,3) True)
    next
      case False
      show ?thesis
        by (rule that(3) [OF False e(1)])
          (subst mappages_loop.simps, use 2(1,4) e(2-4) False in \<open>simp_all add: Let_def\<close>)
    qed
  qed
qed

lemma pmap_page: "page_of va = page_of vb \<Longrightarrow> pmap m p va = pmap m p vb"
  using indexes_inj [of va vb] by (simp add: pmap_def split: option.split)

lemma page_of_0 [simp]: "page_of 0 = 0"
  by (simp add: page_of_def)

lemma aligned_add:
  assumes "aligned a" "aligned b"
  shows "aligned (a + b)"
proof -
  have "(unat a + unat b) mod 4294967296 mod 4096 = (unat a + unat b) mod 4096"
    by (rule mod_mod_cancel) simp
  then show ?thesis using assms by (auto simp: unat_word_ariths)
qed

lemma pages_Suc:
  assumes "Suc n < 1048576"
  shows "page_of (va - a) \<le> Suc n \<longleftrightarrow> page_of (va - a) = 0 \<or> page_of (va - (a + 4096)) \<le> n"
    "page_of (va - (a + 4096)) \<le> n \<Longrightarrow> page_of (va - a) \<noteq> 0"
  using assms by (auto simp: page_of_step split: if_splits)

lemma next_page:
  assumes "Suc n < 1048576"
  shows "a \<noteq> a + of_nat (Suc n) * 4096" "(a :: u32) + of_nat (Suc n) * 4096 = a + 4096 + of_nat n * 4096"
proof -
  have "of_nat (Suc n) * 4096 = (of_nat (Suc n * 4096) :: u32)"
    by (simp only: of_nat_mult of_nat_numeral)
  moreover have "unat (of_nat (Suc n * 4096) :: u32) = Suc n * 4096"
    by (rule unat_of_nat_u32) (use assms in simp)
  ultimately have "of_nat (Suc n) * 4096 \<noteq> (0 :: u32)"
    by (metis mult_is_0 nat.simps(3) unat_0 zero_neq_numeral)
  then show "a \<noteq> a + of_nat (Suc n) * 4096" by (simp only: add_cancel_right_right not_False_eq_True)
  show "a + of_nat (Suc n) * 4096 = a + 4096 + of_nat n * 4096" by (simp add: algebra_simps)
qed

lemma mappages_loop_ok:
  assumes "vm_ok st R D" and "p \<in> R" and "aligned a" and "n < 1048576"
  shows "let r = mappages_loop st p a (a + of_nat n * 4096) pa perm
    in r = Some (Panic ''out of memory'') \<and> card (kmem_avail st) < 2 * Suc n
     \<or> r = Some (Panic ''remap'') \<and> (\<exists>va. page_of (va - a) \<le> n \<and> present (pmap (ram st) p va))
     \<or> (\<exists>st'. r = Some (Ok (0, st')) \<and> mapped st st' R D p a n pa perm
          \<and> card (kmem_avail st) \<le> card (kmem_avail st') + 2 * Suc n
          \<and> (\<forall>va. page_of (va - a) \<le> n \<longrightarrow> \<not> present (pmap (ram st) p va)))"
  using assms
proof (induction n arbitrary: st a pa)
  case 0
  have pm: "pmap (ram st) p va = pmap (ram st) p a" if "page_of (va - a) \<le> 0" for va
    by (rule pmap_page) (use same_page_iff [OF 0(3), of va] that in simp)
  show ?case
  proof (cases rule: mappages_round [OF 0(1,2), of a "a + of_nat 0 * 4096" pa perm])
    case 2
    then show ?thesis by (unfold Let_def, intro disjI2 disjI1 conjI exI [of _ a]) simp_all
  next
    case (3 st')
    have "\<not> present (pmap (ram st) p va)" if "page_of (va - a) \<le> 0" for va
      using pm [OF that] 3(1) by simp
    then show ?thesis using mapped_first [OF 0(3) 3(2)] 3(3,4) by (simp add: Let_def)
  qed simp
next
  case (Suc n)
  let ?l = "a + of_nat (Suc n) * 4096"
  note l = next_page [OF Suc.prems(4), of a]
  note pg = pages_Suc [OF Suc.prems(4), of _ a] and z = same_page_iff [OF Suc.prems(3)]
  show ?case
  proof (cases rule: mappages_round [OF Suc.prems(1,2), of a ?l pa perm])
    case 2
    then show ?thesis by (unfold Let_def, intro disjI2 disjI1 conjI exI [of _ a]) simp_all
  next
    case (3 st')
    have pm: "pmap (ram st') p va = pmap (ram st) p va" if "page_of (va - (a + 4096)) \<le> n" for va
      using 3(2) Suc.prems(2) pg(2) [OF that] z [of va] by (simp add: entry_set_def)
    have p0: "\<not> present (pmap (ram st) p va)" if "page_of (va - a) = 0" for va
      using 3(1) that z [of va] pmap_page [of va a] by simp
    have "vm_ok st' R D" using 3(2) by (simp add: entry_set_def vm_kept_def)
    note ih = Suc.IH [OF this Suc.prems(2) aligned_add [OF Suc.prems(3), of 4096], of "pa + 4096",
        unfolded Let_def, folded l(2)]
    have r: "mappages_loop st p a ?l pa perm = mappages_loop st' p (a + 4096) ?l (pa + 4096) perm"
      using 3(3) l(1) by (simp add: PGSIZE_def)
    consider "mappages_loop st p a ?l pa perm = Some (Panic ''out of memory'')"
        "card (kmem_avail st') < 2 * Suc n"
      | va where "mappages_loop st p a ?l pa perm = Some (Panic ''remap'')"
          "page_of (va - (a + 4096)) \<le> n" "present (pmap (ram st') p va)"
      | st2 where "mappages_loop st p a ?l pa perm = Some (Ok (0, st2))"
          "mapped st' st2 R D p (a + 4096) n (pa + 4096) perm"
          "card (kmem_avail st') \<le> card (kmem_avail st2) + 2 * Suc n"
          "\<forall>va. page_of (va - (a + 4096)) \<le> n \<longrightarrow> \<not> present (pmap (ram st') p va)"
      using ih Suc.prems(4) unfolding r by auto
    then show ?thesis
    proof cases
      case 1
      then show ?thesis using \<open>card (kmem_avail st) \<le> _\<close> by (simp add: Let_def)
    next
      case (2 va)
      then show ?thesis using pm [OF 2(2)] pg(1) by (auto simp: Let_def)
    next
      case (3 st2)
      have "\<not> present (pmap (ram st) p va)" if "page_of (va - a) \<le> Suc n" for va
        using that p0 [of va] 3(4) pm [of va] unfolding pg(1) by auto
      then show ?thesis
        using mapped_step [OF Suc.prems(3) \<open>entry_set _ _ _ _ _ _ _\<close> 3(2) Suc.prems(4)] 3(1,3)
          \<open>card (kmem_avail st) \<le> _\<close>
        by (simp add: Let_def)
    qed
  qed simp
qed

text \<open>The pages of \<open>sz\<close> bytes from \<open>va\<close> on, less one; \<open>sz\<close> 0 covers the whole address space.\<close>

definition last_page :: "u32 \<Rightarrow> u32 \<Rightarrow> nat" where
  "last_page va sz = page_of (PGROUNDDOWN (va + sz - 1) - PGROUNDDOWN va)"

lemma aligned_PGROUNDDOWN: "aligned (PGROUNDDOWN a)"
  by (simp add: unat_PGROUNDDOWN)

lemma last_page_ok:
  "PGROUNDDOWN (va + sz - 1) = PGROUNDDOWN va + of_nat (last_page va sz) * 4096"
  "last_page va sz < 1048576"
proof -
  let ?d = "PGROUNDDOWN (va + sz - 1) - PGROUNDDOWN va"
  have "aligned ?d" by (intro aligned_diff aligned_PGROUNDDOWN)
  then have "unat ?d = page_of ?d * 4096"
    using div_mult_mod_eq [of "unat ?d" 4096] by (simp add: page_of_def)
  then have "?d = of_nat (page_of ?d * 4096)" by (metis of_nat_unat ucast_id)
  then have "?d = of_nat (last_page va sz) * 4096" by (simp add: last_page_def)
  then show "PGROUNDDOWN (va + sz - 1) = PGROUNDDOWN va + of_nat (last_page va sz) * 4096"
    by (simp add: algebra_simps)
  show "last_page va sz < 1048576" unfolding last_page_def by (rule page_of_less)
qed

lemma mappages_ok:
  assumes "vm_ok st R D" and "p \<in> R"
  obtains "mappages st p va sz pa perm = Panic ''out of memory''"
      "card (kmem_avail st) < 2 * Suc (last_page va sz)"
  | v where "mappages st p va sz pa perm = Panic ''remap''"
      "page_of (v - PGROUNDDOWN va) \<le> last_page va sz" "present (pmap (ram st) p v)"
  | st' where "mappages st p va sz pa perm = Ok (0, st')"
      "mapped st st' R D p (PGROUNDDOWN va) (last_page va sz) pa perm"
      "card (kmem_avail st) \<le> card (kmem_avail st') + 2 * Suc (last_page va sz)"
      "\<forall>v. page_of (v - PGROUNDDOWN va) \<le> last_page va sz \<longrightarrow> \<not> present (pmap (ram st) p v)"
  using mappages_loop_ok [OF assms aligned_PGROUNDDOWN last_page_ok(2), of va va sz pa perm]
  unfolding last_page_ok(1) [symmetric] Let_def by (auto simp: mappages_def)

section \<open>unmappages\<close>

definition unmapped :: "kmem_state \<Rightarrow> kmem_state \<Rightarrow> u32 set \<Rightarrow> nat set \<Rightarrow> u32 \<Rightarrow> u32 \<Rightarrow> nat \<Rightarrow> bool" where
  "unmapped st st' R D p a n \<longleftrightarrow> vm_kept st st' R D \<and> (\<forall>q \<in> R. \<forall>va. pmap (ram st') q va =
     (if q = p \<and> page_of (va - a) \<le> n then 0 else pmap (ram st) q va))"

lemma unmappages_round:
  assumes ok: "vm_ok st R D" and p: "p \<in> R"
  obtains "unmappages_loop st p a lst = Some (Panic ''out of memory'')" "pmap (ram st) p a = 0"
  | st' where "entry_set st st' R D p a 0"
      "unmappages_loop st p a lst = (if a = lst then Some (Ok (0, st'))
         else unmappages_loop st' p (a + PGSIZE) lst)"
proof -
  have small: "unat (PTE_W OR PTE_U) < 4096" by (simp add: PTE_W_def PTE_U_def)
  show ?thesis
  proof (cases rule: walkpgdir_alloc [OF ok p small, of a])
    case 1
    show ?thesis by (rule that(1)) (subst unmappages_loop.simps, simp_all add: 1 pmap_def)
  next
    case (2 t st1)
    note e = entry_setI [OF 2(2) p 2(3)]
    show ?thesis
      by (rule that(2) [OF e(1)]) (subst unmappages_loop.simps, simp add: 2(1) e(3) Let_def)
  qed
qed

lemma unmappages_loop_ok:
  assumes "vm_ok st R D" and "p \<in> R" and "aligned a" and "n < 1048576"
  shows "let r = unmappages_loop st p a (a + of_nat n * 4096)
    in r = Some (Panic ''out of memory'') \<and> (\<exists>va. page_of (va - a) \<le> n \<and> pmap (ram st) p va = 0)
     \<or> (\<exists>st'. r = Some (Ok (0, st')) \<and> unmapped st st' R D p a n)"
  using assms
proof (induction n arbitrary: st a)
  case 0
  show ?case
  proof (cases rule: unmappages_round [OF 0(1,2), of a "a + of_nat 0 * 4096"])
    case 1
    then show ?thesis by (unfold Let_def, intro disjI1 conjI exI [of _ a]) simp_all
  next
    case (2 st')
    then show ?thesis
      using same_page_iff [OF 0(3)] by (simp add: Let_def unmapped_def entry_set_def)
  qed
next
  case (Suc n)
  let ?l = "a + of_nat (Suc n) * 4096"
  note l = next_page [OF Suc.prems(4), of a] and pg = pages_Suc [OF Suc.prems(4), of _ a]
  show ?case
  proof (cases rule: unmappages_round [OF Suc.prems(1,2), of a ?l])
    case 1
    then show ?thesis by (unfold Let_def, intro disjI1 conjI exI [of _ a]) simp_all
  next
    case (2 st1)
    then have "vm_ok st1 R D" by (simp add: entry_set_def vm_kept_def)
    note ih = Suc.IH [OF this Suc.prems(2) aligned_add [OF Suc.prems(3), of 4096],
        unfolded Let_def, folded l(2)]
    have r: "unmappages_loop st p a ?l = unmappages_loop st1 p (a + 4096) ?l"
      using 2(2) l(1) by (simp add: PGSIZE_def)
    have "unmapped st st2 R D p a (Suc n)" if u: "unmapped st1 st2 R D p (a + 4096) n" for st2
    proof -
      have "vm_kept st st2 R D"
        using 2(1) u unfolding unmapped_def entry_set_def by (auto intro: vm_kept_trans)
      then show ?thesis
        using 2(1) u pg same_page_iff [OF Suc.prems(3)] by (auto simp: unmapped_def entry_set_def)
    qed
    moreover have "page_of (va - a) \<le> Suc n \<and> pmap (ram st) p va = 0"
      if "page_of (va - (a + 4096)) \<le> n" "pmap (ram st1) p va = 0" for va
      using that 2(1) Suc.prems(2) pg [of va] same_page_iff [OF Suc.prems(3), of va]
      by (simp add: entry_set_def)
    ultimately show ?thesis using ih Suc.prems(4) unfolding r Let_def by auto
  qed
qed

lemma unmappages_ok:
  assumes "vm_ok st R D" and "p \<in> R"
  obtains v where "unmappages st p va sz = Panic ''out of memory''"
      "page_of (v - PGROUNDDOWN va) \<le> last_page va sz" "pmap (ram st) p v = 0"
  | st' where "unmappages st p va sz = Ok (0, st')"
      "unmapped st st' R D p (PGROUNDDOWN va) (last_page va sz)"
  using unmappages_loop_ok [OF assms aligned_PGROUNDDOWN last_page_ok(2), of va va sz]
  unfolding last_page_ok(1) [symmetric] Let_def by (auto simp: unmappages_def)

section \<open>A new table\<close>

text \<open>A fresh zeroed page is an empty address space beside the others.\<close>

lemma vm_ok_insert:
  assumes ok: "vm_ok st R D" and t: "aligned t" "t \<noteq> 0"
    and z: "\<And>i. unat i < 512 \<Longrightarrow> ent (ram st) t i = 0"
    and d: "page_of t \<notin> tabs (ram st) R" "page_of t \<notin> kmem_avail st" "page_of t \<notin> D"
  shows "vm_ok st (insert t R) D" "pmap (ram st) t va = 0"
    "tabs (ram st) (insert t R) = insert (page_of t) (tabs (ram st) R)"
proof -
  note o = vm_okD [OF ok]
  have tt: "node (ram st) t js = (if js = [] then Some t else None)" if "path js" for js
    using that z by (auto elim!: path_cases simp: node.simps(2) tab_of_def present_def)
  show "pmap (ram st) t va = 0" using tt by (simp add: pmap_def)
  show tb: "tabs (ram st) (insert t R) = insert (page_of t) (tabs (ram st) R)"
    using tt unfolding tabs_def by (auto split: if_splits) (metis node.simps(1) path_simps(1))
  have nt: "u \<noteq> t" if "q \<in> R" "path js" "node (ram st) q js = Some u" for q js u
    using o(6) [OF that] d(1) by auto
  have "aligned u \<and> u \<noteq> 0" if "q \<in> insert t R" "path js" "node (ram st) q js = Some u" for q js u
    using that o(4,5) [of q js u] tt [OF that(2)] t by (auto split: if_splits)
  moreover have "q = q' \<and> js = js'" if "q \<in> insert t R" "q' \<in> insert t R" "path js" "path js'"
    "node (ram st) q js = Some u" "node (ram st) q' js' = Some u" for q q' js js' u
    using that o(7) [of q q' js js' u] tt [OF that(3)] tt [OF that(4)] nt [of q js u] nt [of q' js' u]
    by (auto split: if_splits)
  ultimately show "vm_ok st (insert t R) D"
    unfolding vm_ok_def tb using o(1-3) d by auto
qed

lemma new_root:
  assumes ok: "vm_ok st R D" and k: "kalloc st = Ok (t, st1)"
    and st2: "st2 = st1\<lparr>ram := memset (ram st1) t 0 PGSIZE\<rparr>"
  shows "vm_ok st2 (insert t R) D" "t \<notin> R" "t \<noteq> 0" "\<And>va. pmap (ram st2) t va = 0"
    "\<And>q. q \<in> R \<Longrightarrow> pmap (ram st2) q = pmap (ram st) q"
    "\<And>x. page_of x \<notin> kmem_avail st \<Longrightarrow> ram st2 x = ram st x"
    "kmem_avail st = insert (page_of t) (kmem_avail st2)" "page_of t \<notin> kmem_avail st2"
    "tabs (ram st2) R = tabs (ram st) R"
    "tabs (ram st2) (insert t R) = insert (page_of t) (tabs (ram st) R)"
proof -
  note o = vm_okD [OF ok] and ka = kalloc_page [OF vm_okD(1) [OF ok] k]
  have m2: "ram st2 x = (if page_of x = page_of t then 0 else ram st1 x)" for x
    by (simp add: st2 memset_fill PGSIZE_def fill_page [OF ka(2)])
  have "ram st2 x = ram st1 x" if "page_of x \<in> kmem_avail st1" for x
    using that ka(4) m2 [of x] by auto
  from kmem_write [OF ka(1) this]
  have kw: "kmem_ok st2" "kmem_avail st2 = kmem_avail st1" by (simp_all add: st2)
  show fr: "ram st2 x = ram st x" if "page_of x \<notin> kmem_avail st" for x
    using that ka(5,6) m2 [of x] by auto
  have fresh: "page_of t \<notin> tabs (ram st) R" "page_of t \<notin> D" using ka(5) o(2,3) by auto
  show av: "kmem_avail st = insert (page_of t) (kmem_avail st2)" "page_of t \<notin> kmem_avail st2"
    using ka(4,5) kw(2) by simp_all
  have "ram st2 x = ram st x" if "page_of x \<in> tabs (ram st) R" for x
    by (rule fr) (use that o(3) in auto)
  note f = vm_frame [OF ok kw(1) this, of D]
  have ok2: "vm_ok st2 R D" by (rule f(1)) (use o(2,3) av in auto)
  show tb: "tabs (ram st2) R = tabs (ram st) R" by (rule f(3)) (use o(2,3) av in auto)
  show "\<And>q. q \<in> R \<Longrightarrow> pmap (ram st2) q = pmap (ram st) q" by (rule f(2)) (use o(2,3) av in auto)
  have z: "ent (ram st2) t i = 0" if "unat i < 512" for i
    by (rule load64_zero [OF ka(2) that]) (simp add: m2)
  note v = vm_ok_insert [OF ok2 ka(2,3) z, unfolded tb, OF _ fresh(1) av(2) fresh(2)]
  show "vm_ok st2 (insert t R) D" by (rule v(1)) simp
  show "pmap (ram st2) t va = 0" for va by (rule v(2)) simp
  show "tabs (ram st2) (insert t R) = insert (page_of t) (tabs (ram st) R)" by (rule v(3)) simp
  show "t \<notin> R" using fresh(1) o(6) [of t "[]" t] by auto
  show "t \<noteq> 0" by (rule ka(3))
qed

text \<open>A machine with one empty table in the first of its four pages, for the examples.\<close>

definition boot_table :: kmem_state where
  "boot_table = (case kalloc boot_state of Ok (t, st) \<Rightarrow> st\<lparr>ram := memset (ram st) t 0 PGSIZE\<rparr>
     | _ \<Rightarrow> boot_state)"

lemma boot_table_ok:
  "vm_ok boot_table {0x1000} {}" "pmap (ram boot_table) 0x1000 va = 0" "3 \<le> card (kmem_avail boot_table)"
proof -
  have "kmem_ok boot_state" using boot_state_runs by (auto simp: kmem_ok_def)
  then have ok: "vm_ok boot_state {} {}" by (simp add: vm_ok_def tabs_def)
  obtain st1 where k: "kalloc boot_state = Ok (0x1000, st1)"
    using pgalloc_refines_first_fit [OF boot_state_runs, of 1] by (auto simp: kalloc_def)
  note n = new_root [OF ok k refl]
  show "vm_ok boot_table {0x1000} {}" "pmap (ram boot_table) 0x1000 va = 0"
    using n(1) n(4) [of va] by (simp_all add: boot_table_def k)
  have "kmem_avail boot_state = {1..<5}"
    using kmem_avail_runs [OF boot_state_runs] by (simp add: free_pages_def run_pages_def)
  then have "insert (page_of 0x1000) (kmem_avail boot_table) = {1..<5}"
    using n(7) by (simp add: boot_table_def k)
  then have "4 \<le> Suc (card (kmem_avail boot_table))"
    using card_insert_bound [of "page_of 0x1000" "kmem_avail boot_table"] by simp
  then show "3 \<le> card (kmem_avail boot_table)" by simp
qed

section \<open>Properties\<close>

text \<open>
  C21. \<open>mappages\<close> is correct and always ends. On well-formed tables it does exactly one of three
  things: it panics because a table page cannot be allocated, and then fewer free pages were left
  than two for every page to map; it panics with \<^verbatim>\<open>remap\<close>, and then a
  page of the range was present before; or it returns 0, no page of the range was present, the
  pages of the range now lead to the frames from \<open>pa\<close> on with the given permissions and the
  present bit, every other entry of every address space is unchanged, no data page was written,
  and the tables are well-formed again.
\<close>

theorem mappages_correct:
  assumes "vm_ok st R D" and "p \<in> R"
  shows "case mappages st p va sz pa perm of
     Ok (r, st') \<Rightarrow> r = 0 \<and> vm_ok st' R D
       \<and> (\<forall>v. page_of (v - PGROUNDDOWN va) \<le> last_page va sz \<longrightarrow> \<not> present (pmap (ram st) p v))
       \<and> (\<forall>q \<in> R. \<forall>v. pmap (ram st') q v =
            (if q = p \<and> page_of (v - PGROUNDDOWN va) \<le> last_page va sz
             then ucast (pa + of_nat (page_of (v - PGROUNDDOWN va)) * 4096 OR perm OR PTE_P)
             else pmap (ram st) q v))
       \<and> (\<forall>x. page_of x \<in> D \<longrightarrow> ram st' x = ram st x)
   | Panic s \<Rightarrow> s = ''out of memory'' \<and> card (kmem_avail st) < 2 * Suc (last_page va sz)
       \<or> s = ''remap''
       \<and> (\<exists>v. page_of (v - PGROUNDDOWN va) \<le> last_page va sz \<and> present (pmap (ram st) p v))
   | Diverge \<Rightarrow> False
   | Fault \<Rightarrow> False"
proof (cases rule: mappages_ok [OF assms, of va sz pa perm])
  case (3 st')
  then have "vm_kept st st' R D" by (simp add: mapped_def)
  note k = vm_keptD(1,3) [OF this]
  show ?thesis using 3 k assms(1) by (simp add: mapped_def)
qed auto

lemma example_pages: "PGROUNDDOWN 0 = 0" "last_page 0 0x1000 = 0"
  by (simp_all add: PGROUNDDOWN_def PGSIZE_def last_page_def)

theorem mappages_correct_witness:
  "vm_ok boot_table {0x1000} {} \<and> (\<exists>st'. mappages boot_table 0x1000 0 0x1000 0x7000 2 = Ok (0, st')
     \<and> pmap (ram st') 0x1000 0x123 = 0x7003 \<and> pmap (ram st') 0x1000 0x1000 = 0)"
  using mappages_correct [OF boot_table_ok(1), of "0x1000" 0 "0x1000" "0x7000" 2] boot_table_ok(1,3)
  by (auto simp: example_pages boot_table_ok(2) page_of_def present_def PTE_P_def split: kres.splits)

text \<open>
  C22. \<open>unmappages\<close> undoes \<open>mappages\<close>: after a successful \<open>mappages\<close> over a range, \<open>unmappages\<close> over
  the same range needs no memory, returns 0 and leaves every address space as it was before,
  the entries of the range (absent before) being cleared.
\<close>

theorem map_unmap_roundtrip:
  assumes "vm_ok st R D" and "p \<in> R" and "mappages st p va sz pa perm = Ok (r, st1)"
  shows "\<exists>st2. unmappages st1 p va sz = Ok (0, st2) \<and> vm_ok st2 R D
     \<and> (\<forall>q \<in> R. \<forall>v. pmap (ram st2) q v =
          (if q = p \<and> page_of (v - PGROUNDDOWN va) \<le> last_page va sz then 0 else pmap (ram st) q v))"
proof -
  have m: "mapped st st1 R D p (PGROUNDDOWN va) (last_page va sz) pa perm"
    using assms(3) by (cases rule: mappages_ok [OF assms(1,2), of va sz pa perm]) simp_all
  then have ok1: "vm_ok st1 R D" by (simp add: mapped_def vm_kept_def)
  have pr: "pmap (ram st1) p v \<noteq> 0" if "page_of (v - PGROUNDDOWN va) \<le> last_page va sz" for v
  proof -
    have "present (pmap (ram st1) p v)"
      using m that assms(2) present_OR(2) by (simp add: mapped_def)
    then show ?thesis by (auto simp: present_def)
  qed
  show ?thesis
  proof (cases rule: unmappages_ok [OF ok1 assms(2), of va sz])
    case (1 v)
    then show ?thesis using pr [OF 1(2)] by simp
  next
    case (2 st2)
    then show ?thesis using m by (auto simp: unmapped_def mapped_def vm_kept_def)
  qed
qed

theorem map_unmap_roundtrip_witness:
  "\<exists>st1 st2. mappages boot_table 0x1000 0 0x1000 0x7000 2 = Ok (0, st1)
     \<and> pmap (ram st1) 0x1000 0 \<noteq> 0
     \<and> unmappages st1 0x1000 0 0x1000 = Ok (0, st2) \<and> pmap (ram st2) 0x1000 0 = 0"
proof -
  obtain st1 where m: "mappages boot_table 0x1000 0 0x1000 0x7000 2 = Ok (0, st1)"
    "mapped boot_table st1 {0x1000} {} 0x1000 (PGROUNDDOWN 0) (last_page 0 0x1000) 0x7000 2"
    using boot_table_ok(1,3)
    by (cases rule: mappages_ok [OF boot_table_ok(1), of "0x1000" 0 "0x1000" "0x7000" 2])
      (auto simp: example_pages boot_table_ok(2) present_def)
  have "pmap (ram st1) 0x1000 0 \<noteq> 0" using m(2) by (simp add: mapped_def example_pages PTE_P_def)
  with map_unmap_roundtrip [OF boot_table_ok(1) _ m(1)] m(1) show ?thesis
    by (auto simp: example_pages)
qed

end
