(* ===== verification/Vm.thy ===== *)
theory Vm
  imports Paging Spinlock
begin

text \<open>
  Address spaces, \<^verbatim>\<open>kernel/arch/x86/vm.c\<close> above \<open>mappages\<close>: growing and shrinking user memory
  (\<open>allocuvm\<close>, \<open>deallocuvm\<close>), copying it for \<open>fork\<close> (\<open>copyuvm\<close>, \<open>copypgdir\<close>), freeing it
  (\<open>freevm\<close>), building the kernel part (\<open>setupkvm\<close>, \<open>kvmalloc\<close>, \<open>module_set_pgdir\<close> of
  \<^verbatim>\<open>hal/module.c\<close>), reaching user memory from the kernel (\<open>uva2ka\<close>, \<open>copyout\<close>), and the segment
  and task registers (\<open>seginit\<close>, \<open>switchuvm\<close>). \<open>loaduvm\<close>, which reads a file, is in \<open>Exec\<close>.
\<close>

section \<open>User memory\<close>

text \<open>The flags every walk in this file passes for new page tables.\<close>

abbreviation PTE_WU :: u32 where "PTE_WU \<equiv> PTE_W OR PTE_U"

partial_function (option) deallocuvm_loop ::
  "kmem_state \<Rightarrow> u32 \<Rightarrow> u32 \<Rightarrow> u32 \<Rightarrow> kmem_state kres option" where
  "deallocuvm_loop st pgdir a oldsz =
     (if a < oldsz
      then case walkpgdir st pgdir a False PTE_WU of
          Ok (pte, st) \<Rightarrow>
            if pte \<noteq> 0 \<and> present (load64 (ram st) pte)
            then let pa = (ucast (PTE_ADDR (load64 (ram st) pte)) :: u32)
                 in if pa = 0 then Some (Panic ''kfree'')
                    else let st = kfree st (P2V (ucast pa));
                             st = st\<lparr>ram := store64 (ram st) pte 0\<rparr>
                         in deallocuvm_loop st pgdir (a + PGSIZE) oldsz
            else deallocuvm_loop st pgdir (a + PGSIZE) oldsz
        | Panic s \<Rightarrow> Some (Panic s)
        | Diverge \<Rightarrow> None
        | Fault \<Rightarrow> Some Fault
      else Some (Ok st))"

definition deallocuvm :: "kmem_state \<Rightarrow> u32 \<Rightarrow> u32 \<Rightarrow> u32 \<Rightarrow> (u32 \<times> kmem_state) kres" where
  "deallocuvm st pgdir oldsz newsz =
     (if newsz \<ge> oldsz then Ok (oldsz, st)
      else kbind (of_kloop (deallocuvm_loop st pgdir (PGROUNDUP newsz) oldsz))
             (\<lambda>st. Ok (newsz, st)))"

partial_function (option) allocuvm_loop ::
  "kmem_state \<Rightarrow> u32 \<Rightarrow> u32 \<Rightarrow> u32 \<Rightarrow> u32 \<Rightarrow> u32 \<Rightarrow> (u32 \<times> kmem_state) kres option" where
  "allocuvm_loop st pgdir a oldsz newsz perm =
     (if a < newsz
      then case kalloc st of
          Ok (mem, st) \<Rightarrow>
            if mem = 0
            then Some (kbind (deallocuvm st pgdir newsz oldsz) (\<lambda>(_, st). Ok (0, st)))
            else let st = st\<lparr>ram := memset (ram st) mem 0 PGSIZE\<rparr>
                 in (case mappages st pgdir a PGSIZE (V2P mem) perm of
                    Ok (r, st) \<Rightarrow>
                      if r < 0
                      then Some (kbind (deallocuvm st pgdir newsz oldsz)
                                   (\<lambda>(_, st). Ok (0, kfree st mem)))
                      else allocuvm_loop st pgdir (a + PGSIZE) oldsz newsz perm
                  | Panic s \<Rightarrow> Some (Panic s)
                  | Diverge \<Rightarrow> None
                  | Fault \<Rightarrow> Some Fault)
        | Panic s \<Rightarrow> Some (Panic s)
        | Diverge \<Rightarrow> None
        | Fault \<Rightarrow> Some Fault
      else Some (Ok (newsz, st)))"

definition allocuvm :: "kmem_state \<Rightarrow> u32 \<Rightarrow> u32 \<Rightarrow> u32 \<Rightarrow> u32 \<Rightarrow> (u32 \<times> kmem_state) kres" where
  "allocuvm st pgdir oldsz newsz perm =
     (if newsz < oldsz then Ok (oldsz, st)
      else of_kloop (allocuvm_loop st pgdir (PGROUNDUP oldsz) oldsz newsz perm))"

text \<open>\<open>freevm\<close>: the loop over \<^verbatim>\<open>pgdir[0..NPDENTRIES)\<close> frees the page directories.\<close>

definition freevm_entry :: "u32 \<Rightarrow> kmem_state \<Rightarrow> u32 \<Rightarrow> kmem_state" where
  "freevm_entry pgdir st i =
     (let e = load64 (ram st) (pgdir + 8 * i)
      in if present e then kfree st (P2V (PTE_ADDR e)) else st)"

definition freevm :: "kmem_state \<Rightarrow> u32 \<Rightarrow> kmem_state kres" where
  "freevm st pgdir =
     (if pgdir = 0 then Panic ''freevm: no pgdir''
      else kbind (deallocuvm st pgdir KERNBASE 0) (\<lambda>(_, st).
        Ok (kfree (foldl (freevm_entry pgdir) st (map of_nat [0..<512])) pgdir)))"

definition clearpteu :: "kmem_state \<Rightarrow> u32 \<Rightarrow> u32 \<Rightarrow> kmem_state kres" where
  "clearpteu st pgdir uva =
     kbind (walkpgdir st pgdir uva False PTE_WU) (\<lambda>(pte, st).
       if pte = 0 then Panic ''clearpteu''
       else Ok (st\<lparr>ram := store64 (ram st) pte (load64 (ram st) pte AND NOT (ucast PTE_U))\<rparr>))"

partial_function (option) copyuvm_loop ::
  "kmem_state \<Rightarrow> u32 \<Rightarrow> u32 \<Rightarrow> u32 \<Rightarrow> u32 \<Rightarrow> (u32 \<times> kmem_state) kres option" where
  "copyuvm_loop st newpgdir oldpgdir i lim =
     (if i < lim
      then case walkpgdir st oldpgdir i False PTE_WU of
          Ok (pte, st) \<Rightarrow>
            if pte = 0 then Some (Panic ''copyuvm: pte should exist'')
            else let e = load64 (ram st) pte
                 in if \<not> present e then Some (Panic ''copyuvm: page not present'')
                    else let pa = (ucast (PTE_ADDR e) :: u32); flags = (ucast (PTE_FLAGS e) :: u32)
                         in (case kalloc st of
                            Ok (mem, st) \<Rightarrow>
                              if mem = 0 then Some (Ok (0, st))
                              else let st = st\<lparr>ram := memmove (ram st) mem (P2V (ucast pa)) PGSIZE\<rparr>
                                   in (case mappages st newpgdir i PGSIZE (V2P mem) flags of
                                      Ok (r, st) \<Rightarrow>
                                        if r < 0 then Some (Ok (0, kfree st mem))
                                        else copyuvm_loop st newpgdir oldpgdir (i + PGSIZE) lim
                                    | Panic s \<Rightarrow> Some (Panic s)
                                    | Diverge \<Rightarrow> None
                                    | Fault \<Rightarrow> Some Fault)
                          | Panic s \<Rightarrow> Some (Panic s)
                          | Diverge \<Rightarrow> None
                          | Fault \<Rightarrow> Some Fault)
        | Panic s \<Rightarrow> Some (Panic s)
        | Diverge \<Rightarrow> None
        | Fault \<Rightarrow> Some Fault
      else Some (Ok (newpgdir, st)))"

definition copyuvm :: "kmem_state \<Rightarrow> u32 \<Rightarrow> u32 \<Rightarrow> u32 \<Rightarrow> u32 \<Rightarrow> (u32 \<times> kmem_state) kres" where
  "copyuvm st newpgdir oldpgdir bgn lim = of_kloop (copyuvm_loop st newpgdir oldpgdir bgn lim)"

text \<open>\<open>copypgdir\<close> shares the frames instead of copying them.\<close>

partial_function (option) copypgdir_loop ::
  "kmem_state \<Rightarrow> u32 \<Rightarrow> u32 \<Rightarrow> u32 \<Rightarrow> u32 \<Rightarrow> (u32 \<times> kmem_state) kres option" where
  "copypgdir_loop st newpgdir oldpgdir i lim =
     (if i < lim
      then case walkpgdir st oldpgdir i False PTE_WU of
          Ok (pte, st) \<Rightarrow>
            if pte = 0 then Some (Panic ''copypgdir: pte should exist'')
            else let e = load64 (ram st) pte
                 in if \<not> present e then Some (Panic ''copypgdir: page not present'')
                    else let pa = (ucast (PTE_ADDR e) :: u32); flags = (ucast (PTE_FLAGS e) :: u32)
                         in (case mappages st newpgdir i PGSIZE pa flags of
                            Ok (r, st) \<Rightarrow>
                              if r < 0 then Some (Ok (0, st))
                              else copypgdir_loop st newpgdir oldpgdir (i + PGSIZE) lim
                          | Panic s \<Rightarrow> Some (Panic s)
                          | Diverge \<Rightarrow> None
                          | Fault \<Rightarrow> Some Fault)
        | Panic s \<Rightarrow> Some (Panic s)
        | Diverge \<Rightarrow> None
        | Fault \<Rightarrow> Some Fault
      else Some (Ok (newpgdir, st)))"

definition copypgdir :: "kmem_state \<Rightarrow> u32 \<Rightarrow> u32 \<Rightarrow> u32 \<Rightarrow> u32 \<Rightarrow> (u32 \<times> kmem_state) kres" where
  "copypgdir st newpgdir oldpgdir bgn lim = of_kloop (copypgdir_loop st newpgdir oldpgdir bgn lim)"

text \<open>
  \<open>uva2ka\<close> follows the result of \<open>walkpgdir\<close> without a test: a missing table is a null pointer.
\<close>

definition uva2ka :: "kmem_state \<Rightarrow> u32 \<Rightarrow> u32 \<Rightarrow> u32 kres" where
  "uva2ka st pgdir uva =
     kbind (walkpgdir st pgdir uva False PTE_WU) (\<lambda>(pte, st).
       if pte = 0 then Fault
       else let e = load64 (ram st) pte
            in if \<not> present e then Ok 0
               else if \<not> user_page e then Ok 0
               else Ok (P2V (PTE_ADDR e)))"

partial_function (option) copyout_loop ::
  "kmem_state \<Rightarrow> u32 \<Rightarrow> u32 \<Rightarrow> u32 \<Rightarrow> u32 \<Rightarrow> (int \<times> kmem_state) kres option" where
  "copyout_loop st pgdir va buf len =
     (if len > 0
      then let va0 = PGROUNDDOWN va
           in (case uva2ka st pgdir va0 of
              Ok pa0 \<Rightarrow>
                if pa0 = 0 then Some (Ok (-1, st))
                else let n = PGSIZE - (va - va0);
                         n = (if n > len then len else n);
                         st = st\<lparr>ram := memmove (ram st) (pa0 + (va - va0)) buf n\<rparr>
                     in copyout_loop st pgdir (va0 + PGSIZE) (buf + n) (len - n)
            | Panic s \<Rightarrow> Some (Panic s)
            | Diverge \<Rightarrow> None
            | Fault \<Rightarrow> Some Fault)
      else Some (Ok (0, st)))"

definition copyout :: "kmem_state \<Rightarrow> u32 \<Rightarrow> u32 \<Rightarrow> u32 \<Rightarrow> u32 \<Rightarrow> (int \<times> kmem_state) kres" where
  "copyout st pgdir va p len = of_kloop (copyout_loop st pgdir va p len)"

text \<open>The initial program; the result of \<open>mappages\<close> is not looked at.\<close>

definition inituvm :: "kmem_state \<Rightarrow> u32 \<Rightarrow> u32 \<Rightarrow> u32 \<Rightarrow> kmem_state kres" where
  "inituvm st pgdir init sz =
     (if sz \<ge> PGSIZE then Panic ''inituvm: more than a page''
      else kbind (kalloc st) (\<lambda>(mem, st).
        let st = st\<lparr>ram := memset (ram st) mem 0 PGSIZE\<rparr>
        in kbind (mappages st pgdir 0 PGSIZE (V2P mem) PTE_WU) (\<lambda>(_, st).
             Ok (st\<lparr>ram := memmove (ram st) mem init sz\<rparr>))))"

section \<open>The kernel part of an address space\<close>

record kmap =
  virt :: u32
  phys_start :: u32
  phys_end :: u32
  kperm :: u32

text \<open>\<open>data\<close> is the linker symbol of that name, the end of the kernel's read-only part.\<close>

definition kmap_table :: "u32 \<Rightarrow> kmap list" where
  "kmap_table data =
     [\<lparr>virt = KERNBASE, phys_start = 0, phys_end = EXTMEM, kperm = PTE_W\<rparr>,
      \<lparr>virt = KERNLINK, phys_start = V2P KERNLINK, phys_end = V2P data, kperm = 0\<rparr>,
      \<lparr>virt = data, phys_start = V2P data, phys_end = PHYSTOP, kperm = PTE_W\<rparr>,
      \<lparr>virt = DEVSPACE, phys_start = DEVSPACE, phys_end = 0, kperm = PTE_W\<rparr>]"

definition PROC_MODULE_BOTTOM :: u32 where "PROC_MODULE_BOTTOM = 0x90000000"

definition module_set_pgdir :: "kmem_state \<Rightarrow> u32 \<Rightarrow> u32 \<Rightarrow> u32 \<Rightarrow> kmem_state kres" where
  "module_set_pgdir st kpgdir module_base pgdir =
     kbind (copypgdir st pgdir kpgdir PROC_MODULE_BOTTOM module_base) (\<lambda>(r, st).
       if r = 0 then Panic ''module_set_pgdir failed'' else Ok st)"

text \<open>The loop over \<^verbatim>\<open>kmap\<close>: whether all of it was mapped; on failure the table is freed.\<close>

primrec setupkvm_loop :: "kmem_state \<Rightarrow> u32 \<Rightarrow> kmap list \<Rightarrow> (bool \<times> kmem_state) kres" where
  "setupkvm_loop st pgdir [] = Ok (True, st)"
| "setupkvm_loop st pgdir (k # ks) =
     kbind (mappages st pgdir (virt k) (phys_end k - phys_start k) (phys_start k) (kperm k))
       (\<lambda>(r, st). if r < 0 then kbind (freevm st pgdir) (\<lambda>st. Ok (False, st))
                  else setupkvm_loop st pgdir ks)"

definition setupkvm :: "kmem_state \<Rightarrow> u32 \<Rightarrow> u32 \<Rightarrow> u32 \<Rightarrow> (u32 \<times> kmem_state) kres" where
  "setupkvm st data kpgdir module_base =
     kbind (kalloc st) (\<lambda>(pgdir, st).
       if pgdir = 0 then Ok (0, st)
       else let st = st\<lparr>ram := memset (ram st) pgdir 0 PGSIZE\<rparr>
            in if P2V (ucast PHYSTOP) > DEVSPACE then Panic ''PHYSTOP too high''
               else kbind (setupkvm_loop st pgdir (kmap_table data)) (\<lambda>(done, st).
                 if \<not> done then Ok (0, st)
                 else kbind (module_set_pgdir st kpgdir module_base pgdir) (\<lambda>st. Ok (pgdir, st))))"

definition map_region :: "u32 \<Rightarrow> u32 \<Rightarrow> u32 kres" where
  "map_region phyaddr sz =
     (if phyaddr < DEVSPACE then Panic ''map_region: phyaddr not within DEVSPACE'' else Ok phyaddr)"

definition map_mmio_region :: "u32 \<Rightarrow> u32 \<Rightarrow> u32 kres" where
  "map_mmio_region phyaddr sz = map_region phyaddr sz"

definition map_ram_region :: "u32 \<Rightarrow> u32 \<Rightarrow> u32 kres" where
  "map_ram_region phyaddr sz = map_region phyaddr sz"

definition map_rom_region :: "u32 \<Rightarrow> u32 \<Rightarrow> u32 kres" where
  "map_rom_region phyaddr sz = map_region phyaddr sz"

section \<open>Segments and the task register (arch/x86/mmu.h)\<close>

text \<open>The bit fields of \<^verbatim>\<open>struct segdesc\<close>, each at its width.\<close>

record segdesc =
  lim_15_0 :: "16 word"
  base_15_0 :: "16 word"
  base_23_16 :: "8 word"
  seg_type :: "4 word"
  seg_s :: "1 word"
  seg_dpl :: "2 word"
  seg_p :: "1 word"
  lim_19_16 :: "4 word"
  seg_avl :: "1 word"
  seg_rsv1 :: "1 word"
  seg_db :: "1 word"
  seg_g :: "1 word"
  base_31_24 :: "8 word"

definition SEG :: "u32 \<Rightarrow> u32 \<Rightarrow> u32 \<Rightarrow> u32 \<Rightarrow> segdesc" where
  "SEG typ base lim dpl =
     \<lparr>lim_15_0 = ucast (drop_bit 12 lim AND 0xffff), base_15_0 = ucast (base AND 0xffff),
      base_23_16 = ucast (drop_bit 16 base AND 0xff), seg_type = ucast typ, seg_s = 1,
      seg_dpl = ucast dpl, seg_p = 1, lim_19_16 = ucast (drop_bit 28 lim), seg_avl = 0,
      seg_rsv1 = 0, seg_db = 1, seg_g = 1, base_31_24 = ucast (drop_bit 24 base)\<rparr>"

definition SEG16 :: "u32 \<Rightarrow> u32 \<Rightarrow> u32 \<Rightarrow> u32 \<Rightarrow> segdesc" where
  "SEG16 typ base lim dpl =
     \<lparr>lim_15_0 = ucast (lim AND 0xffff), base_15_0 = ucast (base AND 0xffff),
      base_23_16 = ucast (drop_bit 16 base AND 0xff), seg_type = ucast typ, seg_s = 1,
      seg_dpl = ucast dpl, seg_p = 1, lim_19_16 = ucast (drop_bit 16 lim), seg_avl = 0,
      seg_rsv1 = 0, seg_db = 1, seg_g = 0, base_31_24 = ucast (drop_bit 24 base)\<rparr>"

definition SEG_KCODE :: nat where "SEG_KCODE = 1"
definition SEG_KDATA :: nat where "SEG_KDATA = 2"
definition SEG_UCODE :: nat where "SEG_UCODE = 3"
definition SEG_UDATA :: nat where "SEG_UDATA = 4"
definition SEG_TSS :: nat where "SEG_TSS = 5"
definition DPL_USER :: u32 where "DPL_USER = 0x3"
definition STA_X :: u32 where "STA_X = 0x8"
definition STA_W :: u32 where "STA_W = 0x2"
definition STA_R :: u32 where "STA_R = 0x2"
definition STS_T32A :: u32 where "STS_T32A = 0x9"
definition KSTACKSIZE :: u32 where "KSTACKSIZE = 4096"

text \<open>
  The part of \<^verbatim>\<open>struct cpu\<close> and of the processor these functions set: the descriptor table, the
  fields of the task state, the task register and the page table base. \<^verbatim>\<open>sizeof(struct taskstate)\<close>
  is 104.
\<close>

record cpu_hw =
  gdt :: "segdesc list"
  ts_ss0 :: u16
  ts_esp0 :: u32
  ts_iomb :: u16
  tr :: u16
  cr3 :: u32

definition seginit :: "cpu_hw \<Rightarrow> cpu_hw" where
  "seginit c =
     (let c = c\<lparr>gdt := (gdt c)[SEG_KCODE := SEG (STA_X OR STA_R) 0 0xffffffff 0]\<rparr>;
          c = c\<lparr>gdt := (gdt c)[SEG_KDATA := SEG STA_W 0 0xffffffff 0]\<rparr>;
          c = c\<lparr>gdt := (gdt c)[SEG_UCODE := SEG (STA_X OR STA_R) 0 0xffffffff DPL_USER]\<rparr>
      in c\<lparr>gdt := (gdt c)[SEG_UDATA := SEG STA_W 0 0xffffffff DPL_USER]\<rparr>)"

definition switchkvm :: "cpu_hw \<Rightarrow> u32 \<Rightarrow> cpu_hw" where
  "switchkvm c kpgdir = c\<lparr>cr3 := V2P kpgdir\<rparr>"

text \<open>
  \<open>switchuvm\<close>: the process is given by its kernel stack and page table, \<open>None\<close> is the null
  pointer; \<open>ts_addr\<close> is the address of the CPU's task state. Interrupts are off between
  \<open>pushcli\<close> and \<open>popcli\<close>, so every \<^verbatim>\<open>mycpu()\<close> is the same CPU.
\<close>

definition switchuvm ::
  "cpu \<Rightarrow> cpu_hw \<Rightarrow> u32 \<Rightarrow> (u32 \<times> u32) option \<Rightarrow> (cpu \<times> cpu_hw) kres" where
  "switchuvm c h ts_addr p =
     (case p of None \<Rightarrow> Panic ''switchuvm: no process''
      | Some (kstack, pgdir) \<Rightarrow>
          if kstack = 0 then Panic ''switchuvm: no kstack''
          else if pgdir = 0 then Panic ''switchuvm: no pgdir''
          else let c = pushcli c;
                   h = h\<lparr>gdt := (gdt h)[SEG_TSS := SEG16 STS_T32A ts_addr (104 - 1) 0]\<rparr>;
                   h = h\<lparr>gdt := (gdt h)[SEG_TSS := (gdt h ! SEG_TSS)\<lparr>seg_s := 0\<rparr>]\<rparr>;
                   h = h\<lparr>ts_ss0 := of_nat SEG_KDATA * 8\<rparr>;
                   h = h\<lparr>ts_esp0 := kstack + KSTACKSIZE\<rparr>;
                   h = h\<lparr>ts_iomb := 0xFFFF\<rparr>;
                   h = h\<lparr>tr := of_nat SEG_TSS * 8\<rparr>;
                   h = h\<lparr>cr3 := V2P pgdir\<rparr>
               in kbind (popcli c) (\<lambda>c. Ok (c, h)))"

definition kvmalloc :: "kmem_state \<Rightarrow> cpu_hw \<Rightarrow> u32 \<Rightarrow> u32 \<Rightarrow> u32 \<Rightarrow> (u32 \<times> kmem_state \<times> cpu_hw) kres" where
  "kvmalloc st h data kpgdir module_base =
     kbind (setupkvm st data kpgdir module_base) (\<lambda>(kpgdir, st). Ok (kpgdir, st, switchkvm h kpgdir))"

section \<open>Data pages\<close>

text \<open>The frame behind a virtual address, and the byte a program reads there.\<close>

definition frame :: "mem \<Rightarrow> u32 \<Rightarrow> u32 \<Rightarrow> u32" where
  "frame m p va = P2V (PTE_ADDR (pmap m p va))"

definition uread :: "mem \<Rightarrow> u32 \<Rightarrow> u32 \<Rightarrow> u8" where
  "uread m p va = m (frame m p va + (va - PGROUNDDOWN va))"

text \<open>A page from the allocator becomes a data page, whatever is written to it.\<close>

lemma new_data_page:
  assumes ok: "vm_ok st R D" and k: "kalloc st = Ok (mem, st1)"
    and m': "\<forall>x. page_of x \<noteq> page_of mem \<longrightarrow> m' x = ram st1 x"
  shows "vm_ok (st1\<lparr>ram := m'\<rparr>) R (insert (page_of mem) D)"
    "\<And>q. q \<in> R \<Longrightarrow> pmap m' q = pmap (ram st) q"
    "\<And>x. page_of x \<in> D \<Longrightarrow> m' x = ram st x"
    "page_of mem \<notin> D" "aligned mem" "mem \<noteq> 0"
    "kmem_avail st = insert (page_of mem) (kmem_avail (st1\<lparr>ram := m'\<rparr>))"
proof -
  note o = vm_okD [OF ok] and ka = kalloc_page [OF vm_okD(1) [OF ok] k]
  show "aligned mem" "mem \<noteq> 0" by (fact ka)+
  show d: "page_of mem \<notin> D" using ka(5) o(2) by auto
  have "m' x = ram st1 x" if "page_of x \<in> kmem_avail st1" for x
    by (rule m' [rule_format]) (use that ka(4) in auto)
  note kw = kmem_write [OF ka(1) this]
  show av: "kmem_avail st = insert (page_of mem) (kmem_avail (st1\<lparr>ram := m'\<rparr>))"
    using ka(5) kw(2) by simp
  have fr: "m' x = ram st x" if "page_of x \<notin> kmem_avail st" for x
    using that ka(5,6) m' [rule_format, of x] by auto
  show "m' x = ram st x" if "page_of x \<in> D" for x
    by (rule fr) (use that o(2) in auto)
  have t: "ram (st1\<lparr>ram := m'\<rparr>) x = ram st x" if "page_of x \<in> tabs (ram st) R" for x
    using fr [of x] that o(3) by auto
  have s: "tabs (ram st) R \<inter> (kmem_avail (st1\<lparr>ram := m'\<rparr>) \<union> insert (page_of mem) D) = {}"
    "insert (page_of mem) D \<inter> kmem_avail (st1\<lparr>ram := m'\<rparr>) = {}"
    using o(2,3) ka(4,5) kw(2) by auto
  show "vm_ok (st1\<lparr>ram := m'\<rparr>) R (insert (page_of mem) D)"
    by (rule vm_frame(1) [OF ok kw(1) t s])
  show "\<And>q. q \<in> R \<Longrightarrow> pmap m' q = pmap (ram st) q"
    using vm_frame(2) [OF ok kw(1) t s] by simp
qed

lemma PGROUNDDOWN_aligned: "aligned a \<Longrightarrow> PGROUNDDOWN a = a"
  using div_mult_mod_eq [of "unat a" 4096] by (simp add: word_unat_eq_iff unat_PGROUNDDOWN)

lemma last_page_one:
  assumes "aligned a"
  shows "last_page a PGSIZE = 0"
proof -
  have "a + PGSIZE - 1 = a + 4095" by (simp add: PGSIZE_def)
  moreover have "unat (a + 4095) = unat a + 4095"
    using aligned_le [OF assms] by (subst unat_add_lt_u32) simp_all
  moreover have "(unat a + 4095) div 4096 * 4096 = unat a"
    using assms by (auto elim: alignedE)
  ultimately have "PGROUNDDOWN (a + PGSIZE - 1) = a"
    by (simp add: word_unat_eq_iff unat_PGROUNDDOWN)
  then show ?thesis by (simp add: last_page_def PGROUNDDOWN_aligned [OF assms])
qed

lemma map_page:
  assumes ok: "vm_ok st R D" and p: "p \<in> R" and a: "aligned a" and n: "\<not> present (pmap (ram st) p a)"
  obtains "mappages st p a PGSIZE pa perm = Panic ''out of memory''" "card (kmem_avail st) < 2"
  | st' where "mappages st p a PGSIZE pa perm = Ok (0, st')"
      "entry_set st st' R D p a (ucast (pa OR perm OR PTE_P))"
      "card (kmem_avail st) \<le> card (kmem_avail st') + 2"
proof -
  note s = PGROUNDDOWN_aligned [OF a] last_page_one [OF a]
  show ?thesis
  proof (cases rule: mappages_ok [OF ok p, of a PGSIZE pa perm, unfolded s])
    case 1
    then show ?thesis using that(1) by simp
  next
    case (2 v)
    then have "page_of v = page_of a" using same_page_iff [OF a] by simp
    then have "present (pmap (ram st) p a)" using 2(3) pmap_page [of v a] by simp
    then show ?thesis using n by simp
  next
    case (3 st')
    show ?thesis
      by (rule that(2) [OF 3(1)])
        (use 3(2,3) same_page_iff [OF a] in \<open>simp_all add: mapped_def entry_set_def\<close>)
  qed
qed

section \<open>Filling a range of pages\<close>

text \<open>
  What growing and copying have in common: the \<open>n\<close> pages from \<open>a\<close> on of \<open>p\<close> get frames of their
  own, outside the data pages there were, with the flags \<open>fl\<close> and the contents \<open>c\<close>; nothing else
  of any address space and no old data page changes.
\<close>

definition filled ::
  "kmem_state \<Rightarrow> kmem_state \<Rightarrow> u32 set \<Rightarrow> nat set \<Rightarrow> nat set \<Rightarrow> u32 \<Rightarrow> u32 \<Rightarrow> nat \<Rightarrow> (u32 \<Rightarrow> u8)
     \<Rightarrow> (u32 \<Rightarrow> u32) \<Rightarrow> bool" where
  "filled st st' R D D' p a n c fl \<longleftrightarrow> vm_ok st' R D' \<and> D \<subseteq> D'
     \<and> (\<forall>x. page_of x \<in> D \<longrightarrow> ram st' x = ram st x)
     \<and> (\<forall>q \<in> R. \<forall>v. \<not> (q = p \<and> page_of (v - a) < n) \<longrightarrow> pmap (ram st') q v = pmap (ram st) q v)
     \<and> (\<forall>v. page_of (v - a) < n \<longrightarrow> present (pmap (ram st') p v)
          \<and> ucast (PTE_FLAGS (pmap (ram st') p v)) = fl v OR PTE_P
          \<and> aligned (frame (ram st') p v) \<and> page_of (frame (ram st') p v) \<in> D' - D
          \<and> uread (ram st') p v = c v)
     \<and> (\<forall>v w. page_of (v - a) < n \<longrightarrow> page_of (w - a) < n \<longrightarrow>
          frame (ram st') p v = frame (ram st') p w \<longrightarrow> page_of v = page_of w)"

lemma filled_0: "vm_ok st R D \<Longrightarrow> filled st st R D D p a 0 c fl"
  by (simp add: filled_def)

lemma offset_small: "unat (v - PGROUNDDOWN v) = unat v mod 4096"
proof -
  have "unat (PGROUNDDOWN v) \<le> unat v" by (simp add: unat_PGROUNDDOWN)
  then show ?thesis
    by (simp add: unat_sub_le_u32 unat_PGROUNDDOWN minus_div_mult_eq_mod)
qed

lemma page_of_frame_byte:
  assumes "aligned f"
  shows "page_of (f + (v - PGROUNDDOWN v)) = page_of f"
  using page_of_offset [OF assms, of "f + (v - PGROUNDDOWN v)"] offset_small [of v] by simp

lemma page_0_iff: "page_of x < 1 \<longleftrightarrow> page_of x = 0"
  by simp

lemma filled_one:
  assumes ok: "vm_ok st R D" and p: "p \<in> R" and a: "aligned a" and perm: "unat perm < 4096"
    and k: "kalloc st = Ok (mem, st1)" and m': "\<forall>x. page_of x \<noteq> page_of mem \<longrightarrow> m' x = ram st1 x"
    and e: "entry_set (st1\<lparr>ram := m'\<rparr>) st2 R (insert (page_of mem) D) p a (ucast (V2P mem OR perm OR PTE_P))"
    and c: "\<And>v. page_of v = page_of a \<Longrightarrow> m' (mem + (v - PGROUNDDOWN v)) = c v"
    and fl: "\<And>v. page_of v = page_of a \<Longrightarrow> fl v = perm"
  shows "filled st st2 R D (insert (page_of mem) D) p a 1 c fl"
proof -
  note n = new_data_page [OF ok k m']
  note z = same_page_iff [OF a]
  have kept: "vm_kept (st1\<lparr>ram := m'\<rparr>) st2 R (insert (page_of mem) D)"
    using e by (simp add: entry_set_def)
  note kd = vm_keptD(1,3) [OF kept]
  have d: "ram st2 x = m' x" if "page_of x \<in> insert (page_of mem) D" for x
    using kd(2) [OF that n(1)] by simp
  have pm: "pmap (ram st2) p v = ucast (V2P mem OR (perm OR PTE_P))" if "page_of v = page_of a" for v
    using e p that by (simp add: entry_set_def or.assoc)
  have sm: "unat (perm OR PTE_P) < 4096"
    by (rule small_OR [OF perm]) (simp add: PTE_P_def)
  have fr: "frame (ram st2) p v = mem" if "page_of v = page_of a" for v
    using pm [OF that] entry_bits(2) [OF n(5) perm] by (simp add: frame_def or.assoc)
  have "uread (ram st2) p v = c v" if "page_of v = page_of a" for v
    using c [OF that] d [of "mem + (v - PGROUNDDOWN v)"] page_of_frame_byte [OF n(5)]
    by (simp add: uread_def fr [OF that])
  moreover have "present (pmap (ram st2) p v)" if "page_of v = page_of a" for v
    using pm [OF that] present_OR(2) by (simp add: or.assoc)
  moreover have "ucast (PTE_FLAGS (pmap (ram st2) p v)) = fl v OR PTE_P" if "page_of v = page_of a" for v
    using pm [OF that] PTE_FLAGS_ucast [OF aligned_V2P [OF n(5)] sm] fl [OF that] by simp
  moreover have "pmap (ram st2) q v = pmap (ram st) q v" if "q \<in> R" "\<not> (q = p \<and> page_of v = page_of a)" for q v
    using e that n(2) [OF that(1)] by (auto simp: entry_set_def)
  moreover have "ram st2 x = ram st x" if "page_of x \<in> D" for x
    using d [of x] n(3) [OF that] that by simp
  ultimately show ?thesis
    unfolding filled_def page_0_iff z [symmetric] using kd(1) n(4,5) fr by auto
qed

lemma filledD:
  assumes "filled st st' R D D' p a n c fl"
  shows "vm_ok st' R D'" "D \<subseteq> D'" "page_of x \<in> D \<Longrightarrow> ram st' x = ram st x"
    "q \<in> R \<Longrightarrow> \<not> (q = p \<and> page_of (v - a) < n) \<Longrightarrow> pmap (ram st') q v = pmap (ram st) q v"
    "page_of (v - a) < n \<Longrightarrow> present (pmap (ram st') p v)
       \<and> ucast (PTE_FLAGS (pmap (ram st') p v)) = fl v OR PTE_P
       \<and> aligned (frame (ram st') p v) \<and> page_of (frame (ram st') p v) \<in> D' - D
       \<and> uread (ram st') p v = c v"
    "page_of (v - a) < n \<Longrightarrow> page_of (w - a) < n \<Longrightarrow> frame (ram st') p v = frame (ram st') p w \<Longrightarrow>
       page_of v = page_of w"
proof -
  note d = assms [unfolded filled_def]
  note d2 = d [THEN conjunct2] note d3 = d2 [THEN conjunct2] note d4 = d3 [THEN conjunct2]
  note d5 = d4 [THEN conjunct2] note d6 = d5 [THEN conjunct2]
  show "vm_ok st' R D'" by (rule d [THEN conjunct1])
  show "D \<subseteq> D'" by (rule d2 [THEN conjunct1])
  show "page_of x \<in> D \<Longrightarrow> ram st' x = ram st x" by (rule d3 [THEN conjunct1, rule_format])
  show "q \<in> R \<Longrightarrow> \<not> (q = p \<and> page_of (v - a) < n) \<Longrightarrow> pmap (ram st') q v = pmap (ram st) q v"
    by (rule d4 [THEN conjunct1, THEN bspec, THEN spec, THEN mp])
  show "page_of (v - a) < n \<Longrightarrow> present (pmap (ram st') p v)
       \<and> ucast (PTE_FLAGS (pmap (ram st') p v)) = fl v OR PTE_P
       \<and> aligned (frame (ram st') p v) \<and> page_of (frame (ram st') p v) \<in> D' - D
       \<and> uread (ram st') p v = c v"
    by (rule d5 [THEN conjunct1, THEN spec, THEN mp])
  show "page_of (v - a) < n \<Longrightarrow> page_of (w - a) < n \<Longrightarrow> frame (ram st') p v = frame (ram st') p w \<Longrightarrow>
       page_of v = page_of w"
    by (rule d6 [THEN spec, THEN spec, THEN mp, THEN mp, THEN mp])
qed

lemma filled_step:
  assumes f1: "filled st st1 R D D1 p a 1 c fl" and f2: "filled st1 st2 R D1 D2 p (a + 4096) n c fl"
    and a: "aligned a" and p: "p \<in> R" and n: "Suc n < 1048576"
  shows "filled st st2 R D D2 p a (Suc n) c fl"
proof -
  note g = filledD [OF f1] and h = filledD [OF f2]
  have pg: "page_of (v - a) < Suc n \<longleftrightarrow> page_of (v - a) = 0 \<or> page_of (v - (a + 4096)) < n"
    "page_of (v - (a + 4096)) < n \<Longrightarrow> page_of (v - a) \<noteq> 0" for v
    using n by (auto simp: page_of_step split: if_splits)
  have first: "pmap (ram st2) p v = pmap (ram st1) p v" "frame (ram st2) p v = frame (ram st1) p v"
    "page_of (frame (ram st2) p v) \<in> D1 - D" "uread (ram st2) p v = uread (ram st1) p v"
    if v: "page_of (v - a) = 0" for v
  proof -
    have "\<not> page_of (v - (a + 4096)) < n" using pg(2) [of v] v by auto
    then show pm: "pmap (ram st2) p v = pmap (ram st1) p v" using h(4) [OF p, of v] by simp
    then show fr: "frame (ram st2) p v = frame (ram st1) p v" by (simp add: frame_def)
    have f: "aligned (frame (ram st1) p v)" "page_of (frame (ram st1) p v) \<in> D1 - D"
      using g(5) [of v] v by simp_all
    then show "page_of (frame (ram st2) p v) \<in> D1 - D" using fr by simp
    have "page_of (frame (ram st1) p v + (v - PGROUNDDOWN v)) \<in> D1"
      using page_of_frame_byte [OF f(1)] f(2) by simp
    then show "uread (ram st2) p v = uread (ram st1) p v" using h(3) fr by (simp add: uread_def)
  qed
  have page: "present (pmap (ram st2) p v) \<and> ucast (PTE_FLAGS (pmap (ram st2) p v)) = fl v OR PTE_P
      \<and> aligned (frame (ram st2) p v) \<and> page_of (frame (ram st2) p v) \<in> D2 - D
      \<and> uread (ram st2) p v = c v" if v: "page_of (v - a) < Suc n" for v
  proof (cases "page_of (v - a) = 0")
    case True
    then show ?thesis using first [OF True] g(5) [of v] h(2) by auto
  next
    case False
    then have "page_of (v - (a + 4096)) < n" using v pg(1) by simp
    then show ?thesis using h(5) [of v] g(2) by auto
  qed
  have inj: "page_of v = page_of w" if "page_of (v - a) < Suc n" "page_of (w - a) < Suc n"
    "frame (ram st2) p v = frame (ram st2) p w" for v w
  proof (cases "page_of (v - a) = 0 \<or> page_of (w - a) = 0")
    case True
    then have "page_of (v - a) = 0 \<and> page_of (w - a) = 0"
      using that first(3) [of v] first(3) [of w] h(5) [of v] h(5) [of w] pg(1) by auto
    then show ?thesis using same_page_iff [OF a, of v] same_page_iff [OF a, of w] by simp
  next
    case False
    then show ?thesis using h(6) [of v w] that pg(1) by simp
  qed
  have out: "pmap (ram st2) q v = pmap (ram st) q v" if "q \<in> R" "\<not> (q = p \<and> page_of (v - a) < Suc n)" for q v
  proof -
    have "\<not> (q = p \<and> page_of (v - a) < 1)" "\<not> (q = p \<and> page_of (v - (a + 4096)) < n)"
      using that(2) pg(1) [of v] by auto
    then show ?thesis using g(4) h(4) that(1) by simp
  qed
  have data: "ram st2 x = ram st x" if "page_of x \<in> D" for x
    using g(2,3) h(3) that by auto
  show ?thesis unfolding filled_def
  proof (intro conjI)
    show "vm_ok st2 R D2" "D \<subseteq> D2" using h(1,2) g(2) by auto
    show "\<forall>x. page_of x \<in> D \<longrightarrow> ram st2 x = ram st x" using data by blast
    show "\<forall>q \<in> R. \<forall>v. \<not> (q = p \<and> page_of (v - a) < Suc n) \<longrightarrow> pmap (ram st2) q v = pmap (ram st) q v"
      using out by blast
  qed (use page in blast, use inj in blast)
qed

section \<open>copyuvm\<close>

lemma aligned_frame: "aligned (frame m p v)"
proof -
  have b: "\<not> bit (take_bit 12 (ucast (PTE_ADDR e) :: u32)) n" for e n
    by (auto simp: bit_take_bit_iff PTE_ADDR_def flags_mask bit_simps)
  have "take_bit 12 (ucast (PTE_ADDR e) :: u32) = 0" for e
    by (rule bit_word_eqI) (simp add: b)
  then show ?thesis
    unfolding frame_def P2V_def by (intro aligned_add aligned_KERNBASE) (simp add: aligned_take_bit)
qed

lemma small_flags: "unat (ucast (PTE_FLAGS e) :: u32) < 4096"
proof -
  have b: "bit (ucast (PTE_FLAGS e) :: u32) n \<Longrightarrow> n < 12" for n
    by (auto simp: PTE_FLAGS_def flags_mask bit_simps)
  have "take_bit 12 (ucast (PTE_FLAGS e) :: u32) = ucast (PTE_FLAGS e)"
    by (rule bit_word_eqI) (use b in \<open>auto simp: bit_take_bit_iff\<close>)
  then show ?thesis by (simp add: small_take_bit)
qed

text \<open>Copying a whole page.\<close>

lemma memmove_page:
  assumes "aligned d" "aligned s" "page_of d \<noteq> page_of s"
  shows "page_of x \<noteq> page_of d \<Longrightarrow> memmove m d s PGSIZE x = m x"
    "memmove m d s PGSIZE (d + (v - PGROUNDDOWN v)) = m (s + (v - PGROUNDDOWN v))"
proof -
  have "unat s + unat PGSIZE \<le> 2 ^ 32" "unat d + unat PGSIZE \<le> 2 ^ 32"
    using aligned_le [OF assms(1)] aligned_le [OF assms(2)] by (simp_all add: PGSIZE_def)
  note c = memmove_copied [OF this, of m]
  show "memmove m d s PGSIZE x = m x" if "page_of x \<noteq> page_of d"
    using page_of_offset [OF assms(1), of x] that unfolding c copied_def by (simp add: PGSIZE_def)
  show "memmove m d s PGSIZE (d + (v - PGROUNDDOWN v)) = m (s + (v - PGROUNDDOWN v))"
    using offset_small [of v] unfolding c copied_def by (simp add: PGSIZE_def)
qed

text \<open>The pages a loop \<^verbatim>\<open>for (i = a; i < lim; i += PGSIZE)\<close> visits.\<close>

definition npages :: "u32 \<Rightarrow> u32 \<Rightarrow> nat" where
  "npages a lim = (unat lim - unat a + 4095) div 4096"

lemma npages_0: "\<not> a < lim \<longleftrightarrow> npages a lim = 0"
  by (auto simp: npages_def word_less_nat_alt div_eq_0_iff)

lemma npages_step:
  assumes "a < lim" "unat lim \<le> 4294963200" "npages a lim = Suc n"
  shows "npages (a + 4096) lim = n" "n < 1048575"
proof -
  have lt: "unat a < unat lim" using assms(1) by (simp add: word_less_nat_alt)
  define k where "k = unat lim - unat a - 1"
  have u: "unat (a + 4096) = unat a + 4096"
    using assms(2) lt by (subst unat_add_lt_u32) simp_all
  have "unat lim - unat a + 4095 = k + 4096" using lt by (simp add: k_def)
  then have n: "n = k div 4096" using assms(3) by (simp add: npages_def)
  show "npages (a + 4096) lim = n"
  proof (cases "k < 4096")
    case True
    then show ?thesis using lt by (simp add: npages_def u n k_def)
  next
    case False
    then have "unat lim - (unat a + 4096) + 4095 = k" using lt by (simp add: k_def)
    then show ?thesis by (simp add: npages_def u n)
  qed
  have "k < 1048575 * 4096" using assms(2) lt by (simp add: k_def)
  then show "n < 1048575" unfolding n by (rule less_mult_imp_div_less)
qed

lemma P2V_narrow: "P2V (ucast (ucast x :: u32)) = P2V x"
proof -
  have "ucast (ucast (ucast x :: u32) :: u64) = (ucast x :: u32)"
    by (rule bit_word_eqI) (auto simp: bit_simps)
  then show ?thesis by (simp add: P2V_def)
qed

text \<open>One round of the copy: a frame of its own for page \<open>a\<close> of the child.\<close>

lemma copy_round:
  assumes ok: "vm_ok st R D" and pq: "p \<in> R" "q \<in> R" and a: "aligned a" "a < lim"
    and par: "present (pmap (ram st) q a)" "page_of (frame (ram st) q a) \<in> D"
    and child: "\<not> present (pmap (ram st) p a)"
  obtains "copyuvm_loop st p q a lim = Some (Panic ''out of memory'')" "card (kmem_avail st) < 3"
  | st' D' where "copyuvm_loop st p q a lim = copyuvm_loop st' p q (a + 4096) lim"
      "filled st st' R D D' p a 1 (uread (ram st) q) (\<lambda>v. ucast (PTE_FLAGS (pmap (ram st) q v)))"
      "card (kmem_avail st) \<le> card (kmem_avail st') + 3"
proof -
  let ?e = "pmap (ram st) q a" and ?fl = "ucast (PTE_FLAGS (pmap (ram st) q a)) :: u32"
  obtain t where t: "node (ram st) q [PDPTX a, PDX a] = Some t" "load64 (ram st) (t + 8 * PTX a) = ?e"
    using par(1) by (auto simp: pmap_def present_def split: option.splits)
  have nz: "t + 8 * PTX a \<noteq> 0" by (rule entry_setI(3) [OF vm_grown_refl [OF ok] pq(2) t(1)])
  have src: "P2V (ucast (ucast (PTE_ADDR ?e) :: u32)) = frame (ram st) q a"
    by (simp add: frame_def P2V_narrow)
  note w = walkpgdir_look [of st q a PTE_WU, unfolded t(1) option.case]
  show ?thesis
  proof (cases rule: kalloc_total [OF vm_okD(1) [OF ok]])
    case 1
    show ?thesis
      by (rule that(1)) (subst copyuvm_loop.simps, use a(2) w nz t(2) par(1) 1 in \<open>simp_all add: Let_def\<close>)
  next
    case (2 mem st1)
    define m' where "m' = memmove (ram st1) mem (frame (ram st) q a) PGSIZE"
    note k = kalloc_page [OF vm_okD(1) [OF ok] 2]
    have ne: "page_of mem \<noteq> page_of (frame (ram st) q a)" using k(5) par(2) vm_okD(2) [OF ok] by auto
    note mv = memmove_page [OF k(2) aligned_frame ne, where m = "ram st1"]
    have fr: "\<forall>x. page_of x \<noteq> page_of mem \<longrightarrow> m' x = ram st1 x" using mv(1) by (simp add: m'_def)
    note n = new_data_page [OF ok 2 fr]
    have c1: "card (kmem_avail st) \<le> Suc (card (kmem_avail (st1\<lparr>ram := m'\<rparr>)))"
      unfolding n(7) by (rule card_insert_bound)
    have ab: "\<not> present (pmap (ram (st1\<lparr>ram := m'\<rparr>)) p a)" using child n(2) [OF pq(1)] by simp
    have loop: "copyuvm_loop st p q a lim = (case mappages (st1\<lparr>ram := m'\<rparr>) p a PGSIZE (V2P mem) ?fl of
        Ok (r, st) \<Rightarrow> if r < 0 then Some (Ok (0, kfree st mem)) else copyuvm_loop st p q (a + PGSIZE) lim
      | Panic s \<Rightarrow> Some (Panic s) | Diverge \<Rightarrow> None | Fault \<Rightarrow> Some Fault)"
      by (subst copyuvm_loop.simps)
        (use a(2) w nz t(2) par(1) 2 k(3) in \<open>simp add: Let_def src m'_def\<close>)
    have bytes: "m' (mem + (v - PGROUNDDOWN v)) = uread (ram st) q v"
      "ucast (PTE_FLAGS (pmap (ram st) q v)) = ?fl" if "page_of v = page_of a" for v
    proof -
      have pv: "pmap (ram st) q v = pmap (ram st) q a" by (rule pmap_page [OF that])
      then show "ucast (PTE_FLAGS (pmap (ram st) q v)) = ?fl" by simp
      have "page_of (frame (ram st) q a + (v - PGROUNDDOWN v)) \<in> D"
        using page_of_frame_byte [OF aligned_frame] par(2) by simp
      then have "page_of (frame (ram st) q a + (v - PGROUNDDOWN v)) \<notin> kmem_avail st"
        using vm_okD(2) [OF ok] by auto
      then show "m' (mem + (v - PGROUNDDOWN v)) = uread (ram st) q v"
        using mv(2) [of v] k(6) pv by (simp add: m'_def uread_def frame_def)
    qed
    show ?thesis
    proof (cases rule: map_page [OF n(1) pq(1) a(1) ab, of "V2P mem" ?fl])
      case 1
      show ?thesis by (rule that(1)) (use 1 c1 loop in simp_all)
    next
      case (2 st2)
      have f: "filled st st2 R D (insert (page_of mem) D) p a 1 (uread (ram st) q)
          (\<lambda>v. ucast (PTE_FLAGS (pmap (ram st) q v)))"
        by (rule filled_one [OF ok pq(1) a(1) small_flags \<open>kalloc st = _\<close> fr 2(2)])
          (erule bytes)+
      show ?thesis by (rule that(2) [OF _ f]) (use 2(1,3) c1 loop in \<open>simp_all add: PGSIZE_def\<close>)
    qed
  qed
qed

lemma filled_cong:
  assumes "filled st st' R D D' p a n c fl"
    and "\<And>v. page_of (v - a) < n \<Longrightarrow> c v = c' v \<and> fl v = fl' v"
  shows "filled st st' R D D' p a n c' fl'"
proof -
  have "\<forall>v. page_of (v - a) < n \<longrightarrow> present (pmap (ram st') p v)
      \<and> ucast (PTE_FLAGS (pmap (ram st') p v)) = fl' v OR PTE_P
      \<and> aligned (frame (ram st') p v) \<and> page_of (frame (ram st') p v) \<in> D' - D
      \<and> uread (ram st') p v = c' v"
    using filledD(5) [OF assms(1)] assms(2) by metis
  then show ?thesis using assms(1) unfolding filled_def by blast
qed

lemma copyuvm_loop_ok:
  assumes "vm_ok st R D" and "p \<in> R" "q \<in> R" "p \<noteq> q" and "aligned a" and "unat lim \<le> 4294963200"
    and "n = npages a lim"
    and "\<And>v. page_of (v - a) < n \<Longrightarrow> present (pmap (ram st) q v) \<and> page_of (frame (ram st) q v) \<in> D"
    and "\<And>v. page_of (v - a) < n \<Longrightarrow> \<not> present (pmap (ram st) p v)"
  shows "copyuvm_loop st p q a lim = Some (Panic ''out of memory'') \<and> card (kmem_avail st) < 3 * n
     \<or> (\<exists>st' D'. copyuvm_loop st p q a lim = Some (Ok (p, st'))
          \<and> filled st st' R D D' p a n (uread (ram st) q) (\<lambda>v. ucast (PTE_FLAGS (pmap (ram st) q v)))
          \<and> card (kmem_avail st) \<le> card (kmem_avail st') + 3 * n)"
  using assms
proof (induction n arbitrary: st D a)
  case 0
  then have "copyuvm_loop st p q a lim = Some (Ok (p, st))"
    using npages_0 [of a lim] by (subst copyuvm_loop.simps) simp
  then show ?case using filled_0 [OF 0(1)] by fastforce
next
  case (Suc n)
  note pq = Suc.prems(2,3)
  have lt: "a < lim" using npages_0 [of a lim] Suc.prems(7) by simp
  note np = npages_step [OF lt Suc.prems(6) Suc.prems(7) [symmetric]]
  have z: "page_of (a - a) < Suc n" by simp
  have pg: "page_of (v - a) < Suc n" "page_of (v - a) \<noteq> 0" if "page_of (v - (a + 4096)) < n" for v
    using that np(2) by (auto simp: page_of_step split: if_splits)
  show ?case
  proof (cases rule: copy_round [OF Suc.prems(1) pq Suc.prems(5) lt])
    case 1
    then show ?case using Suc.prems(8) [OF z] by simp
  next
    case 2
    then show ?case using Suc.prems(8) [OF z] by simp
  next
    case 3
    then show ?case using Suc.prems(9) [OF z] by simp
  next
    case 4
    then show ?thesis by simp
  next
    case (5 st1 D1)
    note f = filledD [OF 5(2)]
    have q1: "pmap (ram st1) q v = pmap (ram st) q v" "frame (ram st1) q v = frame (ram st) q v" for v
      using f(4) [OF pq(2), of v] Suc.prems(4) by (auto simp: frame_def)
    have par: "present (pmap (ram st1) q v) \<and> page_of (frame (ram st1) q v) \<in> D1"
      "uread (ram st1) q v = uread (ram st) q v" if "page_of (v - (a + 4096)) < n" for v
    proof -
      note o = Suc.prems(8) [OF pg(1) [OF that]]
      then show "present (pmap (ram st1) q v) \<and> page_of (frame (ram st1) q v) \<in> D1"
        using q1 [of v] f(2) by auto
      have "page_of (frame (ram st) q v + (v - PGROUNDDOWN v)) \<in> D"
        using page_of_frame_byte [OF aligned_frame] o by simp
      then show "uread (ram st1) q v = uread (ram st) q v" using f(3) q1 by (simp add: uread_def)
    qed
    have child: "\<not> present (pmap (ram st1) p v)" if "page_of (v - (a + 4096)) < n" for v
      using f(4) [OF pq(1), of v] pg [OF that] Suc.prems(9) [of v] by simp
    have fl: "(\<lambda>v. ucast (PTE_FLAGS (pmap (ram st1) q v))) = (\<lambda>v. ucast (PTE_FLAGS (pmap (ram st) q v)) :: u32)"
      by (simp add: q1)
    note ih = Suc.IH [OF f(1) pq Suc.prems(4) aligned_add [OF Suc.prems(5), of 4096] Suc.prems(6)
        np(1) [symmetric] par(1) child, unfolded fl]
    have step: "filled st st2 R D D2 p a (Suc n) (uread (ram st) q) (\<lambda>v. ucast (PTE_FLAGS (pmap (ram st) q v)))"
      if "filled st1 st2 R D1 D2 p (a + 4096) n (uread (ram st1) q)
        (\<lambda>v. ucast (PTE_FLAGS (pmap (ram st) q v)))" for st2 D2
      by (rule filled_step [OF 5(2) filled_cong [OF that]])
        (use par(2) Suc.prems(5) pq np(2) in simp_all)
    have "copyuvm_loop st p q a lim = Some (Panic ''out of memory'') \<and> card (kmem_avail st1) < 3 * n
     \<or> (\<exists>st' D'. copyuvm_loop st p q a lim = Some (Ok (p, st'))
          \<and> filled st1 st' R D1 D' p (a + 4096) n (uread (ram st1) q)
              (\<lambda>v. ucast (PTE_FLAGS (pmap (ram st) q v)))
          \<and> card (kmem_avail st1) \<le> card (kmem_avail st') + 3 * n)"
      unfolding 5(1) by (rule ih) simp_all
    then show ?thesis using step 5(3) by fastforce
  qed
qed

section \<open>allocuvm\<close>

lemma alloc_round:
  assumes ok: "vm_ok st R D" and p: "p \<in> R" and a: "aligned a" "a < newsz" and perm: "unat perm < 4096"
    and ab: "\<not> present (pmap (ram st) p a)"
  obtains "allocuvm_loop st p a oldsz newsz perm = Some (Panic ''out of memory'')" "card (kmem_avail st) < 3"
  | st' D' where "allocuvm_loop st p a oldsz newsz perm = allocuvm_loop st' p (a + 4096) oldsz newsz perm"
      "filled st st' R D D' p a 1 (\<lambda>_. 0) (\<lambda>_. perm)"
      "card (kmem_avail st) \<le> card (kmem_avail st') + 3"
proof (cases rule: kalloc_total [OF vm_okD(1) [OF ok]])
  case 1
  show ?thesis
    by (rule that(1)) (subst allocuvm_loop.simps, use a(2) 1 in simp_all)
next
  case (2 mem st1)
  define m' where "m' = memset (ram st1) mem 0 PGSIZE"
  note k = kalloc_page [OF vm_okD(1) [OF ok] 2]
  have m: "m' x = (if page_of x = page_of mem then 0 else ram st1 x)" for x
    by (simp add: m'_def memset_fill PGSIZE_def fill_page [OF k(2)])
  have fr: "\<forall>x. page_of x \<noteq> page_of mem \<longrightarrow> m' x = ram st1 x" by (simp add: m)
  note n = new_data_page [OF ok 2 fr]
  have c1: "card (kmem_avail st) \<le> Suc (card (kmem_avail (st1\<lparr>ram := m'\<rparr>)))"
    unfolding n(7) by (rule card_insert_bound)
  have ab': "\<not> present (pmap (ram (st1\<lparr>ram := m'\<rparr>)) p a)" using ab n(2) [OF p] by simp
  have loop: "allocuvm_loop st p a oldsz newsz perm =
      (case mappages (st1\<lparr>ram := m'\<rparr>) p a PGSIZE (V2P mem) perm of
        Ok (r, st) \<Rightarrow> if r < 0 then Some (kbind (deallocuvm st p newsz oldsz) (\<lambda>(_, st). Ok (0, kfree st mem)))
          else allocuvm_loop st p (a + PGSIZE) oldsz newsz perm
      | Panic s \<Rightarrow> Some (Panic s) | Diverge \<Rightarrow> None | Fault \<Rightarrow> Some Fault)"
    by (subst allocuvm_loop.simps) (use a(2) 2 k(3) in \<open>simp add: Let_def m'_def\<close>)
  show ?thesis
  proof (cases rule: map_page [OF n(1) p a(1) ab', of "V2P mem" perm])
    case 1
    show ?thesis by (rule that(1)) (use 1 c1 loop in simp_all)
  next
    case (2 st2)
    have f: "filled st st2 R D (insert (page_of mem) D) p a 1 (\<lambda>_. 0) (\<lambda>_. perm)"
      by (rule filled_one [OF ok p a(1) perm \<open>kalloc st = _\<close> fr 2(2)])
        (simp_all add: m page_of_frame_byte [OF k(2)])
    show ?thesis by (rule that(2) [OF _ f]) (use 2(1,3) c1 loop in \<open>simp_all add: PGSIZE_def\<close>)
  qed
qed

lemma allocuvm_loop_ok:
  assumes "vm_ok st R D" and "p \<in> R" and "aligned a" and "unat newsz \<le> 4294963200"
    and "unat perm < 4096" and "n = npages a newsz"
    and "\<And>v. page_of (v - a) < n \<Longrightarrow> \<not> present (pmap (ram st) p v)"
  shows "allocuvm_loop st p a oldsz newsz perm = Some (Panic ''out of memory'') \<and> card (kmem_avail st) < 3 * n
     \<or> (\<exists>st' D'. allocuvm_loop st p a oldsz newsz perm = Some (Ok (newsz, st'))
          \<and> filled st st' R D D' p a n (\<lambda>_. 0) (\<lambda>_. perm)
          \<and> card (kmem_avail st) \<le> card (kmem_avail st') + 3 * n)"
  using assms
proof (induction n arbitrary: st D a)
  case 0
  then have "allocuvm_loop st p a oldsz newsz perm = Some (Ok (newsz, st))"
    using npages_0 [of a newsz] by (subst allocuvm_loop.simps) simp
  then show ?case using filled_0 [OF 0(1)] by fastforce
next
  case (Suc n)
  note p = Suc.prems(2)
  have lt: "a < newsz" using npages_0 [of a newsz] Suc.prems(6) by simp
  note np = npages_step [OF lt Suc.prems(4) Suc.prems(6) [symmetric]]
  have z: "\<not> present (pmap (ram st) p a)" by (rule Suc.prems(7)) simp
  show ?case
  proof (cases rule: alloc_round [OF Suc.prems(1) p Suc.prems(3) lt Suc.prems(5) z, of oldsz])
    case (2 st1 D1)
    note f = filledD [OF 2(2)]
    have child: "\<not> present (pmap (ram st1) p v)" if "page_of (v - (a + 4096)) < n" for v
    proof -
      have "page_of (v - a) < Suc n" "page_of (v - a) \<noteq> 0"
        using that np(2) by (auto simp: page_of_step split: if_splits)
      then show ?thesis using f(4) [OF p, of v] Suc.prems(7) [of v] by simp
    qed
    have step: "filled st st2 R D D2 p a (Suc n) (\<lambda>_. 0) (\<lambda>_. perm)"
      if "filled st1 st2 R D1 D2 p (a + 4096) n (\<lambda>_. 0) (\<lambda>_. perm)" for st2 D2
      by (rule filled_step [OF 2(2) that Suc.prems(3) p]) (use np(2) in simp)
    note ih = Suc.IH [OF f(1) p aligned_add [OF Suc.prems(3), of 4096] Suc.prems(4,5) np(1) [symmetric] child]
    have "allocuvm_loop st p a oldsz newsz perm = Some (Panic ''out of memory'') \<and> card (kmem_avail st1) < 3 * n
     \<or> (\<exists>st' D'. allocuvm_loop st p a oldsz newsz perm = Some (Ok (newsz, st'))
          \<and> filled st1 st' R D1 D' p (a + 4096) n (\<lambda>_. 0) (\<lambda>_. perm)
          \<and> card (kmem_avail st1) \<le> card (kmem_avail st') + 3 * n)"
      unfolding 2(1) by (rule ih) simp_all
    then show ?thesis using step 2(3) by fastforce
  qed simp
qed

lemma aligned_PGROUNDUP: "unat sz \<le> 4294963200 \<Longrightarrow> aligned (PGROUNDUP sz)"
  by (simp add: unat_PGROUNDUP)

section \<open>An example machine\<close>

text \<open>Sixteen pages, of which the first two hold empty tables.\<close>

definition vm_boot :: kmem_state where
  "vm_boot = kinit1 \<lparr>use_lock = True, freelist = 0, ram = \<lambda>_. 0\<rparr> 0x1000 0x11000"

definition zero_page :: "kmem_state \<Rightarrow> kmem_state" where
  "zero_page st = (case kalloc st of Ok (t, st) \<Rightarrow> st\<lparr>ram := memset (ram st) t 0 PGSIZE\<rparr> | _ \<Rightarrow> st)"

definition two_tables :: kmem_state where
  "two_tables = zero_page (zero_page vm_boot)"

lemma vm_boot_runs: "kmem_runs vm_boot [(0x1000, 16)]"
proof -
  have "unat (PGROUNDUP 0x1000) = 0x1000" by (subst unat_PGROUNDUP) simp_all
  moreover from this have "PGROUNDUP 0x1000 = 0x1000" by (simp add: PGROUNDUP_def PGSIZE_def)
  ultimately show ?thesis using kinit1_runs [of "0x1000" "0x11000"] by (simp add: vm_boot_def)
qed

lemma zero_page_runs:
  assumes "kmem_runs st [(t, Suc k)]" and "0 < k" and "vm_ok st R {}"
  shows "kmem_runs (zero_page st) [(t + 4096, k)]" "vm_ok (zero_page st) (insert t R) {}" "t \<notin> R"
    "pmap (ram (zero_page st)) t v = 0" "q \<in> R \<Longrightarrow> pmap (ram (zero_page st)) q = pmap (ram st) q"
proof -
  have ff: "first_fit [(t, Suc k)] (unat (1 :: u32)) = Some (t, [(t + 4096, k)])"
    using assms(2) by simp
  obtain st1 where k: "kalloc st = Ok (t, st1)"
    using pgalloc_refines_first_fit [OF assms(1), of 1] ff by (auto simp: kalloc_def)
  obtain rs where "first_fit [(t, Suc k)] (unat (1 :: u32)) = Some (t, rs)" "kmem_runs st1 rs"
    by (rule pgalloc_step [OF assms(1) _ k [unfolded kalloc_def]]) simp
  then have r: "kmem_runs st1 [(t + 4096, k)]" using ff by simp
  note ka = kalloc_page [OF vm_okD(1) [OF assms(3)] k]
  have z: "zero_page st = st1\<lparr>ram := memset (ram st1) t 0 PGSIZE\<rparr>" by (simp add: zero_page_def k)
  show "kmem_runs (zero_page st) [(t + 4096, k)]"
    unfolding z by (rule kmem_runs_write [OF r])
      (use ka(4) kmem_avail_runs [OF r] in \<open>auto simp: memset_fill PGSIZE_def fill_page [OF ka(2)]\<close>)
  note n = new_root [OF assms(3) k z]
  show "vm_ok (zero_page st) (insert t R) {}" "t \<notin> R"
    "pmap (ram (zero_page st)) t v = 0" "q \<in> R \<Longrightarrow> pmap (ram (zero_page st)) q = pmap (ram st) q"
    by (fact n(1,2,4) | rule n(5))+
qed

lemma two_tables_ok:
  "vm_ok two_tables {0x2000, 0x1000} {}" "card (kmem_avail two_tables) = 14"
  "pmap (ram two_tables) 0x1000 v = 0" "pmap (ram two_tables) 0x2000 v = 0"
proof -
  have "kmem_ok vm_boot" using vm_boot_runs by (auto simp: kmem_ok_def)
  then have ok: "vm_ok vm_boot {} {}" by (simp add: vm_ok_def tabs_def)
  have r: "kmem_runs vm_boot [(0x1000, Suc 15)]" using vm_boot_runs by simp
  note z1 = zero_page_runs [OF r _ ok]
  have r1: "kmem_runs (zero_page vm_boot) [(0x2000, Suc 14)]" using z1(1) by simp
  note z2 = zero_page_runs [OF r1 _ z1(2), folded two_tables_def]
  show "vm_ok two_tables {0x2000, 0x1000} {}" using z2(2) by simp
  show "pmap (ram two_tables) 0x1000 v = 0" using z2(5) [of "0x1000"] z1(4) [of v] by simp
  show "pmap (ram two_tables) 0x2000 v = 0" using z2(4) by simp
  have "kmem_runs two_tables [(0x3000, 14)]" using z2(1) by simp
  from kmem_avail_runs [OF this] show "card (kmem_avail two_tables) = 14"
    by (simp add: free_pages_def run_pages_def)
qed

lemma example_range: "PGROUNDUP 0 = 0" "npages 0 0x1000 = 1"
  by (simp_all add: PGROUNDUP_def PGSIZE_def npages_def)

text \<open>The first table with one zeroed page at address 0.\<close>

lemma one_page:
  obtains st D where "allocuvm two_tables 0x1000 0 0x1000 PTE_WU = Ok (0x1000, st)"
    "filled two_tables st {0x2000, 0x1000} {} D 0x1000 0 1 (\<lambda>_. 0) (\<lambda>_. PTE_WU)"
    "11 \<le> card (kmem_avail st)"
proof -
  have "\<not> present (pmap (ram two_tables) 0x1000 v)" for v
    by (simp add: two_tables_ok(3) present_def)
  then have "allocuvm_loop two_tables 0x1000 0 0 0x1000 PTE_WU = Some (Panic ''out of memory'')
        \<and> card (kmem_avail two_tables) < 3 * 1
     \<or> (\<exists>st' D'. allocuvm_loop two_tables 0x1000 0 0 0x1000 PTE_WU = Some (Ok (0x1000, st'))
          \<and> filled two_tables st' {0x2000, 0x1000} {} D' 0x1000 0 1 (\<lambda>_. 0) (\<lambda>_. PTE_WU)
          \<and> card (kmem_avail two_tables) \<le> card (kmem_avail st') + 3 * 1)"
    by (intro allocuvm_loop_ok two_tables_ok(1)) (simp_all add: example_range PTE_W_def PTE_U_def)
  then show ?thesis using that by (auto simp: two_tables_ok(2) allocuvm_def example_range)
qed

section \<open>Properties\<close>

text \<open>
  C23. \<open>copyuvm\<close> gives a child a copy of its parent's memory and keeps them apart. When the
  parent's pages of the range are present, with frames among the data pages \<open>D\<close>, and the child
  has none of them, the call ends: it panics for lack of memory, and then fewer than three free
  pages were left for every page to copy, or it returns the child's table and the child reads at
  every address of the range the byte the parent reads there, under the parent's flags, from
  frames that are not among \<open>D\<close>; no data page and no entry of any other address space changed.
\<close>

theorem copyuvm_copies:
  assumes "vm_ok st R D" and "p \<in> R" "q \<in> R" "p \<noteq> q" and "aligned a" and "unat lim \<le> 4294963200"
    and "\<And>v. page_of (v - a) < npages a lim \<Longrightarrow>
      present (pmap (ram st) q v) \<and> page_of (frame (ram st) q v) \<in> D"
    and "\<And>v. page_of (v - a) < npages a lim \<Longrightarrow> \<not> present (pmap (ram st) p v)"
  shows "case copyuvm st p q a lim of
     Ok (r, st') \<Rightarrow> r = p \<and> (\<exists>D'. D \<subseteq> D' \<and> vm_ok st' R D')
       \<and> (\<forall>v. page_of (v - a) < npages a lim \<longrightarrow> uread (ram st') p v = uread (ram st) q v
            \<and> page_of (frame (ram st') p v) \<notin> D \<and> present (pmap (ram st') p v)
            \<and> ucast (PTE_FLAGS (pmap (ram st') p v)) = (ucast (PTE_FLAGS (pmap (ram st) q v)) OR PTE_P :: u32))
       \<and> (\<forall>r \<in> R. \<forall>v. r \<noteq> p \<or> npages a lim \<le> page_of (v - a) \<longrightarrow> pmap (ram st') r v = pmap (ram st) r v)
       \<and> (\<forall>x. page_of x \<in> D \<longrightarrow> ram st' x = ram st x)
   | Panic s \<Rightarrow> s = ''out of memory'' \<and> card (kmem_avail st) < 3 * npages a lim
   | Diverge \<Rightarrow> False
   | Fault \<Rightarrow> False"
proof -
  consider "copyuvm_loop st p q a lim = Some (Panic ''out of memory'')" "card (kmem_avail st) < 3 * npages a lim"
    | st' D' where "copyuvm_loop st p q a lim = Some (Ok (p, st'))"
      "filled st st' R D D' p a (npages a lim) (uread (ram st) q) (\<lambda>v. ucast (PTE_FLAGS (pmap (ram st) q v)))"
    using copyuvm_loop_ok [OF assms(1-6) refl assms(7,8)] by blast
  then show ?thesis
  proof cases
    case 1
    then show ?thesis by (simp add: copyuvm_def)
  next
    case (2 st' D')
    note f = filledD [OF 2(2)]
    have "pmap (ram st') r v = pmap (ram st) r v" if "r \<in> R" "r \<noteq> p \<or> npages a lim \<le> page_of (v - a)" for r v
      by (rule f(4) [OF that(1)]) (use that(2) in auto)
    moreover have "\<forall>v. page_of (v - a) < npages a lim \<longrightarrow> uread (ram st') p v = uread (ram st) q v
            \<and> page_of (frame (ram st') p v) \<notin> D \<and> present (pmap (ram st') p v)
            \<and> ucast (PTE_FLAGS (pmap (ram st') p v)) = (ucast (PTE_FLAGS (pmap (ram st) q v)) OR PTE_P :: u32)"
      using f(5) by blast
    ultimately show ?thesis using 2(1) f(1-3) by (auto simp: copyuvm_def)
  qed
qed

theorem copyuvm_copies_witness:
  "\<exists>st st'. allocuvm two_tables 0x1000 0 0x1000 PTE_WU = Ok (0x1000, st)
     \<and> copyuvm st 0x2000 0x1000 0 0x1000 = Ok (0x2000, st')
     \<and> uread (ram st') 0x2000 0x123 = uread (ram st) 0x1000 0x123
     \<and> frame (ram st') 0x2000 0x123 \<noteq> frame (ram st) 0x1000 0x123"
proof -
  obtain st D where a: "allocuvm two_tables 0x1000 0 0x1000 PTE_WU = Ok (0x1000, st)"
    "filled two_tables st {0x2000, 0x1000} {} D 0x1000 0 1 (\<lambda>_. 0) (\<lambda>_. PTE_WU)"
    "11 \<le> card (kmem_avail st)" by (rule one_page)
  note f = filledD [OF a(2)]
  have par: "present (pmap (ram st) 0x1000 v) \<and> page_of (frame (ram st) 0x1000 v) \<in> D"
    if "page_of (v - 0) < npages 0 0x1000" for v
    using f(5) [of v] that by (simp add: example_range)
  have child: "\<not> present (pmap (ram st) 0x2000 v)" for v
    using f(4) [of "0x2000" v] two_tables_ok(4) by (simp add: present_def)
  have z: "page_of (0x123 - 0) < npages 0 0x1000" by (simp add: example_range page_of_def)
  note c = copyuvm_copies [OF f(1), of "0x2000" "0x1000" 0 "0x1000", OF _ _ _ _ _ par child]
  obtain st' where "copyuvm st 0x2000 0x1000 0 0x1000 = Ok (0x2000, st')"
    "uread (ram st') 0x2000 0x123 = uread (ram st) 0x1000 0x123"
    "page_of (frame (ram st') 0x2000 0x123) \<notin> D"
    using c a(3) z by (auto simp: example_range split: kres.splits)
  then show ?thesis using a(1) par [OF z] by auto
qed

text \<open>
  C24. \<open>allocuvm\<close> grows an address space by zeroed pages of its own. When no page of the range is
  present, the call ends: it panics for lack of memory, and then fewer than three free pages were
  left for every page to add, or it returns the new size and every page from the rounded old size
  up to it has a frame of its own, outside the data pages there were, that reads 0 everywhere and
  carries the given permissions; nothing else of any address space and no data page changed.
\<close>

theorem allocuvm_correct:
  assumes "vm_ok st R D" and "p \<in> R" and "oldsz \<le> newsz" and "unat newsz \<le> 4294963200"
    and "unat perm < 4096"
    and "\<And>v. page_of (v - PGROUNDUP oldsz) < npages (PGROUNDUP oldsz) newsz \<Longrightarrow> \<not> present (pmap (ram st) p v)"
  shows "case allocuvm st p oldsz newsz perm of
     Ok (r, st') \<Rightarrow> r = newsz
       \<and> (\<exists>D'. filled st st' R D D' p (PGROUNDUP oldsz) (npages (PGROUNDUP oldsz) newsz) (\<lambda>_. 0) (\<lambda>_. perm))
   | Panic s \<Rightarrow> s = ''out of memory'' \<and> card (kmem_avail st) < 3 * npages (PGROUNDUP oldsz) newsz
   | Diverge \<Rightarrow> False
   | Fault \<Rightarrow> False"
proof -
  have "unat oldsz \<le> 4294963200" using assms(3,4) by (simp add: word_le_nat_alt)
  note l = allocuvm_loop_ok [OF assms(1,2) aligned_PGROUNDUP [OF this] assms(4,5) refl assms(6), of oldsz]
  have "allocuvm st p oldsz newsz perm = of_kloop (allocuvm_loop st p (PGROUNDUP oldsz) oldsz newsz perm)"
    using assms(3) by (simp add: allocuvm_def not_less [symmetric])
  then show ?thesis using l by auto
qed

theorem allocuvm_correct_witness:
  "\<exists>st'. allocuvm two_tables 0x1000 0 0x1000 PTE_WU = Ok (0x1000, st')
     \<and> uread (ram st') 0x1000 0x123 = 0 \<and> present (pmap (ram st') 0x1000 0x123)"
proof -
  have ab: "\<not> present (pmap (ram two_tables) 0x1000 v)" for v
    by (simp add: two_tables_ok(3) present_def)
  have z: "page_of (0x123 - 0) < 1" by (simp add: page_of_def)
  have "unat PTE_WU < 4096" by (simp add: PTE_W_def PTE_U_def)
  from allocuvm_correct [OF two_tables_ok(1), of "0x1000" 0 "0x1000", OF _ _ _ this ab]
  obtain st' D' where "allocuvm two_tables 0x1000 0 0x1000 PTE_WU = Ok (0x1000, st')"
    "filled two_tables st' {0x2000, 0x1000} {} D' 0x1000 0 1 (\<lambda>_. 0) (\<lambda>_. PTE_WU)"
    by (auto simp: two_tables_ok(2) example_range split: kres.splits)
  then show ?thesis using filledD(5) [OF _ z] by blast
qed

end
