(* ===== verification/Proc.thy ===== *)
theory Proc
  imports Vm Vfs
begin

text \<open>
  Processes, \<^verbatim>\<open>kernel/core/proc.c\<close> and \<^verbatim>\<open>proc.h\<close>: the process table and the whole life of a process
  (\<open>allocproc\<close>, \<open>userinit\<close>, \<open>fork\<close>, \<open>growproc\<close>, \<open>exit\<close>, \<open>wait\<close>, \<open>kill\<close>), the scheduler
  (\<open>scheduler\<close>, \<open>sched\<close>, \<open>yield\<close>, \<open>sleep\<close>, \<open>wakeup\<close>), and sleep locks (\<^verbatim>\<open>common/sleeplock.c\<close>).

  A process pointer is its index in \<^verbatim>\<open>ptable.proc\<close>, \<open>None\<close> when null. Kernel stacks, trap frames,
  page tables and path buffers live in the memory of \<open>Page_Alloc\<close>. \<^verbatim>\<open>ptable.lock\<close> brackets every
  critical section; a function that gives up the CPU in \<^verbatim>\<open>swtch\<close> is cut there: the part before is
  one definition, the part after another.
\<close>

section \<open>Processes (proc.h)\<close>

datatype procstate = UNUSED | EMBRYO | SLEEPING | RUNNABLE | RUNNING | ZOMBIE

definition NPROC :: nat where "NPROC = 64"
definition PROC_FILE_MAX :: nat where "PROC_FILE_MAX = 8"
definition MESSAGE_MAX :: int where "MESSAGE_MAX = 64"
definition PROC_STACK_BOTTOM :: u32 where "PROC_STACK_BOTTOM = 0x20000000"
definition PROC_HEAP_BOTTOM :: u32 where "PROC_HEAP_BOTTOM = 0x20000000"
definition PROC_DYNAMIC_BOTTOM :: u32 where "PROC_DYNAMIC_BOTTOM = 0x40000000"

record Message =
  msg_pid :: int
  msg_size :: int
  msg_addr :: u32

record MessageQueue =
  mq_begin :: int
  mq_end :: int
  mq_queue :: "Message list"

text \<open>
  What a process sleeps on: the address of a process, of its message queue, of the tick counter,
  of a sleep lock or of anything else.
\<close>

datatype channel = ProcChan nat | MsgChan nat | TicksChan | LockChan nat | OtherChan u32

record proc =
  psz :: u32
  stack_size :: u32
  heap_size :: u32
  pgdir :: u32
  kstack :: u32
  pstate :: procstate
  pid :: int
  parent :: "nat option"
  ptf :: u32
  pcontext :: u32
  chan :: "channel option"
  killed :: bool
  pname :: "u8 list"
  files :: "FileDesc list"
  cwd_parts :: int
  cwd_pathbuf :: u32
  dyn_base :: u32
  msgqueue :: MessageQueue
  ppty :: int
  exit_status :: int

text \<open>
  The kernel's state around the table. The last four fields are the CPU the code runs on; the
  three before them are link-time symbols.
\<close>

record ('p, 's) kernel =
  ptable :: "proc list"
  nextpid :: int
  initproc :: "nat option"
  kmem :: kmem_state
  kpgdir :: u32
  module_base :: u32
  vfs_state :: "('p, 's) vfs"
  sym_data :: u32
  sym_trapret :: u32
  sym_forkret :: u32
  cpu_proc :: "nat option"
  this_cpu :: cpu
  cpu_regs :: cpu_hw
  ts_addr :: u32

abbreviation proc_at :: "('p, 's) kernel \<Rightarrow> nat \<Rightarrow> proc" where
  "proc_at k i \<equiv> ptable k ! i"

definition upd_proc :: "('p, 's) kernel \<Rightarrow> nat \<Rightarrow> (proc \<Rightarrow> proc) \<Rightarrow> ('p, 's) kernel" where
  "upd_proc k i f = k\<lparr>ptable := (ptable k)[i := f (ptable k ! i)]\<rparr>"

definition myproc :: "('p, 's) kernel \<Rightarrow> nat option" where
  "myproc k = cpu_proc k"

text \<open>A loop over \<^verbatim>\<open>ptable.proc\<close> that stops at the first process that satisfies a test.\<close>

fun first_proc :: "(proc \<Rightarrow> bool) \<Rightarrow> proc list \<Rightarrow> nat \<Rightarrow> nat option" where
  "first_proc P [] i = None"
| "first_proc P (p # ps) i = (if P p then Some i else first_proc P ps (Suc i))"

section \<open>Creation\<close>

text \<open>\<^verbatim>\<open>sizeof(struct trapframe)\<close> is 76 and \<^verbatim>\<open>sizeof(struct context)\<close> is 20.\<close>

definition allocproc :: "('p, 's) kernel \<Rightarrow> (nat option \<times> ('p, 's) kernel) kres" where
  "allocproc k =
     (case first_proc (\<lambda>p. pstate p = UNUSED) (ptable k) 0 of
        None \<Rightarrow> Ok (None, k)
      | Some i \<Rightarrow>
          let k = upd_proc k i (\<lambda>p. p\<lparr>pstate := EMBRYO\<rparr>);
              k = upd_proc k i (\<lambda>p. p\<lparr>pid := nextpid k\<rparr>);
              k = k\<lparr>nextpid := nextpid k + 1\<rparr>
          in kbind (kalloc (kmem k)) (\<lambda>(stk, st).
               let k = upd_proc (k\<lparr>kmem := st\<rparr>) i (\<lambda>p. p\<lparr>kstack := stk\<rparr>)
               in if stk = 0 then Ok (None, upd_proc k i (\<lambda>p. p\<lparr>pstate := UNUSED\<rparr>))
                  else let sp = stk + KSTACKSIZE - 76;
                           k = upd_proc k i (\<lambda>p. p\<lparr>ptf := sp\<rparr>);
                           sp = sp - 4;
                           m = store32 (ram (kmem k)) sp (sym_trapret k);
                           sp = sp - 20;
                           k = upd_proc k i (\<lambda>p. p\<lparr>pcontext := sp\<rparr>);
                           m = memset m sp 0 20;
                           m = store32 m (sp + 16) (sym_forkret k);
                           k = k\<lparr>kmem := (kmem k)\<lparr>ram := m\<rparr>\<rparr>;
                           k = upd_proc k i (\<lambda>p. p\<lparr>files := replicate PROC_FILE_MAX fd_zero,
                                 dyn_base := PROC_DYNAMIC_BOTTOM, ppty := 0,
                                 msgqueue := (msgqueue p)\<lparr>mq_begin := 0, mq_end := 0\<rparr>\<rparr>)
                       in Ok (Some i, k)))"

definition setupkvm_k :: "('p, 's) kernel \<Rightarrow> (u32 \<times> ('p, 's) kernel) kres" where
  "setupkvm_k k = kbind (setupkvm (kmem k) (sym_data k) (kpgdir k) (module_base k))
     (\<lambda>(pd, st). Ok (pd, k\<lparr>kmem := st\<rparr>))"

definition FL_IF :: u32 where "FL_IF = 0x200"

text \<open>\<^verbatim>\<open>safestrcpy\<close> into a name held as a byte list, as in \<open>Kernel_String.safestrcpy\<close>.\<close>

primrec safestrcpy_buf_loop :: "u8 list \<Rightarrow> u8 list \<Rightarrow> nat \<Rightarrow> nat \<Rightarrow> u8 list" where
  "safestrcpy_buf_loop dst src i 0 = dst[i := 0]"
| "safestrcpy_buf_loop dst src i (Suc n) =
     (if hd0 src \<noteq> 0 then safestrcpy_buf_loop (dst[i := hd0 src]) (tl src) (Suc i) n
      else dst[i := hd0 src, Suc i := 0])"

definition safestrcpy_buf :: "u8 list \<Rightarrow> u8 list \<Rightarrow> int \<Rightarrow> u8 list" where
  "safestrcpy_buf dst src n = (if n \<le> 0 then dst else safestrcpy_buf_loop dst src 0 (nat (n - 1)))"

text \<open>
  \<open>userinit\<close>: \<open>init\<close> and \<open>init_size\<close> are the address and the size of the embedded initial program;
  \<open>store16\<close> writes a 16-bit field of the trap frame.
\<close>

definition store16 :: "mem \<Rightarrow> u32 \<Rightarrow> u16 \<Rightarrow> mem" where
  "store16 m p v = m(p := ucast v, p + 1 := ucast (drop_bit 8 v))"

definition user_trapframe :: "mem \<Rightarrow> u32 \<Rightarrow> mem" where
  "user_trapframe m tf =
     (let m = memset m tf 0 76;
          m = store16 m (tf + 60) (of_nat SEG_UCODE * 8 OR ucast DPL_USER);
          m = store16 m (tf + 44) (of_nat SEG_UDATA * 8 OR ucast DPL_USER);
          m = store16 m (tf + 40) (load16 m (tf + 44));
          m = store16 m (tf + 72) (load16 m (tf + 44));
          m = store32 m (tf + 64) FL_IF;
          m = store32 m (tf + 68) PGSIZE
      in store32 m (tf + 56) 0)"

definition userinit :: "('p, 's) kernel \<Rightarrow> u32 \<Rightarrow> u32 \<Rightarrow> ('p, 's) kernel kres" where
  "userinit k init init_size =
     kbind (allocproc k) (\<lambda>(p, k).
       let k = k\<lparr>initproc := p\<rparr>
       in case p of None \<Rightarrow> Fault
        | Some i \<Rightarrow> kbind (setupkvm_k k) (\<lambda>(pd, k).
            let k = upd_proc k i (\<lambda>p. p\<lparr>pgdir := pd\<rparr>)
            in if pd = 0 then Panic ''userinit: out of memory?''
               else kbind (inituvm (kmem k) pd init init_size) (\<lambda>st.
                 let k = upd_proc (k\<lparr>kmem := st\<rparr>) i (\<lambda>p. p\<lparr>psz := PGSIZE\<rparr>);
                     k = k\<lparr>kmem := (kmem k)\<lparr>ram := user_trapframe (ram (kmem k)) (ptf (proc_at k i))\<rparr>\<rparr>;
                     k = upd_proc k i (\<lambda>p. p\<lparr>pname := safestrcpy_buf (pname p) (bytes_of ''initcode'') 16,
                           cwd_parts := 0\<rparr>)
                 in kbind (kalloc (kmem k)) (\<lambda>(pb, st).
                      let k = upd_proc (k\<lparr>kmem := st\<rparr>) i (\<lambda>p. p\<lparr>cwd_pathbuf := pb\<rparr>)
                      in Ok (upd_proc k i (\<lambda>p. p\<lparr>pstate := RUNNABLE\<rparr>))))))"

section \<open>fork, growproc\<close>

text \<open>The reaction of \<open>fork\<close> to a failed copy.\<close>

definition fork_undo :: "('p, 's) kernel \<Rightarrow> nat \<Rightarrow> (int \<times> ('p, 's) kernel) kres" where
  "fork_undo k np =
     kbind (freevm (kmem k) (pgdir (proc_at k np))) (\<lambda>st.
       let k = k\<lparr>kmem := kfree st (kstack (proc_at k np))\<rparr>;
           k = upd_proc k np (\<lambda>p. p\<lparr>kstack := 0\<rparr>)
       in Ok (-1, upd_proc k np (\<lambda>p. p\<lparr>pstate := UNUSED\<rparr>)))"

text \<open>The four \<^verbatim>\<open>copyuvm\<close> calls of \<open>fork\<close>, each with its failure branch.\<close>

primrec fork_copy :: "('p, 's) kernel \<Rightarrow> nat \<Rightarrow> u32 \<Rightarrow> (u32 \<times> u32) list \<Rightarrow>
    (('p, 's) kernel \<Rightarrow> (int \<times> ('p, 's) kernel) kres) \<Rightarrow> (int \<times> ('p, 's) kernel) kres" where
  "fork_copy k np oldpgdir [] cont = cont k"
| "fork_copy k np oldpgdir (r # rs) cont =
     kbind (copyuvm (kmem k) (pgdir (proc_at k np)) oldpgdir (fst r) (snd r)) (\<lambda>(ret, st).
       let k = k\<lparr>kmem := st\<rparr>
       in if ret = 0 then fork_undo k np else fork_copy k np oldpgdir rs cont)"

definition fork_finish :: "('p, 's) kernel \<Rightarrow> nat \<Rightarrow> nat \<Rightarrow> (int \<times> ('p, 's) kernel) kres" where
  "fork_finish k cur np =
     (let c = proc_at k cur;
          k = upd_proc k np (\<lambda>p. p\<lparr>psz := psz c, stack_size := stack_size c, heap_size := heap_size c,
                dyn_base := dyn_base c, ppty := ppty c, parent := Some cur\<rparr>);
          m = memmove (ram (kmem k)) (ptf (proc_at k np)) (ptf c) 76;
          m = store32 m (ptf (proc_at k np) + 28) 0;
          k = k\<lparr>kmem := (kmem k)\<lparr>ram := m\<rparr>\<rparr>;
          k = upd_proc k np (\<lambda>p. p\<lparr>pname := safestrcpy_buf (pname p) (pname c) 16,
                cwd_parts := cwd_parts c\<rparr>)
      in kbind (kalloc (kmem k)) (\<lambda>(pb, st).
           let k = upd_proc (k\<lparr>kmem := st\<rparr>) np (\<lambda>p. p\<lparr>cwd_pathbuf := pb\<rparr>);
               m = memmove (ram (kmem k)) pb (cwd_pathbuf c) (of_int (cwd_parts (proc_at k np) * 128));
               k = k\<lparr>kmem := (kmem k)\<lparr>ram := m\<rparr>\<rparr>;
               child = pid (proc_at k np)
           in Ok (child, upd_proc k np (\<lambda>p. p\<lparr>pstate := RUNNABLE\<rparr>))))"

text \<open>\<open>fork\<close> once it has a slot.\<close>

definition fork_rest :: "('p, 's) kernel \<Rightarrow> nat \<Rightarrow> nat \<Rightarrow> (int \<times> ('p, 's) kernel) kres" where
  "fork_rest k cur np =
     kbind (setupkvm_k k) (\<lambda>(pd, k).
       let k = upd_proc k np (\<lambda>p. p\<lparr>pgdir := pd\<rparr>); c = proc_at k cur
       in if pd = 0 then Ok (-1, k)
          else fork_copy k np (pgdir c)
                 [(0, psz c), (PROC_DYNAMIC_BOTTOM, dyn_base c),
                  (PROC_STACK_BOTTOM - stack_size c, PROC_STACK_BOTTOM),
                  (PROC_HEAP_BOTTOM, PROC_HEAP_BOTTOM + heap_size c)]
                 (\<lambda>k. fork_finish k cur np))"

definition fork :: "('p, 's) kernel \<Rightarrow> (int \<times> ('p, 's) kernel) kres" where
  "fork k =
     (case myproc k of None \<Rightarrow> Fault
      | Some cur \<Rightarrow>
          kbind (allocproc k) (\<lambda>(r, k).
            case r of None \<Rightarrow> Ok (-1, k) | Some np \<Rightarrow> fork_rest k cur np))"

definition switch_to :: "('p, 's) kernel \<Rightarrow> nat \<Rightarrow> ('p, 's) kernel kres" where
  "switch_to k i =
     kbind (switchuvm (this_cpu k) (cpu_regs k) (ts_addr k) (Some (kstack (proc_at k i), pgdir (proc_at k i))))
       (\<lambda>(c, h). Ok (k\<lparr>this_cpu := c, cpu_regs := h\<rparr>))"

text \<open>\<open>growproc\<close>: \<open>n\<close> is an \<^verbatim>\<open>int\<close>; the sizes are computed in \<^verbatim>\<open>unsigned int\<close>.\<close>

definition growproc :: "('p, 's) kernel \<Rightarrow> int \<Rightarrow> (int \<times> ('p, 's) kernel) kres" where
  "growproc k n =
     (case myproc k of None \<Rightarrow> Fault
      | Some cur \<Rightarrow>
          let c = proc_at k cur; old = PROC_HEAP_BOTTOM + heap_size c
          in kbind (if n > 0 then allocuvm (kmem k) (pgdir c) old (old + of_int n) (PTE_W OR PTE_U)
                    else if n < 0 then deallocuvm (kmem k) (pgdir c) old (old + of_int n)
                    else Ok (1, kmem k)) (\<lambda>(r, st).
               let k = k\<lparr>kmem := st\<rparr>
               in if r = 0 then Ok (-1, k)
                  else let k = upd_proc k cur (\<lambda>p. p\<lparr>heap_size := heap_size p + of_int n\<rparr>)
                       in kbind (switch_to k cur) (\<lambda>k. Ok (0, k))))"

section \<open>Sleeping and waking\<close>

text \<open>
  \<open>sched\<close> up to \<^verbatim>\<open>swtch\<close>: the tests, given the table lock and the CPU as the caller left them; the
  saved \<^verbatim>\<open>intena\<close> is its result.
\<close>

definition sched :: "spinlock \<Rightarrow> nat \<Rightarrow> cpu \<Rightarrow> proc \<Rightarrow> bool kres" where
  "sched lk i c p =
     kbind (holding lk i c) (\<lambda>(h, c).
       if \<not> h then Panic ''sched ptable.lock''
       else if ncli c \<noteq> 1 then Panic ''sched locks''
       else if pstate p = RUNNING then Panic ''sched running''
       else if iflag c then Panic ''sched interruptible''
       else Ok (intena c))"

definition wakeup_proc :: "channel option \<Rightarrow> proc \<Rightarrow> proc" where
  "wakeup_proc ch p = (if pstate p = SLEEPING \<and> chan p = ch then p\<lparr>pstate := RUNNABLE\<rparr> else p)"

definition wakeup1 :: "('p, 's) kernel \<Rightarrow> channel option \<Rightarrow> ('p, 's) kernel" where
  "wakeup1 k ch = k\<lparr>ptable := map (wakeup_proc ch) (ptable k)\<rparr>"

definition wakeup :: "('p, 's) kernel \<Rightarrow> channel option \<Rightarrow> ('p, 's) kernel" where
  "wakeup k ch = wakeup1 k ch"

text \<open>\<open>sleep\<close> and \<open>yield\<close> up to the switch, and \<open>sleep\<close> after it. \<open>has_lk\<close> is \<^verbatim>\<open>lk != 0\<close>.\<close>

definition sleep :: "('p, 's) kernel \<Rightarrow> channel option \<Rightarrow> bool \<Rightarrow> ('p, 's) kernel kres" where
  "sleep k ch has_lk =
     (case myproc k of None \<Rightarrow> Panic ''sleep''
      | Some i \<Rightarrow> if \<not> has_lk then Panic ''sleep without lk''
                  else Ok (upd_proc k i (\<lambda>p. p\<lparr>chan := ch, pstate := SLEEPING\<rparr>)))"

definition sleep_end :: "('p, 's) kernel \<Rightarrow> nat \<Rightarrow> ('p, 's) kernel" where
  "sleep_end k i = upd_proc k i (\<lambda>p. p\<lparr>chan := None\<rparr>)"

definition yield :: "('p, 's) kernel \<Rightarrow> ('p, 's) kernel kres" where
  "yield k =
     (case myproc k of None \<Rightarrow> Fault | Some i \<Rightarrow> Ok (upd_proc k i (\<lambda>p. p\<lparr>pstate := RUNNABLE\<rparr>)))"

text \<open>The body of the scheduler's inner loop for slot \<open>i\<close>: before \<^verbatim>\<open>swtch\<close>, and after it.\<close>

definition scheduler_run :: "('p, 's) kernel \<Rightarrow> nat \<Rightarrow> ('p, 's) kernel kres" where
  "scheduler_run k i =
     (if pstate (proc_at k i) \<noteq> RUNNABLE then Ok k
      else kbind (switch_to (k\<lparr>cpu_proc := Some i\<rparr>) i) (\<lambda>k.
        Ok (upd_proc k i (\<lambda>p. p\<lparr>pstate := RUNNING\<rparr>))))"

definition scheduler_back :: "('p, 's) kernel \<Rightarrow> ('p, 's) kernel" where
  "scheduler_back k = k\<lparr>cpu_regs := switchkvm (cpu_regs k) (kpgdir k), cpu_proc := None\<rparr>"

section \<open>exit, wait, kill\<close>

definition proc_free :: "('p, 's) kernel \<Rightarrow> nat \<Rightarrow> ('p, 's) kernel kres" where
  "proc_free k i =
     (let k = k\<lparr>kmem := kfree (kmem k) (kstack (proc_at k i))\<rparr>;
          k = upd_proc k i (\<lambda>p. p\<lparr>kstack := 0\<rparr>)
      in kbind (freevm (kmem k) (pgdir (proc_at k i))) (\<lambda>st.
           let k = k\<lparr>kmem := kfree st (cwd_pathbuf (proc_at k i))\<rparr>
           in Ok (upd_proc k i (\<lambda>p. p\<lparr>pid := 0, parent := None, pname := (pname p)[0 := 0],
                killed := False, pstate := UNUSED\<rparr>))))"

text \<open>Closing the open files of slot \<open>cur\<close>, descriptor by descriptor.\<close>

primrec exit_close :: "('p, 's) kernel \<Rightarrow> nat \<Rightarrow> nat list \<Rightarrow> ('p, 's) kernel kres" where
  "exit_close k cur [] = Ok k"
| "exit_close k cur (j # js) =
     (let fd = files (proc_at k cur) ! j
      in if fd_used fd
         then if fd_dir fd
              then exit_close (upd_proc k cur (\<lambda>p. p\<lparr>files := (files p)[j := snd (vfs_dir_close fd)]\<rparr>)) cur js
              else kbind (vfs_fd_close (vfs_state k) fd) (\<lambda>(_, fd, v).
                     exit_close (upd_proc (k\<lparr>vfs_state := v\<rparr>) cur (\<lambda>p. p\<lparr>files := (files p)[j := fd]\<rparr>)) cur js)
         else exit_close k cur js)"

text \<open>Children of \<open>cur\<close> go to the initial process, slot by slot.\<close>

definition exit_reparent :: "nat \<Rightarrow> ('p, 's) kernel \<Rightarrow> nat \<Rightarrow> ('p, 's) kernel" where
  "exit_reparent cur k i =
     (if parent (proc_at k i) = Some cur
      then let k = upd_proc k i (\<lambda>p. p\<lparr>parent := initproc k\<rparr>)
           in if pstate (proc_at k i) = ZOMBIE then wakeup1 k (map_option ProcChan (initproc k)) else k
      else k)"

text \<open>\<open>exit\<close> up to the switch it never returns from.\<close>

definition exit :: "('p, 's) kernel \<Rightarrow> int \<Rightarrow> ('p, 's) kernel kres" where
  "exit k status =
     (case myproc k of None \<Rightarrow> Fault
      | Some cur \<Rightarrow>
          if initproc k = Some cur then Panic ''init exiting''
          else let k = upd_proc k cur (\<lambda>p. p\<lparr>exit_status := status\<rparr>)
               in kbind (exit_close k cur [0..<PROC_FILE_MAX]) (\<lambda>k.
                    let k = wakeup1 k (map_option ProcChan (parent (proc_at k cur)));
                        k = foldl (exit_reparent cur) k [0..<length (ptable k)]
                    in Ok (upd_proc k cur (\<lambda>p. p\<lparr>pstate := ZOMBIE\<rparr>))))"

text \<open>
  The number of pages of a message, \<^verbatim>\<open>PGROUNDUP(size) / 4096\<close> in \<^verbatim>\<open>int\<close> arithmetic, and the loop of
  \<open>wait\<close> that frees the messages of a process. It runs from the read index and compares before it
  wraps.
\<close>

definition msg_pages :: "int \<Rightarrow> u32" where
  "msg_pages sz = of_int (((sz + 4096 - 1) AND NOT (4096 - 1)) div 4096)"

partial_function (option) wait_free_msgs :: "kmem_state \<Rightarrow> Message list \<Rightarrow> int \<Rightarrow> int \<Rightarrow> kmem_state kres option" where
  "wait_free_msgs st queue msg bgn =
     (if msg = bgn then Some (Ok st)
      else let msg = (if msg = MESSAGE_MAX then 0 else msg)
           in case arr queue msg of
                Ok m \<Rightarrow> wait_free_msgs (pgfree st (msg_addr m) (msg_pages (msg_size m))) queue (msg + 1) bgn
              | Panic s \<Rightarrow> Some (Panic s)
              | Diverge \<Rightarrow> None
              | Fault \<Rightarrow> Some Fault)"

text \<open>
  One round of \<open>wait\<close>: the scan of the table. It returns the pid of a child that has exited, or
  -1, or goes to sleep (\<open>None\<close>) and starts over when woken.
\<close>

definition wait_reap :: "('p, 's) kernel \<Rightarrow> nat \<Rightarrow> (int option \<times> ('p, 's) kernel) kres" where
  "wait_reap k i =
     (let child = pid (proc_at k i)
      in kbind (proc_free k i) (\<lambda>k.
           let q = msgqueue (proc_at k i)
           in kbind (of_kloop (wait_free_msgs (kmem k) (mq_queue q) (mq_end q) (mq_begin q))) (\<lambda>st.
                Ok (Some child, k\<lparr>kmem := st\<rparr>))))"

definition wait :: "('p, 's) kernel \<Rightarrow> (int option \<times> ('p, 's) kernel) kres" where
  "wait k =
     (case myproc k of None \<Rightarrow> Fault
      | Some cur \<Rightarrow>
          (case first_proc (\<lambda>p. parent p = Some cur \<and> pstate p = ZOMBIE) (ptable k) 0 of
             Some i \<Rightarrow> wait_reap k i
           | None \<Rightarrow>
               if (\<forall>p \<in> set (ptable k). parent p \<noteq> Some cur) \<or> killed (proc_at k cur)
               then Ok (Some (-1), k)
               else kbind (sleep k (Some (ProcChan cur)) True) (\<lambda>k. Ok (None, k))))"

definition kill :: "('p, 's) kernel \<Rightarrow> int \<Rightarrow> int \<times> ('p, 's) kernel" where
  "kill k target =
     (case first_proc (\<lambda>p. pid p = target) (ptable k) 0 of
        Some i \<Rightarrow> (0, upd_proc k i (\<lambda>p. p\<lparr>killed := True, pstate := ZOMBIE\<rparr>))
      | None \<Rightarrow> (-1, k))"

definition proc_search_pid :: "('p, 's) kernel \<Rightarrow> int \<Rightarrow> nat option" where
  "proc_search_pid k target = first_proc (\<lambda>p. pstate p \<noteq> UNUSED \<and> pid p = target) (ptable k) 0"

text \<open>The lines \<open>procdump\<close> prints, without the call trace of sleeping processes.\<close>

fun state_name :: "procstate \<Rightarrow> string" where
  "state_name UNUSED = ''unused''"
| "state_name EMBRYO = ''embryo''"
| "state_name SLEEPING = ''sleep ''"
| "state_name RUNNABLE = ''runble''"
| "state_name RUNNING = ''run   ''"
| "state_name ZOMBIE = ''zombie''"

definition procdump :: "('p, 's) kernel \<Rightarrow> (int \<times> string \<times> u8 list) list" where
  "procdump k = map (\<lambda>p. (pid p, state_name (pstate p), pname p)) (filter (\<lambda>p. pstate p \<noteq> UNUSED) (ptable k))"

section \<open>Sleep locks (common/sleeplock.c)\<close>

record sleeplock =
  sl_locked :: bool
  sl_pid :: int

definition initsleeplock :: sleeplock where
  "initsleeplock = \<lparr>sl_locked = False, sl_pid = 0\<rparr>"

text \<open>
  One round of \<open>acquiresleep\<close>: it takes the lock (\<open>True\<close>) or goes to sleep on it and starts over
  when woken. \<open>l\<close> is the number of the lock.
\<close>

definition acquiresleep :: "('p, 's) kernel \<Rightarrow> nat \<Rightarrow> sleeplock \<Rightarrow> (bool \<times> sleeplock \<times> ('p, 's) kernel) kres" where
  "acquiresleep k l lk =
     (if sl_locked lk then kbind (sleep k (Some (LockChan l)) True) (\<lambda>k. Ok (False, lk, k))
      else case myproc k of None \<Rightarrow> Fault
           | Some cur \<Rightarrow> Ok (True, lk\<lparr>sl_locked := True, sl_pid := pid (proc_at k cur)\<rparr>, k))"

definition releasesleep :: "('p, 's) kernel \<Rightarrow> nat \<Rightarrow> sleeplock \<Rightarrow> sleeplock \<times> ('p, 's) kernel" where
  "releasesleep k l lk = (lk\<lparr>sl_locked := False, sl_pid := 0\<rparr>, wakeup k (Some (LockChan l)))"

definition holdingsleep :: "('p, 's) kernel \<Rightarrow> sleeplock \<Rightarrow> bool kres" where
  "holdingsleep k lk =
     (case myproc k of None \<Rightarrow> (if sl_locked lk then Fault else Ok False)
      | Some cur \<Rightarrow> Ok (sl_locked lk \<and> sl_pid lk = pid (proc_at k cur)))"

section \<open>The steps of the system\<close>

text \<open>
  Everything the table goes through: the calls processes make, wakeups from interrupt handlers,
  and the two halves of the scheduler's switch.
\<close>

inductive kstep :: "('p, 's) kernel \<Rightarrow> ('p, 's) kernel \<Rightarrow> bool" where
  k_fork: "fork k = Ok (r, k') \<Longrightarrow> kstep k k'"
| k_grow: "growproc k n = Ok (r, k') \<Longrightarrow> kstep k k'"
| k_exit: "exit k status = Ok k' \<Longrightarrow> kstep k k'"
| k_wait: "wait k = Ok (r, k') \<Longrightarrow> kstep k k'"
| k_kill: "kill k target = (r, k') \<Longrightarrow> kstep k k'"
| k_sleep: "sleep k ch b = Ok k' \<Longrightarrow> kstep k k'"
| k_sleep_end: "i < length (ptable k) \<Longrightarrow> kstep k (sleep_end k i)"
| k_yield: "yield k = Ok k' \<Longrightarrow> kstep k k'"
| k_wakeup: "kstep k (wakeup k ch)"
| k_run: "i < length (ptable k) \<Longrightarrow> scheduler_run k i = Ok k' \<Longrightarrow> kstep k k'"
| k_back: "kstep k (scheduler_back k)"

lemma upd_proc_simps [simp]:
  "ptable (upd_proc k i f) = (ptable k)[i := f (ptable k ! i)]"
  "nextpid (upd_proc k i f) = nextpid k" "initproc (upd_proc k i f) = initproc k"
  "kmem (upd_proc k i f) = kmem k" "cpu_proc (upd_proc k i f) = cpu_proc k"
  by (simp_all add: upd_proc_def)

lemma wakeup1_simps [simp]:
  "ptable (wakeup1 k ch) = map (wakeup_proc ch) (ptable k)"
  "nextpid (wakeup1 k ch) = nextpid k" "initproc (wakeup1 k ch) = initproc k"
  "cpu_proc (wakeup1 k ch) = cpu_proc k"
  by (simp_all add: wakeup1_def)

lemma wakeup_proc_simps [simp]:
  "pid (wakeup_proc ch p) = pid p" "parent (wakeup_proc ch p) = parent p"
  "pstate (wakeup_proc ch p) = ZOMBIE \<longleftrightarrow> pstate p = ZOMBIE"
  by (simp_all add: wakeup_proc_def)

text \<open>The first slot that satisfies a test.\<close>

lemma first_proc_Some:
  "first_proc P ps n = Some i \<Longrightarrow> n \<le> i \<and> i < n + length ps \<and> P (ps ! (i - n)) \<and> (\<forall>j < i - n. \<not> P (ps ! j))"
proof (induction ps arbitrary: n)
  case (Cons p ps)
  show ?case
  proof (cases "P p")
    case False
    then have "first_proc P ps (Suc n) = Some i" using Cons.prems by simp
    from Cons.IH [OF this] have ih: "Suc n \<le> i" "i < Suc n + length ps" "P (ps ! (i - Suc n))"
      "\<forall>j < i - Suc n. \<not> P (ps ! j)" by auto
    have "i - n = Suc (i - Suc n)" using ih(1) by simp
    then show ?thesis using ih False by (auto simp: nth_Cons split: nat.splits)
  qed (use Cons.prems in simp)
qed simp

lemma first_proc_None: "first_proc P ps n = None \<longleftrightarrow> (\<forall>p \<in> set ps. \<not> P p)"
  by (induction ps arbitrary: n) auto

lemma first_proc_at: "first_proc P ps 0 = Some i \<Longrightarrow> i < length ps \<and> P (ps ! i)"
  using first_proc_Some [of P ps 0 i] by simp

section \<open>What the operations do to the table\<close>

lemma allocproc_ok:
  assumes "allocproc k = Ok (r, k')"
  obtains "r = None" "k' = k"
  | i p where "i < length (ptable k)" "pstate (proc_at k i) = UNUSED" "nextpid k' = nextpid k + 1"
      "ptable k' = (ptable k)[i := p]" "pid p = nextpid k" "parent p = parent (proc_at k i)"
      "initproc k' = initproc k" "cpu_proc k' = cpu_proc k"
      "r = Some i \<and> pstate p = EMBRYO \<or> r = None \<and> pstate p = UNUSED"
proof (cases "first_proc (\<lambda>p. pstate p = UNUSED) (ptable k) 0")
  case None
  then show ?thesis using assms that(1) by (simp add: allocproc_def)
next
  case (Some i)
  note fp = first_proc_at [OF Some]
  have "nextpid k' = nextpid k + 1" "ptable k' = (ptable k)[i := proc_at k' i]"
    "pid (proc_at k' i) = nextpid k" "parent (proc_at k' i) = parent (proc_at k i)"
    "initproc k' = initproc k" "cpu_proc k' = cpu_proc k"
    "r = Some i \<and> pstate (proc_at k' i) = EMBRYO \<or> r = None \<and> pstate (proc_at k' i) = UNUSED"
    using assms Some fp
    by (auto simp: allocproc_def Let_def kbind_Ok_iff split: if_splits)
  then show ?thesis using fp that(2) [of i "proc_at k' i"] by simp
qed

lemma setupkvm_k_ok: "setupkvm_k k = Ok (pd, k') \<Longrightarrow> \<exists>st. k' = k\<lparr>kmem := st\<rparr>"
  by (auto simp: setupkvm_k_def kbind_Ok_iff)

lemma fork_copy_ok:
  "fork_copy k np old rs cont = Ok (r, k') \<Longrightarrow>
     (\<exists>st. cont (k\<lparr>kmem := st\<rparr>) = Ok (r, k')) \<or> (\<exists>st. fork_undo (k\<lparr>kmem := st\<rparr>) np = Ok (r, k'))"
proof (induction rs arbitrary: k)
  case Nil
  then have "cont (k\<lparr>kmem := kmem k\<rparr>) = Ok (r, k')" by simp
  then show ?case by blast
next
  case (Cons a rs)
  obtain x where x: "copyuvm (kmem k) (pgdir (proc_at k np)) old (fst a) (snd a) = Ok x"
    using Cons.prems by (auto simp: kbind_Ok_iff)
  obtain ret st where "x = (ret, st)" by (cases x)
  then have "(if ret = 0 then fork_undo (k\<lparr>kmem := st\<rparr>) np
      else fork_copy (k\<lparr>kmem := st\<rparr>) np old rs cont) = Ok (r, k')"
    using Cons.prems x by (simp add: Let_def)
  then show ?case using Cons.IH [of "k\<lparr>kmem := st\<rparr>"] by (auto split: if_splits)
qed

lemma fork_undo_ok:
  assumes "fork_undo k np = Ok (r, k')"
  obtains p where "ptable k' = (ptable k)[np := p]" "pid p = pid (proc_at k np)" "pstate p = UNUSED"
    "parent p = parent (proc_at k np)" "nextpid k' = nextpid k" "initproc k' = initproc k"
    "cpu_proc k' = cpu_proc k" "r = -1"
  using assms that [of "(proc_at k np)\<lparr>kstack := 0, pstate := UNUSED\<rparr>"]
  by (cases "np < length (ptable k)")
    (auto simp: fork_undo_def Let_def kbind_Ok_iff list_update_beyond)

lemma fork_finish_ok:
  assumes "fork_finish k cur np = Ok (r, k')" and "np < length (ptable k)"
  obtains p where "ptable k' = (ptable k)[np := p]" "pid p = pid (proc_at k np)" "pstate p = RUNNABLE"
    "parent p = Some cur" "psz p = psz (proc_at k cur)" "stack_size p = stack_size (proc_at k cur)"
    "heap_size p = heap_size (proc_at k cur)" "dyn_base p = dyn_base (proc_at k cur)"
    "ppty p = ppty (proc_at k cur)" "cwd_parts p = cwd_parts (proc_at k cur)"
    "pgdir p = pgdir (proc_at k np)"
    "nextpid k' = nextpid k" "initproc k' = initproc k" "cpu_proc k' = cpu_proc k" "r = pid (proc_at k np)"
proof -
  show ?thesis
    by (rule that [of "proc_at k' np"]) (use assms in \<open>auto simp: fork_finish_def Let_def kbind_Ok_iff\<close>)
qed

text \<open>
  \<open>fork\<close> as the table sees it: no slot was free, or one free slot now holds a process with the
  next pid, which is ready to run when the call succeeded.
\<close>

definition forked :: "('p, 's) kernel \<Rightarrow> ('p, 's) kernel \<Rightarrow> nat \<Rightarrow> nat \<Rightarrow> proc \<Rightarrow> int \<Rightarrow> bool" where
  "forked k k' cur np p r \<longleftrightarrow> np < length (ptable k) \<and> pstate (proc_at k np) = UNUSED
     \<and> ptable k' = (ptable k)[np := p] \<and> nextpid k' = nextpid k + 1 \<and> pid p = nextpid k
     \<and> (r = -1 \<and> pstate p \<in> {UNUSED, EMBRYO} \<and> parent p = parent (proc_at k np)
        \<or> r = nextpid k \<and> pstate p = RUNNABLE \<and> parent p = Some cur
          \<and> psz p = psz (proc_at k cur) \<and> stack_size p = stack_size (proc_at k cur)
          \<and> heap_size p = heap_size (proc_at k cur) \<and> ppty p = ppty (proc_at k cur)
          \<and> cwd_parts p = cwd_parts (proc_at k cur))"

lemma fork_rest_ok:
  assumes f: "fork_rest k cur np = Ok (r, k')" and np: "np < length (ptable k)"
  obtains p where "ptable k' = (ptable k)[np := p]" "nextpid k' = nextpid k"
    "initproc k' = initproc k" "cpu_proc k' = cpu_proc k" "pid p = pid (proc_at k np)"
    "r = -1 \<and> (pstate p = UNUSED \<or> pstate p = pstate (proc_at k np)) \<and> parent p = parent (proc_at k np)
     \<or> r = pid p \<and> pstate p = RUNNABLE \<and> parent p = Some cur \<and> (cur \<noteq> np \<longrightarrow>
          psz p = psz (proc_at k cur) \<and> stack_size p = stack_size (proc_at k cur)
          \<and> heap_size p = heap_size (proc_at k cur) \<and> ppty p = ppty (proc_at k cur)
          \<and> cwd_parts p = cwd_parts (proc_at k cur))"
proof -
  obtain pd k2 where s: "setupkvm_k k = Ok (pd, k2)" using f by (auto simp: fork_rest_def kbind_Ok_iff)
  obtain st2 where k2: "k2 = k\<lparr>kmem := st2\<rparr>" using setupkvm_k_ok [OF s] by blast
  define k3 where "k3 = upd_proc k2 np (\<lambda>p. p\<lparr>pgdir := pd\<rparr>)"
  have k3: "ptable k3 = (ptable k)[np := (proc_at k np)\<lparr>pgdir := pd\<rparr>]" "nextpid k3 = nextpid k"
    "cur \<noteq> np \<longrightarrow> proc_at k3 cur = proc_at k cur" "initproc k3 = initproc k" "cpu_proc k3 = cpu_proc k"
    using np by (simp_all add: k3_def k2)
  define rs where "rs = (let c = proc_at k3 cur in [(0, psz c), (PROC_DYNAMIC_BOTTOM, dyn_base c),
    (PROC_STACK_BOTTOM - stack_size c, PROC_STACK_BOTTOM),
    (PROC_HEAP_BOTTOM, PROC_HEAP_BOTTOM + heap_size c)])"
  have e: "(if pd = 0 then Ok (-1, k3)
      else fork_copy k3 np (pgdir (proc_at k3 cur)) rs (\<lambda>k. fork_finish k cur np)) = Ok (r, k')"
    using f s unfolding k3_def rs_def fork_rest_def Let_def by simp
  consider "r = -1" "k' = k3"
    | st where "fork_finish (k3\<lparr>kmem := st\<rparr>) cur np = Ok (r, k')"
    | st where "fork_undo (k3\<lparr>kmem := st\<rparr>) np = Ok (r, k')"
  proof (cases "pd = 0")
    case True
    show ?thesis by (rule that(1)) (use e True in simp_all)
  next
    case False
    then have "fork_copy k3 np (pgdir (proc_at k3 cur)) rs (\<lambda>k. fork_finish k cur np) = Ok (r, k')"
      using e by simp
    from fork_copy_ok [OF this] show ?thesis using that(2,3) by blast
  qed
  then show ?thesis
  proof cases
    case 1
    then show ?thesis using that [of "(proc_at k np)\<lparr>pgdir := pd\<rparr>"] k3 by simp
  next
    case (2 st)
    have "np < length (ptable (k3\<lparr>kmem := st\<rparr>))" using np k3(1) by simp
    from fork_finish_ok [OF 2 this] obtain p where "ptable k' = (ptable k3)[np := p]"
      "pid p = pid (proc_at k3 np)" "pstate p = RUNNABLE" "parent p = Some cur"
      "psz p = psz (proc_at k3 cur)" "stack_size p = stack_size (proc_at k3 cur)"
      "heap_size p = heap_size (proc_at k3 cur)" "ppty p = ppty (proc_at k3 cur)"
      "cwd_parts p = cwd_parts (proc_at k3 cur)" "nextpid k' = nextpid k3"
      "initproc k' = initproc k3" "cpu_proc k' = cpu_proc k3" "r = pid (proc_at k3 np)" by auto
    then show ?thesis using that [of p] np k3 by simp
  next
    case (3 st)
    from fork_undo_ok [OF 3] obtain p where "ptable k' = (ptable k3)[np := p]"
      "pid p = pid (proc_at k3 np)" "pstate p = UNUSED" "parent p = parent (proc_at k3 np)"
      "nextpid k' = nextpid k3" "initproc k' = initproc k3" "cpu_proc k' = cpu_proc k3" "r = -1" by auto
    then show ?thesis using that [of p] np k3 by simp
  qed
qed

lemma fork_ok:
  assumes f: "fork k = Ok (r, k')" and cur: "myproc k = Some cur" "pstate (proc_at k cur) \<noteq> UNUSED"
  obtains "r = -1" "k' = k" | np p where "forked k k' cur np p r" "initproc k' = initproc k" "cpu_proc k' = cpu_proc k"
proof -
  obtain r1 k1 where a: "allocproc k = Ok (r1, k1)" using f cur by (auto simp: fork_def kbind_Ok_iff)
  show ?thesis
  proof (cases rule: allocproc_ok [OF a])
    case 1
    then show ?thesis using f cur a that(1) by (simp add: fork_def)
  next
    case (2 np p)
    show ?thesis
    proof (cases r1)
      case None
      then have "r = -1" "k' = k1" using f cur a by (simp_all add: fork_def)
      then show ?thesis using that(2) [of np p] 2 None by (auto simp: forked_def)
    next
      case (Some np')
      have ne: "cur \<noteq> np" using 2(2) cur(2) by auto
      have "fork_rest k1 cur np = Ok (r, k')" using f cur a Some 2(9) by (simp add: fork_def)
      moreover have "np < length (ptable k1)" using 2(1,4) by simp
      ultimately obtain p' where "ptable k' = (ptable k1)[np := p']" "nextpid k' = nextpid k1"
        "initproc k' = initproc k1" "cpu_proc k' = cpu_proc k1" "pid p' = pid (proc_at k1 np)"
        "r = -1 \<and> (pstate p' = UNUSED \<or> pstate p' = pstate (proc_at k1 np)) \<and> parent p' = parent (proc_at k1 np)
         \<or> r = pid p' \<and> pstate p' = RUNNABLE \<and> parent p' = Some cur \<and> (cur \<noteq> np \<longrightarrow>
          psz p' = psz (proc_at k1 cur) \<and> stack_size p' = stack_size (proc_at k1 cur)
          \<and> heap_size p' = heap_size (proc_at k1 cur) \<and> ppty p' = ppty (proc_at k1 cur)
          \<and> cwd_parts p' = cwd_parts (proc_at k1 cur))"
        by (rule fork_rest_ok) (assumption | rule that)+
      then show ?thesis using that(2) [of np p'] 2 Some ne by (auto simp: forked_def)
    qed
  qed
qed

section \<open>Process identifiers\<close>

text \<open>
  The table keeps its 64 slots, pids lie below \<^verbatim>\<open>nextpid\<close>, and no two slots share a pid other than
  0, the pid of a slot that was never used or has been freed.
\<close>

definition pids_ok :: "('p, 's) kernel \<Rightarrow> bool" where
  "pids_ok k \<longleftrightarrow> length (ptable k) = NPROC \<and> 0 < nextpid k
     \<and> (\<forall>i < NPROC. 0 \<le> pid (proc_at k i) \<and> pid (proc_at k i) < nextpid k)
     \<and> (\<forall>i < NPROC. \<forall>j < NPROC. pid (proc_at k i) = pid (proc_at k j) \<longrightarrow> pid (proc_at k i) \<noteq> 0 \<longrightarrow> i = j)"

definition pids :: "('p, 's) kernel \<Rightarrow> int list" where
  "pids k = map pid (ptable k)"

lemma pids_okI:
  assumes "pids_ok k" and "pids k' = pids k" and "nextpid k' = nextpid k"
  shows "pids_ok k'"
proof -
  have l: "length (ptable k') = length (ptable k)" using assms(2) by (metis length_map pids_def)
  have "pid (proc_at k' i) = pid (proc_at k i)" if "i < length (ptable k)" for i
    using assms(2) that l by (metis nth_map pids_def)
  then show ?thesis using assms(1,3) l unfolding pids_ok_def by simp
qed

lemma pids_ok_new:
  assumes ok: "pids_ok k" and t: "ptable k' = (ptable k)[i := p]" "nextpid k' = nextpid k + 1" "pid p = nextpid k"
  shows "pids_ok k'"
proof -
  have "pid (proc_at k' j) = (if j = i then nextpid k else pid (proc_at k j))" if "j < NPROC" for j
    using that ok t by (auto simp: pids_ok_def nth_list_update)
  then show ?thesis using ok t unfolding pids_ok_def by (auto split: if_splits)
qed

lemma pids_ok_free:
  assumes ok: "pids_ok k" and t: "ptable k' = (ptable k)[i := p]" "nextpid k' = nextpid k" "pid p = 0"
  shows "pids_ok k'"
proof -
  have "pid (proc_at k' j) = (if j = i then 0 else pid (proc_at k j))" if "j < NPROC" for j
    using that ok t by (auto simp: pids_ok_def nth_list_update)
  then show ?thesis using ok t unfolding pids_ok_def by (auto split: if_splits)
qed

text \<open>Operations that leave pids alone.\<close>

lemma pids_upd:
  assumes "\<And>p. pid (f p) = pid p"
  shows "pids (upd_proc k i f) = pids k"
proof -
  have "(map pid (ptable k))[i := pid (ptable k ! i)] = map pid (ptable k)"
    by (cases "i < length (ptable k)") (metis list_update_id nth_map, simp add: list_update_beyond)
  then show ?thesis by (simp add: pids_def map_update assms)
qed

lemma pids_kmem [simp]:
  "pids (k\<lparr>kmem := st\<rparr>) = pids k" "pids (k\<lparr>cpu_proc := c\<rparr>) = pids k"
  "pids (k\<lparr>vfs_state := v\<rparr>) = pids k" "pids (k\<lparr>this_cpu := tc, cpu_regs := h\<rparr>) = pids k"
  "pids (k\<lparr>cpu_regs := h\<rparr>) = pids k" "pids (k\<lparr>this_cpu := tc\<rparr>) = pids k"
  by (simp_all add: pids_def)

lemma pids_wakeup1: "pids (wakeup1 k ch) = pids k"
  by (simp add: pids_def)

lemmas pids_simps = pids_upd pids_wakeup1

lemma pids_switch_to: "switch_to k i = Ok k' \<Longrightarrow> pids k' = pids k \<and> nextpid k' = nextpid k \<and> ptable k' = ptable k"
  by (auto simp: switch_to_def kbind_Ok_iff)

lemma pids_growproc: "growproc k n = Ok (r, k') \<Longrightarrow> pids k' = pids k \<and> nextpid k' = nextpid k"
  by (auto simp: growproc_def kbind_Ok_iff Let_def pids_simps dest!: pids_switch_to split: option.splits if_splits)

lemma nth_upd:
  "parent (xs[i := x] ! i) = (if i < length xs then parent x else parent (xs ! i))"
  "pstate (xs[i := x] ! i) = (if i < length xs then pstate x else pstate (xs ! i))"
  "exit_status (xs[i := x] ! i) = (if i < length xs then exit_status x else exit_status (xs ! i))"
  by (simp_all add: list_update_beyond)

lemma exit_close_frame:
  assumes "exit_close k cur js = Ok k'"
  shows "pids k' = pids k \<and> nextpid k' = nextpid k \<and> initproc k' = initproc k \<and> cpu_proc k' = cpu_proc k
    \<and> (\<forall>i. i \<noteq> cur \<longrightarrow> proc_at k' i = proc_at k i) \<and> parent (proc_at k' cur) = parent (proc_at k cur)
    \<and> pstate (proc_at k' cur) = pstate (proc_at k cur) \<and> length (ptable k') = length (ptable k)
    \<and> exit_status (proc_at k' cur) = exit_status (proc_at k cur)"
  using assms
proof (induction js arbitrary: k)
  case (Cons j js)
  from Cons.prems show ?case
    by (auto simp: Let_def kbind_Ok_iff pids_simps nth_upd dest!: Cons.IH split: if_splits)
qed simp

lemma pids_reparent:
  "pids (foldl (exit_reparent cur) k is) = pids k \<and> nextpid (foldl (exit_reparent cur) k is) = nextpid k"
  by (induction "is" arbitrary: k) (simp_all add: exit_reparent_def Let_def pids_simps)

lemma pids_exit: "exit k status = Ok k' \<Longrightarrow> pids k' = pids k \<and> nextpid k' = nextpid k"
  by (auto simp: exit_def kbind_Ok_iff Let_def pids_simps pids_reparent dest!: exit_close_frame
    split: option.splits if_splits)

lemma proc_free_ok:
  assumes "proc_free k i = Ok k'" and i: "i < length (ptable k)"
  obtains p where "ptable k' = (ptable k)[i := p]" "nextpid k' = nextpid k" "pid p = 0" "pstate p = UNUSED"
    "parent p = None" "msgqueue p = msgqueue (proc_at k i)" "initproc k' = initproc k" "cpu_proc k' = cpu_proc k"
proof -
  have "ptable k' = (ptable k)[i := proc_at k' i] \<and> nextpid k' = nextpid k \<and> pid (proc_at k' i) = 0
    \<and> pstate (proc_at k' i) = UNUSED \<and> parent (proc_at k' i) = None
    \<and> msgqueue (proc_at k' i) = msgqueue (proc_at k i) \<and> initproc k' = initproc k \<and> cpu_proc k' = cpu_proc k"
    using assms by (auto simp: proc_free_def Let_def kbind_Ok_iff)
  then show ?thesis using that [of "proc_at k' i"] by blast
qed

lemma wait_reap_ok:
  assumes "wait_reap k i = Ok (r, k')" and i: "i < length (ptable k)"
  obtains p where "r = Some (pid (proc_at k i))" "ptable k' = (ptable k)[i := p]" "nextpid k' = nextpid k"
    "pid p = 0" "pstate p = UNUSED" "parent p = None" "initproc k' = initproc k" "cpu_proc k' = cpu_proc k"
proof -
  obtain k1 st where k1: "proc_free k i = Ok k1" "k' = k1\<lparr>kmem := st\<rparr>" "r = Some (pid (proc_at k i))"
    using assms(1) unfolding wait_reap_def by (auto simp: Let_def kbind_Ok_iff)
  obtain p where "ptable k1 = (ptable k)[i := p]" "nextpid k1 = nextpid k" "pid p = 0" "pstate p = UNUSED"
    "parent p = None" "initproc k1 = initproc k" "cpu_proc k1 = cpu_proc k" by (rule proc_free_ok [OF k1(1) i])
  then show ?thesis using that [of p] k1 by simp
qed

text \<open>What a round of \<open>wait\<close> does: it reaps an exited child, gives up, or sleeps.\<close>

lemma wait_ok:
  assumes "wait k = Ok (r, k')"
  obtains (reap) cur i p where "myproc k = Some cur" "i < length (ptable k)" "parent (proc_at k i) = Some cur"
      "pstate (proc_at k i) = ZOMBIE" "r = Some (pid (proc_at k i))" "ptable k' = (ptable k)[i := p]"
      "nextpid k' = nextpid k" "pid p = 0" "pstate p = UNUSED" "parent p = None" "cpu_proc k' = cpu_proc k"
    | (none) "r = Some (-1)" "k' = k"
    | (sleeps) cur where "myproc k = Some cur" "r = None"
      "k' = upd_proc k cur (\<lambda>p. p\<lparr>chan := Some (ProcChan cur), pstate := SLEEPING\<rparr>)"
proof (cases "myproc k")
  case None
  then show ?thesis using assms by (simp add: wait_def)
next
  case (Some cur)
  let ?P = "\<lambda>p. parent p = Some cur \<and> pstate p = ZOMBIE"
  show ?thesis
  proof (cases "first_proc ?P (ptable k) 0")
    case None
    then show ?thesis using assms Some that(2,3)
      by (auto simp: wait_def sleep_def split: if_splits)
  next
    case (Some i)
    then have w: "wait_reap k i = Ok (r, k')" using assms \<open>myproc k = Some cur\<close> by (simp add: wait_def)
    have i: "i < length (ptable k)" "?P (proc_at k i)" using first_proc_at [OF Some] by auto
    obtain p where "r = Some (pid (proc_at k i))" "ptable k' = (ptable k)[i := p]" "nextpid k' = nextpid k"
      "pid p = 0" "pstate p = UNUSED" "parent p = None" "cpu_proc k' = cpu_proc k" by (rule wait_reap_ok [OF w i(1)])
    then show ?thesis using that(1) [of cur i p] i \<open>myproc k = Some cur\<close> by simp
  qed
qed

lemma pids_run: "scheduler_run k i = Ok k' \<Longrightarrow> pids k' = pids k \<and> nextpid k' = nextpid k"
  by (auto simp: scheduler_run_def kbind_Ok_iff pids_simps dest!: pids_switch_to split: if_splits)

lemma pids_kill: "kill k target = (r, k') \<Longrightarrow> pids k' = pids k \<and> nextpid k' = nextpid k"
  by (auto simp: kill_def pids_simps split: option.splits)

text \<open>Whatever \<open>fork\<close> returns, at most one slot has changed, one that was free.\<close>

lemma fork_slot:
  assumes f: "fork k = Ok (r, k')"
  obtains "k' = k" | i p where "i < length (ptable k)" "pstate (proc_at k i) = UNUSED" "ptable k' = (ptable k)[i := p]"
    "pid p = nextpid k" "nextpid k' = nextpid k + 1" "cpu_proc k' = cpu_proc k"
proof -
  obtain cur a k1 where c: "allocproc k = Ok (a, k1)" and
    rest: "(case a of None \<Rightarrow> Ok (-1, k1) | Some np \<Rightarrow> fork_rest k1 cur np) = Ok (r, k')"
    using f by (auto simp: fork_def kbind_Ok_iff split: option.splits)
  show ?thesis
  proof (cases rule: allocproc_ok [OF c])
    case 1
    then show ?thesis using that(1) rest by simp
  next
    case (2 i p)
    show ?thesis
    proof (cases a)
      case None
      then show ?thesis using rest that(2) [of i p] 2 by simp
    next
      case (Some np)
      then have np: "np = i" "i < length (ptable k1)" using 2 by auto
      have fr: "fork_rest k1 cur i = Ok (r, k')" using rest Some np by simp
      obtain q where q: "ptable k' = (ptable k1)[i := q]" "pid q = pid (proc_at k1 i)"
        "nextpid k' = nextpid k1" "cpu_proc k' = cpu_proc k1"
        by (rule fork_rest_ok [OF fr np(2)], rule that)
      then show ?thesis using that(2) [of i q] 2 by simp
    qed
  qed
qed

lemma pids_ok_step:
  assumes "kstep k k'" and ok: "pids_ok k"
  shows "pids_ok k'"
  using assms(1)
proof cases
  case (k_wait r)
  then show ?thesis
  proof (cases rule: wait_ok)
    case (reap cur i p)
    then show ?thesis using pids_ok_free [OF ok] by blast
  next
    case (sleeps cur)
    then show ?thesis by (auto intro!: pids_okI [OF ok] simp: pids_upd)
  qed (simp add: ok)
next
  case (k_fork r)
  then show ?thesis using ok pids_ok_new [OF ok] by (cases rule: fork_slot) blast+
qed (auto intro!: pids_okI [OF ok]
  simp: pids_growproc pids_exit pids_kill pids_run pids_simps sleep_def yield_def sleep_end_def wakeup_def
    scheduler_back_def split: option.splits if_splits)

lemma pids_ok_reach: "kstep\<^sup>*\<^sup>* k k' \<Longrightarrow> pids_ok k \<Longrightarrow> pids_ok k'"
  by (induction rule: rtranclp_induct) (blast intro: pids_ok_step)+

section \<open>exit and wait\<close>

text \<open>Passing the children of \<open>cur\<close> on, slot by slot.\<close>

definition reparented :: "nat \<Rightarrow> nat option \<Rightarrow> proc \<Rightarrow> proc" where
  "reparented cur ini p = (if parent p = Some cur then p\<lparr>parent := ini\<rparr> else p)"

definition same_but_woken :: "proc \<Rightarrow> proc \<Rightarrow> bool" where
  "same_but_woken p q \<longleftrightarrow> q = p \<or> pstate p = SLEEPING \<and> q = p\<lparr>pstate := RUNNABLE\<rparr>"

lemma same_but_woken_wakeup: "same_but_woken p q \<Longrightarrow> same_but_woken p (wakeup_proc ch q)"
  by (auto simp: same_but_woken_def wakeup_proc_def)

lemma same_but_wokenD:
  assumes "same_but_woken p q"
  shows "parent q = parent p" "pid q = pid p" "pstate q = ZOMBIE \<longleftrightarrow> pstate p = ZOMBIE" "chan q = chan p"
    "pstate p = RUNNABLE \<Longrightarrow> pstate q = RUNNABLE" "exit_status q = exit_status p"
  using assms by (auto simp: same_but_woken_def)

lemma reparent_loop:
  assumes "m \<le> length (ptable k)" and "k' = foldl (exit_reparent cur) k [0..<m]"
  shows "length (ptable k') = length (ptable k) \<and> initproc k' = initproc k \<and> cpu_proc k' = cpu_proc k
    \<and> (\<forall>i < length (ptable k). same_but_woken
         (if i < m then reparented cur (initproc k) (proc_at k i) else proc_at k i) (proc_at k' i))"
  using assms
proof (induction m arbitrary: k')
  case 0
  then show ?case by (simp add: same_but_woken_def)
next
  case (Suc m)
  define k1 where "k1 = foldl (exit_reparent cur) k [0..<m]"
  have ih: "length (ptable k1) = length (ptable k)" "initproc k1 = initproc k" "cpu_proc k1 = cpu_proc k"
    "\<And>i. i < length (ptable k) \<Longrightarrow> same_but_woken
       (if i < m then reparented cur (initproc k) (proc_at k i) else proc_at k i) (proc_at k1 i)"
    using Suc.IH [OF _ k1_def] Suc.prems(1) by auto
  have k': "k' = exit_reparent cur k1 m" using Suc.prems(2) by (simp add: k1_def)
  have m: "same_but_woken (proc_at k m) (proc_at k1 m)" using ih(4) [of m] Suc.prems(1) by simp
  define k2 where "k2 = k1\<lparr>ptable := (ptable k1)[m := reparented cur (initproc k) (proc_at k1 m)]\<rparr>"
  have m2: "same_but_woken (reparented cur (initproc k) (proc_at k m)) (reparented cur (initproc k) (proc_at k1 m))"
    using m by (auto simp: same_but_woken_def reparented_def)
  have k2: "same_but_woken (if i < Suc m then reparented cur (initproc k) (proc_at k i) else proc_at k i) (proc_at k2 i)"
    if "i < length (ptable k)" for i
    using ih(1) ih(4) [OF that] m2 that by (auto simp: k2_def nth_list_update less_Suc_eq split: if_splits)
  have "k' = k2 \<or> (\<exists>ch. k' = wakeup1 k2 ch)"
    by (auto simp: k' exit_reparent_def k2_def reparented_def upd_proc_def ih(2) Let_def)
  moreover have "length (ptable k2) = length (ptable k)" "initproc k2 = initproc k" "cpu_proc k2 = cpu_proc k"
    using ih(1-3) by (simp_all add: k2_def)
  moreover have "proc_at (wakeup1 k2 ch) i = wakeup_proc ch (proc_at k2 i)" if "i < length (ptable k)" for ch i
    using that ih(1) by (simp add: k2_def)
  ultimately show ?case using k2 same_but_woken_wakeup by (elim disjE exE) simp_all
qed

text \<open>The state after a successful \<open>exit\<close> of slot \<open>cur\<close>.\<close>

lemma exit_ok:
  assumes e: "exit k status = Ok k'" and cur: "myproc k = Some cur" "cur < length (ptable k)"
    and nself: "parent (proc_at k cur) \<noteq> Some cur"
  shows "initproc k \<noteq> Some cur" "length (ptable k') = length (ptable k)" "initproc k' = initproc k"
    "pstate (proc_at k' cur) = ZOMBIE" "parent (proc_at k' cur) = parent (proc_at k cur)"
    "exit_status (proc_at k' cur) = status"
    "i < length (ptable k) \<Longrightarrow> i \<noteq> cur \<Longrightarrow> same_but_woken (reparented cur (initproc k)
       (wakeup_proc (map_option ProcChan (parent (proc_at k cur))) (proc_at k i))) (proc_at k' i)"
proof -
  let ?k0 = "upd_proc k cur (\<lambda>p. p\<lparr>exit_status := status\<rparr>)"
  obtain k1 where ini: "initproc k \<noteq> Some cur" and k1: "exit_close ?k0 cur [0..<PROC_FILE_MAX] = Ok k1" and
    k': "k' = upd_proc (foldl (exit_reparent cur) (wakeup1 k1 (map_option ProcChan (parent (proc_at k1 cur))))
       [0..<length (ptable k1)]) cur (\<lambda>p. p\<lparr>pstate := ZOMBIE\<rparr>)"
    using e cur by (auto simp: exit_def kbind_Ok_iff Let_def split: if_splits)
  note c = exit_close_frame [OF k1]
  define k2 where "k2 = wakeup1 k1 (map_option ProcChan (parent (proc_at k1 cur)))"
  define k3 where "k3 = foldl (exit_reparent cur) k2 [0..<length (ptable k1)]"
  have par: "parent (proc_at k1 cur) = parent (proc_at k cur)" using c cur(2) by simp
  have len: "length (ptable k1) = length (ptable k)" "length (ptable k2) = length (ptable k)" using c by (simp_all add: k2_def)
  have l: "length (ptable k1) \<le> length (ptable k2)" by (simp add: k2_def)
  note r = reparent_loop [OF l k3_def]
  have k3: "k' = upd_proc k3 cur (\<lambda>p. p\<lparr>pstate := ZOMBIE\<rparr>)" by (simp add: k' k2_def k3_def)
  have at2: "proc_at k2 j = wakeup_proc (map_option ProcChan (parent (proc_at k cur))) (proc_at k1 j)"
    if "j < length (ptable k)" for j using that len par by (simp add: k2_def)
  have i2: "initproc k2 = initproc k" using c by (simp add: k2_def)
  show "initproc k \<noteq> Some cur" by (fact ini)
  show "length (ptable k') = length (ptable k)" "initproc k' = initproc k" "pstate (proc_at k' cur) = ZOMBIE"
    using r cur(2) by (simp_all add: k3 len i2)
  have w: "same_but_woken (reparented cur (initproc k) (proc_at k2 cur)) (proc_at k3 cur)"
    using r cur(2) len i2 by simp
  then have "parent (proc_at k3 cur) = parent (proc_at k cur)"
    using same_but_wokenD(1) at2 [OF cur(2)] par nself by (auto simp: reparented_def)
  then show "parent (proc_at k' cur) = parent (proc_at k cur)" using r cur(2) by (simp add: k3 len)
  have "exit_status (proc_at k1 cur) = status" using c cur(2) by simp
  then show "exit_status (proc_at k' cur) = status"
    using same_but_wokenD(6) [OF w] at2 [OF cur(2)] r cur(2) by (simp add: k3 len reparented_def wakeup_proc_def)
  show "same_but_woken (reparented cur (initproc k)
       (wakeup_proc (map_option ProcChan (parent (proc_at k cur))) (proc_at k i))) (proc_at k' i)"
    if "i < length (ptable k)" "i \<noteq> cur"
  proof -
    have "same_but_woken (reparented cur (initproc k) (proc_at k2 i)) (proc_at k3 i)"
      using r that len i2 by simp
    then show ?thesis using that c at2 [OF that(1)] by (simp add: k3)
  qed
qed

text \<open>The messages of an exited process.\<close>

lemma wait_free_msgs_loops:
  assumes "length queue = 64" "0 < m" "m \<le> 64"
  shows "wait_free_msgs st queue m 0 = None"
proof -
  have "\<not> (b = 0 \<and> length q = 64 \<and> 0 < m \<and> m \<le> 64)" if "wait_free_msgs s q m b = Some y" for s q m b y
    using that
  proof (induction rule: wait_free_msgs.raw_induct [rotated 1, consumes 1, case_names step])
    case (step f s q m b y)
    show ?case
    proof
      assume a: "b = 0 \<and> length q = 64 \<and> 0 < m \<and> m \<le> 64"
      let ?m = "if m = 64 then 0 else m"
      have "0 \<le> ?m" "?m < 64" using a by auto
      then obtain x where "arr q ?m = Ok x" using a by (simp only: arr_Ok)
      then have "f (pgfree s (msg_addr x) (msg_pages (msg_size x))) q (?m + 1) b = Some y"
        using step(2) a by (simp add: MESSAGE_MAX_def Let_def)
      from step(1) [OF this] show False using a by (auto split: if_splits)
    qed
  qed
  then show ?thesis using assms by (cases "wait_free_msgs st queue m 0") auto
qed

text \<open>Freeing an address space nothing is mapped in.\<close>

lemma deallocuvm_loop_empty:
  assumes "\<And>a. \<not> present (load64 (ram st) (p + 8 * PDPTX a))" and "n \<le> 0x80000"
  shows "deallocuvm_loop st p (of_nat (0x80000 - n) * 4096) 0x80000000 = Some (Ok st)"
  using assms(2)
proof (induction n)
  case 0
  then show ?case by (subst deallocuvm_loop.simps) simp
next
  case (Suc n)
  have "walkpgdir st p a False PTE_WU = Ok (0, st)" for a using assms(1) [of a] by (simp add: walkpgdir_def Let_def)
  moreover have "of_nat (0x80000 - Suc n) * 4096 + (4096 :: u32) = of_nat (0x80000 - n) * 4096"
    using Suc.prems by (simp add: Suc_diff_Suc algebra_simps flip: of_nat_Suc)
  ultimately show ?case using Suc by (subst deallocuvm_loop.simps) (auto simp: PGSIZE_def)
qed

lemma freevm_empty:
  assumes "p \<noteq> 0" and e: "\<And>i. i < 512 \<Longrightarrow> \<not> present (load64 (ram st) (p + 8 * of_nat i))"
  shows "freevm st p = Ok (kfree st p)"
proof -
  have "\<not> present (load64 (ram st) (p + 8 * PDPTX a))" for a
  proof -
    have "unat (PDPTX a) < 512" by (fact indexes_small)
    from e [OF this] show ?thesis by simp
  qed
  from deallocuvm_loop_empty [OF this, of "0x80000"] have "deallocuvm st p KERNBASE 0 = Ok (0, st)"
    by (simp add: deallocuvm_def KERNBASE_def PGROUNDUP_def PGSIZE_def)
  moreover have "foldl (freevm_entry p) st (map of_nat [0..<n]) = st" if "n \<le> 512" for n
    using that by (induction n) (simp_all add: freevm_entry_def Let_def e)
  ultimately show ?thesis using assms(1) by (simp add: freevm_def)
qed

section \<open>An example table\<close>

text \<open>
  The initial process, asleep in \<open>wait\<close>, and its child, running. Both own an empty address space,
  and 64 slots exist.
\<close>

definition no_proc :: proc where
  "no_proc = \<lparr>psz = 0, stack_size = 0, heap_size = 0, pgdir = 0, kstack = 0, pstate = UNUSED, pid = 0, parent = None,
     ptf = 0, pcontext = 0, chan = None, killed = False, pname = replicate 16 0, files = replicate 8 fd_zero,
     cwd_parts = 0, cwd_pathbuf = 0, dyn_base = 0,
     msgqueue = \<lparr>mq_begin = 0, mq_end = 0, mq_queue = replicate 64 \<lparr>msg_pid = 0, msg_size = 0, msg_addr = 0\<rparr>\<rparr>,
     ppty = 0, exit_status = 0\<rparr>"

definition init_waits :: proc where
  "init_waits = no_proc\<lparr>pid := 1, pstate := SLEEPING, chan := Some (ProcChan 0)\<rparr>"

definition child_runs :: proc where
  "child_runs = no_proc\<lparr>pid := 2, pstate := RUNNING, parent := Some 0, pgdir := 0x1000, kstack := 0x3000,
     cwd_pathbuf := 0x4000\<rparr>"

definition sample :: "proc list \<Rightarrow> nat option \<Rightarrow> (nat, nat) kernel" where
  "sample ps cur = \<lparr>ptable = ps @ replicate (64 - length ps) no_proc, nextpid = 3, initproc = Some 0,
     kmem = \<lparr>use_lock = True, freelist = 0, ram = \<lambda>_. 0\<rparr>, kpgdir = 0x1000, module_base = 0,
     vfs_state = \<lparr>vfs_mount_table = [], cwd = \<lparr>parts = 0, pathbuf = []\<rparr>, page = [], store = 0\<rparr>,
     sym_data = 0, sym_trapret = 0, sym_forkret = 0, cpu_proc = cur,
     this_cpu = \<lparr>apicid = 0, ncli = 0, intena = True, iflag = True\<rparr>,
     cpu_regs = \<lparr>gdt = [], ts_ss0 = 0, ts_esp0 = 0, ts_iomb = 0, tr = 0, cr3 = 0\<rparr>, ts_addr = 0\<rparr>"

lemmas sample_defs = sample_def no_proc_def init_waits_def child_runs_def

abbreviation two_procs :: "nat option \<Rightarrow> (nat, nat) kernel" where
  "two_procs \<equiv> sample [init_waits, child_runs]"

lemma sample_nth [simp]:
  "i < length ps \<Longrightarrow> proc_at (sample ps cur) i = ps ! i"
  "length ps \<le> i \<Longrightarrow> i < 64 \<Longrightarrow> proc_at (sample ps cur) i = no_proc"
  by (auto simp: sample_def nth_append)

lemma sample_simps [simp]:
  "length ps \<le> 64 \<Longrightarrow> length (ptable (sample ps cur)) = 64" "nextpid (sample ps cur) = 3"
  "initproc (sample ps cur) = Some 0" "cpu_proc (sample ps cur) = cur"
  by (simp_all add: sample_def)

lemma exit_close_unused:
  "(\<And>j. j \<in> set js \<Longrightarrow> \<not> fd_used (files (proc_at k cur) ! j)) \<Longrightarrow> exit_close k cur js = Ok k"
  by (induction js) (simp_all add: Let_def)

lemma two_procs_exit: "\<exists>k'. exit (two_procs (Some 1)) 7 = Ok k'"
proof -
  let ?k = "upd_proc (two_procs (Some 1)) 1 (\<lambda>p. p\<lparr>exit_status := 7\<rparr>)"
  have "exit_close ?k 1 [0..<PROC_FILE_MAX] = Ok ?k"
    by (rule exit_close_unused) (simp add: PROC_FILE_MAX_def child_runs_def no_proc_def fd_zero_def)
  then show ?thesis by (simp add: exit_def myproc_def)
qed

lemma two_procs_pids: "pids_ok (two_procs cur)"
proof -
  have "pid (proc_at (two_procs cur) i) = (if i = 0 then 1 else if i = 1 then 2 else 0)" if "i < 64" for i
    using that by (cases "i < 2") (auto simp: init_waits_def child_runs_def no_proc_def less_2_cases_iff)
  then show ?thesis by (simp add: pids_ok_def NPROC_def)
qed

section \<open>Properties\<close>





text \<open>
  C27. \<open>wait\<close> never returns when the exited child's message queue has wrapped. If the write index of
  the queue of the child that \<open>wait\<close> reaps is 0 while unread messages remain, the loop that frees
  the messages runs past the end of the buffer and around for ever, with the table lock held.
\<close>

theorem wait_diverges_on_wrapped_queue:
  assumes "myproc k = Some cur"
    and "first_proc (\<lambda>p. parent p = Some cur \<and> pstate p = ZOMBIE) (ptable k) 0 = Some i"
    and "proc_free k i = Ok k1"
    and "mq_begin (msgqueue (proc_at k i)) = 0" "0 < mq_end (msgqueue (proc_at k i))"
      "mq_end (msgqueue (proc_at k i)) < MESSAGE_MAX" "length (mq_queue (msgqueue (proc_at k i))) = nat MESSAGE_MAX"
  shows "wait k = Diverge"
proof -
  have i: "i < length (ptable k)" using first_proc_at [OF assms(2)] by simp
  have q: "msgqueue (proc_at k1 i) = msgqueue (proc_at k i)"
    by (rule proc_free_ok [OF assms(3) i]) (use i in simp)
  have "wait_free_msgs (kmem k1) (mq_queue (msgqueue (proc_at k i))) (mq_end (msgqueue (proc_at k i))) 0 = None"
    by (rule wait_free_msgs_loops) (use assms(5-7) in \<open>simp_all add: MESSAGE_MAX_def\<close>)
  then show ?thesis using assms(1-4) by (simp add: wait_def wait_reap_def q Let_def)
qed

lemma sample_proc_free:
  assumes "length ps \<le> 64" "i < length ps" "pgdir (ps ! i) = 0x1000" "kstack (ps ! i) = 0x3000"
  shows "\<exists>k'. proc_free (sample ps cur) i = Ok k'"
proof -
  define st where "st = kmem (sample ps cur)"
  have "kmem_runs st []" by (simp add: st_def sample_def kmem_runs_def wf_runs_def)
  then have ok: "kmem_ok st" "kmem_avail st = {}" by (auto simp: kmem_ok_def kmem_avail_runs)
  have z: "ram (kfree st 0x3000) x = 0" if "page_of x = page_of 0x1000" for x
    using kfree_page(3) [OF ok(1), of "0x3000" x] that ok(2) by (simp add: page_of_def st_def sample_def)
  have "\<not> present (load64 (ram (kfree st 0x3000)) (0x1000 + 8 * of_nat j))" if "j < 512" for j
    using load64_zero [of "0x1000" "of_nat j" "ram (kfree st 0x3000)"] z that
    by (simp add: present_def unat_of_nat)
  then have "freevm (kfree st 0x3000) 0x1000 = Ok (kfree (kfree st 0x3000) 0x1000)"
    by (intro freevm_empty) simp_all
  then show ?thesis using assms by (simp add: proc_free_def Let_def st_def)
qed

theorem wait_diverges_on_wrapped_queue_witness:
  "wait (sample [init_waits, child_runs\<lparr>pstate := ZOMBIE,
     msgqueue := \<lparr>mq_begin = 0, mq_end = 63, mq_queue = mq_queue (msgqueue no_proc)\<rparr>\<rparr>] (Some 0)) = Diverge"
    (is "wait ?k = _")
proof -
  obtain k1 where k1: "proc_free ?k 1 = Ok k1"
    using sample_proc_free [of "[init_waits, child_runs\<lparr>pstate := ZOMBIE,
      msgqueue := \<lparr>mq_begin = 0, mq_end = 63, mq_queue = mq_queue (msgqueue no_proc)\<rparr>\<rparr>]" 1 "Some 0"]
    by (auto simp: child_runs_def)
  show ?thesis
    by (rule wait_diverges_on_wrapped_queue [where cur = 0, OF _ _ k1])
      (simp_all add: myproc_def MESSAGE_MAX_def sample_defs)
qed

text \<open>
  C28. \<open>kill\<close> turns its target into a zombie on the spot, whatever it was doing, and does nothing
  else: a parent that sleeps in \<open>wait\<close> is not woken and the scheduler keeps passing over it, although
  the child it waits for is now there to be reaped.
\<close>

theorem kill_loses_wakeup:
  assumes "pids_ok k" "i < NPROC" "pid (proc_at k i) = target" "target \<noteq> 0"
    and "parent (proc_at k i) = Some par" "par \<noteq> i" "par < NPROC" "pstate (proc_at k par) = SLEEPING"
  shows "\<exists>k'. kill k target = (0, k') \<and> pstate (proc_at k' i) = ZOMBIE \<and> killed (proc_at k' i)
    \<and> parent (proc_at k' i) = Some par \<and> (\<forall>j. j \<noteq> i \<longrightarrow> proc_at k' j = proc_at k j)
    \<and> scheduler_run k' par = Ok k'"
proof -
  have "proc_at k i \<in> set (ptable k)" using assms(1,2) by (simp add: pids_ok_def)
  then obtain j where j: "first_proc (\<lambda>p. pid p = target) (ptable k) 0 = Some j"
    using assms(3) by (cases "first_proc (\<lambda>p. pid p = target) (ptable k) 0") (auto simp: first_proc_None)
  then have "j < NPROC" "pid (proc_at k j) = target" using first_proc_at [OF j] assms(1) by (auto simp: pids_ok_def)
  then have "j = i" using assms(1-4) unfolding pids_ok_def by metis
  moreover have "i < length (ptable k)" using assms(1,2) by (simp add: pids_ok_def)
  ultimately show ?thesis using j assms(5,6,8) by (simp add: kill_def scheduler_run_def)
qed

theorem kill_loses_wakeup_witness:
  "\<exists>k'. kill (two_procs None) 2 = (0, k') \<and> pstate (proc_at k' 1) = ZOMBIE \<and> pstate (proc_at k' 0) = SLEEPING
     \<and> scheduler_run k' 0 = Ok k'"
proof -
  obtain k' where "kill (two_procs None) 2 = (0, k')" "pstate (proc_at k' 1) = ZOMBIE"
    "\<forall>j. j \<noteq> 1 \<longrightarrow> proc_at k' j = proc_at (two_procs None) j" "scheduler_run k' 0 = Ok k'"
    using kill_loses_wakeup [OF two_procs_pids [of None], where i = 1 and target = 2 and par = 0]
    by (auto simp: NPROC_def child_runs_def init_waits_def)
  then show ?thesis by (simp add: init_waits_def)
qed

text \<open>A zombie nobody is the parent of, and that does not run.\<close>

definition lost_slot :: "('p, 's) kernel \<Rightarrow> nat \<Rightarrow> bool" where
  "lost_slot k i \<longleftrightarrow> i < length (ptable k) \<and> pstate (proc_at k i) = ZOMBIE \<and> parent (proc_at k i) = None
     \<and> cpu_proc k \<noteq> Some i"

lemma lost_slot_kept: "lost_slot k i \<Longrightarrow> length (ptable k') = length (ptable k) \<Longrightarrow>
    proc_at k' i = proc_at k i \<Longrightarrow> cpu_proc k' = cpu_proc k \<Longrightarrow> lost_slot k' i"
  by (simp add: lost_slot_def)

lemma lost_slot_upd:
  "lost_slot k i \<Longrightarrow> j \<noteq> i \<Longrightarrow> lost_slot (upd_proc k j f) i"
  "lost_slot k i \<Longrightarrow> (\<And>p. pstate p = ZOMBIE \<Longrightarrow> pstate (f p) = ZOMBIE \<and> parent (f p) = parent p) \<Longrightarrow> lost_slot (upd_proc k i f) i"
  by (auto simp: lost_slot_def)

lemma lost_slot_wakeup1: "lost_slot k i \<Longrightarrow> lost_slot (wakeup1 k ch) i"
  by (simp add: lost_slot_def)

lemma lost_slot_mem [simp]:
  "lost_slot (k\<lparr>kmem := st\<rparr>) i = lost_slot k i" "lost_slot (k\<lparr>this_cpu := c, cpu_regs := h\<rparr>) i = lost_slot k i"
  by (simp_all add: lost_slot_def)

lemma lost_slot_exit:
  assumes "lost_slot k i" "exit k status = Ok k'"
  shows "lost_slot k' i"
proof -
  obtain cur k1 where cur: "cpu_proc k = Some cur" and
    c: "exit_close (upd_proc k cur (\<lambda>p. p\<lparr>exit_status := status\<rparr>)) cur [0..<PROC_FILE_MAX] = Ok k1" and
    k': "k' = upd_proc (foldl (exit_reparent cur) (wakeup1 k1 (map_option ProcChan (parent (proc_at k1 cur))))
       [0..<length (ptable k1)]) cur (\<lambda>p. p\<lparr>pstate := ZOMBIE\<rparr>)"
    using assms(2) by (auto simp: exit_def kbind_Ok_iff Let_def myproc_def split: if_splits option.splits)
  have ne: "cur \<noteq> i" using assms(1) cur by (simp add: lost_slot_def)
  have l1: "lost_slot k1 i"
    by (rule lost_slot_kept [OF assms(1)]) (use exit_close_frame [OF c] ne in auto)
  have "lost_slot (foldl (exit_reparent cur) k js) i" if "lost_slot k i" for k js
    using that
  proof (induction js arbitrary: k)
    case (Cons j js)
    have "j \<noteq> i" if "parent (proc_at k j) = Some cur" using that Cons.prems by (auto simp: lost_slot_def)
    then have "lost_slot (exit_reparent cur k j) i" using Cons.prems
      by (auto simp: exit_reparent_def Let_def intro!: lost_slot_upd lost_slot_wakeup1)
    then show ?case using Cons.IH by simp
  qed simp
  from this [OF lost_slot_wakeup1 [OF l1]] show ?thesis unfolding k' by (intro lost_slot_upd(1)) (use ne in simp)+
qed

lemma lost_slot_other:
  "lost_slot k i \<Longrightarrow> pstate (proc_at k j) \<noteq> ZOMBIE \<or> parent (proc_at k j) \<noteq> None \<Longrightarrow>
     ptable k' = (ptable k)[j := p] \<Longrightarrow> cpu_proc k' = cpu_proc k \<Longrightarrow> lost_slot k' i"
  by (cases "i = j") (auto simp: lost_slot_def)

lemma lost_slot_step:
  assumes "kstep k k'" and l: "lost_slot k i"
  shows "lost_slot k' i"
  using assms(1)
proof cases
  case (k_fork r)
  then show ?thesis
  proof (cases rule: fork_slot)
    case (2 j p)
    show ?thesis by (rule lost_slot_other [OF l _ 2(3,6)]) (simp add: 2(2))
  qed (simp add: l)
next
  case (k_wait r)
  then show ?thesis
  proof (cases rule: wait_ok)
    case (reap cur j p)
    show ?thesis by (rule lost_slot_other [OF l _ reap(6,11)]) (simp add: reap(3))
  next
    case (sleeps cur)
    then show ?thesis using l by (auto intro!: lost_slot_upd(1) simp: myproc_def lost_slot_def)
  qed (simp add: l)
next
  case (k_exit s)
  then show ?thesis by (rule lost_slot_exit [OF l])
next
  case (k_run j)
  then show ?thesis using l
    by (cases "i = j") (auto simp: scheduler_run_def switch_to_def kbind_Ok_iff lost_slot_def split: if_splits)
next
  case (k_grow n r)
  then show ?thesis using l
    by (auto simp: growproc_def Let_def switch_to_def kbind_Ok_iff lost_slot_def myproc_def split: if_splits option.splits)
next
  case (k_kill t r)
  then show ?thesis using l
    by (auto simp: kill_def lost_slot_def nth_list_update split: option.splits dest!: first_proc_at)
qed (use l in \<open>auto simp: sleep_def yield_def sleep_end_def wakeup_def myproc_def nth_list_update
    scheduler_back_def lost_slot_def split: option.splits if_splits\<close>)

text \<open>
  \<open>kill(0)\<close> destroys a slot of the table. If the first slot without a pid is a free one, \<open>kill\<close>
  of pid 0 reports success and makes a zombie of it; no later step of the system, whatever it is,
  makes the slot free again, because no process is its parent.
\<close>

theorem kill_zero_leaks_slot:
  assumes "first_proc (\<lambda>p. pid p = 0) (ptable k) 0 = Some i" "parent (proc_at k i) = None" "cpu_proc k \<noteq> Some i"
    and "kstep\<^sup>*\<^sup>* (snd (kill k 0)) k'"
  shows "fst (kill k 0) = 0 \<and> pstate (proc_at k' i) = ZOMBIE"
proof -
  have "lost_slot (snd (kill k 0)) i"
    using assms(1-3) first_proc_at [OF assms(1)] by (simp add: kill_def lost_slot_def)
  with assms(4) have "lost_slot k' i" by (induction rule: rtranclp_induct) (blast intro: lost_slot_step)+
  then show ?thesis using assms(1) by (simp add: kill_def lost_slot_def)
qed

theorem kill_zero_leaks_slot_witness:
  "pstate (proc_at (two_procs None) 2) = UNUSED
     \<and> pstate (proc_at (scheduler_back (snd (kill (two_procs None) 0))) 2) = ZOMBIE"
proof -
  have f: "first_proc (\<lambda>p. pid p = 0) (ptable (two_procs None)) 0 = Some 2"
  proof -
    have "replicate 62 no_proc = no_proc # replicate 61 no_proc" by (simp flip: replicate_Suc)
    then show ?thesis by (simp add: sample_defs)
  qed
  have "kstep\<^sup>*\<^sup>* (snd (kill (two_procs None) 0)) (scheduler_back (snd (kill (two_procs None) 0)))"
    by (rule r_into_rtranclp) (rule k_back)
  from kill_zero_leaks_slot [OF f _ _ this] show ?thesis by (simp add: no_proc_def)
qed

end
