(* ===== verification/Kernel_Bytes.thy ===== *)
theory Kernel_Bytes
  imports Kernel_String
begin

text \<open>
  Blocks of kernel memory as byte lists: \<open>mbytes\<close> reads one, \<open>mwrite\<close> stores one. Components that
  hand a buffer to code modelled on byte lists go through these two.
\<close>

definition mbytes :: "mem \<Rightarrow> u32 \<Rightarrow> nat \<Rightarrow> u8 list" where
  "mbytes m p n = map (\<lambda>i. m (p + of_nat i)) [0..<n]"

definition mwrite :: "mem \<Rightarrow> u32 \<Rightarrow> u8 list \<Rightarrow> mem" where
  "mwrite m p bs = (\<lambda>a. if unat (a - p) < length bs then bs ! unat (a - p) else m a)"

text \<open>\<^verbatim>\<open>strncmp\<close> of a string in memory with one given as bytes.\<close>

definition strncmp_mem :: "mem \<Rightarrow> u32 \<Rightarrow> u8 list \<Rightarrow> nat \<Rightarrow> int" where
  "strncmp_mem m p s n = strncmp_str (mbytes m p n) s n"

lemma length_mbytes [simp]: "length (mbytes m p n) = n"
  by (simp add: mbytes_def)

lemma mbytes_add: "mbytes m p (k + n) = mbytes m p k @ mbytes m (p + of_nat k) n"
  by (induction n) (simp_all add: mbytes_def add.assoc)

lemma mbytes_take_drop: "k + n \<le> l \<Longrightarrow> take n (drop k (mbytes m p l)) = mbytes m (p + of_nat k) n"
proof -
  assume "k + n \<le> l"
  then obtain r where "l = k + (n + r)" by (metis le_iff_add add.assoc)
  then show ?thesis by (simp add: mbytes_add)
qed

lemma mbytes_mwrite [simp]:
  assumes "length bs \<le> 2 ^ 32"
  shows "mbytes (mwrite m p bs) p (length bs) = bs"
proof (rule nth_equalityI)
  fix i assume i: "i < length (mbytes (mwrite m p bs) p (length bs))"
  then have "unat (of_nat i :: u32) = i" using assms by (intro unat_of_nat_u32) simp
  then show "mbytes (mwrite m p bs) p (length bs) ! i = bs ! i" using i by (simp add: mbytes_def mwrite_def)
qed simp

lemma mwrite_mbytes: "mwrite m p (mbytes m p n) = m"
  by (auto simp: mbytes_def mwrite_def)

lemma mwrite_other: "length bs \<le> unat (a - p) \<Longrightarrow> mwrite m p bs a = m a"
  by (simp add: mwrite_def)

lemma mbytes_copied: "n \<le> 2 ^ 32 \<Longrightarrow> mbytes (copied m d s n) d n = mbytes m s n"
  by (auto simp: mbytes_def copied_def unat_of_nat)

text \<open>The C string in memory.\<close>

lemma cname_mbytes:
  assumes "mbytes m p (Suc (length s)) = s @ [0]" "0 \<notin> set s"
  shows "cname n (mbytes m p n) = take n s"
proof (cases "n \<le> length s")
  case True
  then have "mbytes m p n = take n s"
    using mbytes_take_drop [of 0 n "Suc (length s)" m p] assms(1) by simp
  then show ?thesis using assms(2) by (auto simp: cname_def takeWhile_eq_all_conv dest: in_set_takeD)
next
  case False
  then obtain k where "n = Suc (length s) + k" by (metis le_iff_add not_less_eq_eq)
  then have "mbytes m p n = s @ 0 # mbytes m (p + of_nat (Suc (length s))) k"
    using assms(1) mbytes_add [of m p "Suc (length s)" k] by simp
  moreover have "takeWhile (\<lambda>b. b \<noteq> 0) (s @ 0 # xs) = s" for xs using assms(2) by (subst takeWhile_append2) auto
  moreover have "take n (mbytes m p n) = mbytes m p n" by simp
  ultimately show ?thesis using False by (simp only: cname_def) simp
qed

end
