(* ===== verification/Exec.thy ===== *)
theory Exec
  imports Proc Kernel_Bytes Fat32_Names
begin

text \<open>
  Loading programs: \<open>loaduvm\<close> of \<^verbatim>\<open>kernel/arch/x86/vm.c\<close>, the ELF loader \<^verbatim>\<open>proc/exec/elf.c\<close>, \<open>exec\<close>, dynamic
  libraries (\<^verbatim>\<open>dynamic.c\<close>) and kernel modules (\<^verbatim>\<open>hal/module.c\<close>).

  Structures read from a file are parsed from their bytes. Strings that live in the memory of the
  calling process are given by their bytes, and so \<open>copyout\<close> has a variant whose source is a byte
  list. A call of the code of a loaded module is outside the model.
\<close>

section \<open>loaduvm\<close>

text \<open>The file system as process \<open>cur\<close> sees it: relative names start at its working directory.\<close>

definition vfs_here :: "('p, 's) kernel \<Rightarrow> nat \<Rightarrow> ('p, 's) vfs" where
  "vfs_here k cur = (vfs_state k)\<lparr>cwd := \<lparr>parts = cwd_parts (proc_at k cur),
     pathbuf = mbytes (ram (kmem k)) (cwd_pathbuf (proc_at k cur)) 4096\<rparr>\<rparr>"

text \<open>Reading from a descriptor into kernel memory at \<open>p\<close>.\<close>

definition read_into :: "('p, 's) vfs \<Rightarrow> FileDesc \<Rightarrow> kmem_state \<Rightarrow> u32 \<Rightarrow> u32
    \<Rightarrow> (int \<times> FileDesc \<times> ('p, 's) vfs \<times> kmem_state) kres" where
  "read_into v fd st p n =
     kbind (vfs_fd_read v fd (mbytes (ram st) p (unat n)) n) (\<lambda>(r, bs, fd, v).
       Ok (r, fd, v, st\<lparr>ram := mwrite (ram st) p bs\<rparr>))"

partial_function (option) loaduvm_loop :: "('p, 's) vfs \<Rightarrow> FileDesc \<Rightarrow> kmem_state \<Rightarrow> u32 \<Rightarrow> u32 \<Rightarrow> u32 \<Rightarrow> u32 \<Rightarrow> u32
    \<Rightarrow> (int \<times> FileDesc \<times> ('p, 's) vfs \<times> kmem_state) kres option" where
  "loaduvm_loop v fd st pgd addr offset sz i =
     (if i < sz
      then case walkpgdir st pgd (addr + i) False PTE_WU of
          Ok (pte, st) \<Rightarrow>
            if pte = 0 then Some (Panic ''loaduvm: address should exist'')
            else let pa = (ucast (PTE_ADDR (load64 (ram st) pte)) :: u32);
                     n = (if sz - i < PGSIZE then sz - i else PGSIZE)
                 in (case vfs_fd_seek fd (offset + i) SEEK_SET of (r, fd) \<Rightarrow>
                      if r < 0 then Some (Ok (-1, fd, v, st))
                      else (case read_into v fd st (P2V (ucast pa)) n of
                          Ok (r, fd, v, st) \<Rightarrow>
                            if r < 0 then Some (Ok (-1, fd, v, st))
                            else loaduvm_loop v fd st pgd addr offset sz (i + PGSIZE)
                        | Panic s \<Rightarrow> Some (Panic s)
                        | Diverge \<Rightarrow> None
                        | Fault \<Rightarrow> Some Fault))
        | Panic s \<Rightarrow> Some (Panic s)
        | Diverge \<Rightarrow> None
        | Fault \<Rightarrow> Some Fault
      else Some (Ok (0, fd, v, st)))"

definition loaduvm :: "('p, 's) vfs \<Rightarrow> FileDesc \<Rightarrow> kmem_state \<Rightarrow> u32 \<Rightarrow> u32 \<Rightarrow> u32 \<Rightarrow> u32
    \<Rightarrow> (int \<times> FileDesc \<times> ('p, 's) vfs \<times> kmem_state) kres" where
  "loaduvm v fd st pgd addr offset sz =
     (if addr mod PGSIZE \<noteq> 0 then Panic ''loaduvm: addr must be page aligned''
      else of_kloop (loaduvm_loop v fd st pgd addr offset sz 0))"

section \<open>ELF files (elf.h, elf.c)\<close>

definition ELF_MAGIC :: u32 where "ELF_MAGIC = 0x464C457F"
definition ELF_PROG_LOAD :: u32 where "ELF_PROG_LOAD = 1"
definition ELF_PROG_DYNAMIC :: u32 where "ELF_PROG_DYNAMIC = 2"
definition ELF_PROG_INTERP :: u32 where "ELF_PROG_INTERP = 3"
definition ELF_PROG_FLAG_WRITE :: u32 where "ELF_PROG_FLAG_WRITE = 2"

text \<open>The fields of the two headers that are used; the headers have 52 and 32 bytes.\<close>

record elfhdr =
  elf_magic :: u32
  elf_entry :: u32
  elf_phoff :: u32
  elf_phnum :: u16

definition elfhdr_of :: "u8 list \<Rightarrow> elfhdr" where
  "elfhdr_of bs = \<lparr>elf_magic = le32 bs 0, elf_entry = le32 bs 24, elf_phoff = le32 bs 28, elf_phnum = le16 bs 44\<rparr>"

record proghdr =
  ph_type :: u32
  ph_off :: u32
  ph_vaddr :: u32
  ph_filesz :: u32
  ph_memsz :: u32
  ph_flags :: u32

definition proghdr_of :: "u8 list \<Rightarrow> proghdr" where
  "proghdr_of bs = \<lparr>ph_type = le32 bs 0, ph_off = le32 bs 4, ph_vaddr = le32 bs 8, ph_filesz = le32 bs 16,
     ph_memsz = le32 bs 20, ph_flags = le32 bs 24\<rparr>"

text \<open>
  The variables of the loaders: descriptor, file system, memory, size, and what they store through
  their pointers, \<open>None\<close> as long as nothing is stored.
\<close>

record ('p, 's) loader =
  l_fd :: FileDesc
  l_vfs :: "('p, 's) vfs"
  l_kmem :: kmem_state
  l_sz :: u32
  l_entry :: "u32 option"
  l_dynamic :: "u32 option"
  l_interp :: u32

text \<open>Reading a header of \<open>n\<close> bytes: whether all of it was there, and its bytes.\<close>

definition read_header :: "('p, 's) loader \<Rightarrow> nat \<Rightarrow> (bool \<times> u8 list \<times> ('p, 's) loader) kres" where
  "read_header l n =
     kbind (vfs_fd_read (l_vfs l) (l_fd l) (replicate n 0) (of_nat n)) (\<lambda>(r, bs, fd, v).
       Ok (r = int n, bs, l\<lparr>l_fd := fd, l_vfs := v\<rparr>))"

definition loader_close :: "('p, 's) loader \<Rightarrow> ('p, 's) loader kres" where
  "loader_close l = kbind (vfs_fd_close (l_vfs l) (l_fd l)) (\<lambda>(_, fd, v). Ok (l\<lparr>l_fd := fd, l_vfs := v\<rparr>))"

text \<open>One loadable segment: room for it, and its contents; \<open>False\<close> is the error fname.\<close>

definition load_segment :: "u32 \<Rightarrow> u32 \<Rightarrow> u32 \<Rightarrow> proghdr \<Rightarrow> ('p, 's) loader \<Rightarrow> (bool \<times> ('p, 's) loader) kres" where
  "load_segment pgd base perm ph l =
     kbind (allocuvm (l_kmem l) pgd (base + ph_vaddr ph - ph_vaddr ph mod PGSIZE)
              (base + ph_vaddr ph + ph_memsz ph) perm) (\<lambda>(r, st).
       let l = l\<lparr>l_kmem := st\<rparr>
       in if r = 0 then Ok (False, l)
          else let l = (if ph_vaddr ph + ph_memsz ph > l_sz l then l\<lparr>l_sz := ph_vaddr ph + ph_memsz ph\<rparr> else l)
               in kbind (loaduvm (l_vfs l) (l_fd l) (l_kmem l) pgd (base + ph_vaddr ph - ph_vaddr ph mod PGSIZE)
                           (ph_off ph - ph_vaddr ph mod PGSIZE) (ph_vaddr ph mod PGSIZE + ph_filesz ph))
                    (\<lambda>(r, fd, v, st). Ok (\<not> r < 0, l\<lparr>l_fd := fd, l_vfs := v, l_kmem := st\<rparr>)))"

definition proc_elf_header :: "u32 \<Rightarrow> u32 \<Rightarrow> proghdr \<Rightarrow> ('p, 's) loader \<Rightarrow> (bool \<times> ('p, 's) loader) kres" where
  "proc_elf_header pgd base ph l =
     (if ph_type ph = ELF_PROG_DYNAMIC then Ok (True, l\<lparr>l_dynamic := Some (base + ph_vaddr ph)\<rparr>)
      else if ph_type ph = ELF_PROG_INTERP then Ok (True, l\<lparr>l_interp := base + ph_vaddr ph\<rparr>)
      else if ph_type ph \<noteq> ELF_PROG_LOAD then Ok (True, l)
      else load_segment pgd base (if ph_flags ph AND ELF_PROG_FLAG_WRITE \<noteq> 0 then PTE_W OR PTE_U else PTE_U) ph l)"

definition module_elf_header :: "u32 \<Rightarrow> u32 \<Rightarrow> proghdr \<Rightarrow> ('p, 's) loader \<Rightarrow> (bool \<times> ('p, 's) loader) kres" where
  "module_elf_header pgd base ph l =
     (if ph_type ph \<noteq> ELF_PROG_LOAD then Ok (True, l)
      else load_segment pgd base (if ph_flags ph AND ELF_PROG_FLAG_WRITE \<noteq> 0 then PTE_W else 0) ph l)"

text \<open>The loop over the program headers, which the two loaders share.\<close>

partial_function (option) elf_loop ::
  "(proghdr \<Rightarrow> ('p, 's) loader \<Rightarrow> (bool \<times> ('p, 's) loader) kres) \<Rightarrow> ('p, 's) loader \<Rightarrow> u32 \<Rightarrow> u32
    \<Rightarrow> (bool \<times> ('p, 's) loader) kres option" where
  "elf_loop f l off lim =
     (if off < lim
      then case vfs_fd_seek (l_fd l) off SEEK_SET of (r, fd) \<Rightarrow>
        let l = l\<lparr>l_fd := fd\<rparr>
        in if r < 0 then Some (Ok (False, l))
           else (case read_header l 32 of
               Ok (full, bs, l) \<Rightarrow>
                 if \<not> full then Some (Ok (False, l))
                 else (case f (proghdr_of bs) l of
                     Ok (good, l) \<Rightarrow> if good then elf_loop f l (off + 32) lim else Some (Ok (False, l))
                   | Panic s \<Rightarrow> Some (Panic s)
                   | Diverge \<Rightarrow> None
                   | Fault \<Rightarrow> Some Fault)
             | Panic s \<Rightarrow> Some (Panic s)
             | Diverge \<Rightarrow> None
             | Fault \<Rightarrow> Some Fault)
      else Some (Ok (True, l)))"

text \<open>
  The frame of the two loaders: open, check the header, run the loop, close on every fname. The
  result is the size, or -1.
\<close>

definition elf_load :: "(proghdr \<Rightarrow> ('p, 's) loader \<Rightarrow> (bool \<times> ('p, 's) loader) kres) \<Rightarrow> ('p, 's) loader \<Rightarrow> u8 list
    \<Rightarrow> (int \<times> ('p, 's) loader) kres" where
  "elf_load f l name =
     kbind (vfs_fd_open (l_vfs l) name O_READ) (\<lambda>(r, fd, v).
       let l = l\<lparr>l_fd := fd, l_vfs := v\<rparr>
       in if r < 0 then Ok (-1, l)
          else kbind (read_header l 52) (\<lambda>(full, bs, l).
            let elf = elfhdr_of bs
            in if \<not> full \<or> elf_magic elf \<noteq> ELF_MAGIC then kbind (loader_close l) (\<lambda>l. Ok (-1, l))
               else let l = l\<lparr>l_entry := Some (elf_entry elf), l_sz := 0\<rparr>
                    in kbind (of_kloop (elf_loop f l (elf_phoff elf) (elf_phoff elf + ucast (elf_phnum elf) * 32)))
                         (\<lambda>(good, l). kbind (loader_close l) (\<lambda>l. Ok (if good then sint (l_sz l) else -1, l)))))"

definition proc_elf_load :: "u32 \<Rightarrow> u32 \<Rightarrow> ('p, 's) loader \<Rightarrow> u8 list \<Rightarrow> (int \<times> ('p, 's) loader) kres" where
  "proc_elf_load pgd base l name = elf_load (proc_elf_header pgd base) l name"

definition module_elf_load :: "u32 \<Rightarrow> u32 \<Rightarrow> ('p, 's) loader \<Rightarrow> u8 list \<Rightarrow> (int \<times> ('p, 's) loader) kres" where
  "module_elf_load pgd base l name = elf_load (module_elf_header pgd base) l name"

text \<open>A loader for process \<open>cur\<close> and the kernel after it is done.\<close>

definition loader_of :: "('p, 's) kernel \<Rightarrow> nat \<Rightarrow> ('p, 's) loader" where
  "loader_of k cur = \<lparr>l_fd = fd_zero, l_vfs = vfs_here k cur, l_kmem = kmem k, l_sz = 0, l_entry = None, l_dynamic = None,
     l_interp = 0\<rparr>"

definition loaded :: "('p, 's) kernel \<Rightarrow> ('p, 's) loader \<Rightarrow> ('p, 's) kernel" where
  "loaded k l = k\<lparr>kmem := l_kmem l, vfs_state := (l_vfs l)\<lparr>cwd := cwd (vfs_state k)\<rparr>\<rparr>"

section \<open>exec (exec.c)\<close>

definition MAXARG :: nat where "MAXARG = 32"

text \<open>\<open>copyout\<close> from bytes outside kernel memory.\<close>

partial_function (option) copyout_bytes_loop :: "kmem_state \<Rightarrow> u32 \<Rightarrow> u32 \<Rightarrow> u8 list \<Rightarrow> (int \<times> kmem_state) kres option" where
  "copyout_bytes_loop st pgd va buf =
     (if buf \<noteq> []
      then let va0 = PGROUNDDOWN va
           in (case uva2ka st pgd va0 of
              Ok pa0 \<Rightarrow>
                if pa0 = 0 then Some (Ok (-1, st))
                else let n = min (unat (PGSIZE - (va - va0))) (length buf);
                         st = st\<lparr>ram := mwrite (ram st) (pa0 + (va - va0)) (take n buf)\<rparr>
                     in copyout_bytes_loop st pgd (va0 + PGSIZE) (drop n buf)
            | Panic s \<Rightarrow> Some (Panic s)
            | Diverge \<Rightarrow> None
            | Fault \<Rightarrow> Some Fault)
      else Some (Ok (0, st)))"

definition copyout_bytes :: "kmem_state \<Rightarrow> u32 \<Rightarrow> u32 \<Rightarrow> u8 list \<Rightarrow> (int \<times> kmem_state) kres" where
  "copyout_bytes st pgd va buf = of_kloop (copyout_bytes_loop st pgd va buf)"

definition ustack_set :: "u32 list \<Rightarrow> nat \<Rightarrow> u32 \<Rightarrow> u32 list kres" where
  "ustack_set us i v = (if i < length us then Ok (us[i := v]) else Fault)"

text \<open>
  The loop that pushes the arguments. \<open>argv\<close> holds the strings, \<open>None\<close> is the null pointer that ends
  it; running past the array is \<open>Fault\<close>. Result: the number of arguments, the stack pointer, the
  words of \<^verbatim>\<open>ustack\<close> and the memory, or \<open>None\<close> for \<^verbatim>\<open>goto bad\<close>.
\<close>

fun exec_args :: "kmem_state \<Rightarrow> u32 \<Rightarrow> u8 list option list \<Rightarrow> nat \<Rightarrow> u32 \<Rightarrow> u32 list
    \<Rightarrow> ((nat \<times> u32 \<times> u32 list) option \<times> kmem_state) kres" where
  "exec_args st pgd [] argc sp us = Fault"
| "exec_args st pgd (None # argv) argc sp us = kbind (ustack_set us (5 + argc) 0) (\<lambda>us. Ok (Some (argc, sp, us), st))"
| "exec_args st pgd (Some s # argv) argc sp us =
     (if argc \<ge> MAXARG then Ok (None, st)
      else let sp = (sp - (of_nat (length s) + 1)) AND NOT 3
           in kbind (copyout_bytes st pgd sp (s @ [0])) (\<lambda>(r, st).
                if r < 0 then Ok (None, st)
                else kbind (ustack_set us (5 + argc) sp) (\<lambda>us. exec_args st pgd argv (Suc argc) sp us)))"

text \<open>The name after the last slash.\<close>

fun path_last :: "u8 list \<Rightarrow> u8 list \<Rightarrow> u8 list" where
  "path_last [] lst = lst"
| "path_last (c # s) lst = (if c = 0 then lst else path_last s (if c = 0x2f then s else lst))"

definition exec_bad :: "('p, 's) kernel \<Rightarrow> u32 \<Rightarrow> (int \<times> ('p, 's) kernel) kres" where
  "exec_bad k pgd =
     (if pgd \<noteq> 0 then kbind (freevm (kmem k) pgd) (\<lambda>st. Ok (-1, k\<lparr>kmem := st\<rparr>)) else Ok (-1, k))"

definition exec_commit :: "('p, 's) kernel \<Rightarrow> nat \<Rightarrow> u32 \<Rightarrow> u32 \<Rightarrow> u32 \<Rightarrow> u32 \<Rightarrow> u8 list \<Rightarrow> (int \<times> ('p, 's) kernel) kres" where
  "exec_commit k cur pgd sz entry sp fname =
     (let oldpgdir = pgdir (proc_at k cur);
          k = upd_proc k cur (\<lambda>p. p\<lparr>pname := safestrcpy_buf (pname p) (path_last fname fname) 16, pgdir := pgd, psz := sz,
                stack_size := PGSIZE, heap_size := 0, dyn_base := PROC_DYNAMIC_BOTTOM\<rparr>);
          m = store32 (ram (kmem k)) (ptf (proc_at k cur) + 56) entry;
          m = store32 m (ptf (proc_at k cur) + 68) sp;
          k = k\<lparr>kmem := (kmem k)\<lparr>ram := m\<rparr>\<rparr>
      in kbind (switch_to k cur) (\<lambda>k.
           kbind (freevm (kmem k) oldpgdir) (\<lambda>st. Ok (0, k\<lparr>kmem := st\<rparr>))))"

text \<open>\<open>exec\<close> once the program is loaded: the stack, the arguments, the final frame.\<close>

definition exec_stack :: "('p, 's) kernel \<Rightarrow> nat \<Rightarrow> u32 \<Rightarrow> int \<Rightarrow> u32 \<Rightarrow> u32 \<Rightarrow> u8 list \<Rightarrow> u8 list option list
    \<Rightarrow> (int \<times> ('p, 's) kernel) kres" where
  "exec_stack k cur pgd sz entry interp fname argv =
     kbind (allocuvm (kmem k) pgd (PROC_STACK_BOTTOM - PGSIZE) PROC_STACK_BOTTOM (PTE_W OR PTE_U)) (\<lambda>(r, st).
       let k = k\<lparr>kmem := st\<rparr>
       in if r = 0 then exec_bad k pgd
          else kbind (exec_args (kmem k) pgd argv 0 PROC_STACK_BOTTOM (replicate (3 + MAXARG + 1) 0)) (\<lambda>(a, st).
            let k = k\<lparr>kmem := st\<rparr>
            in case a of None \<Rightarrow> exec_bad k pgd
               | Some (argc, sp, us) \<Rightarrow>
                   let us = us[0 := 0xffffffff, 1 := of_nat argc, 2 := sp - (of_nat argc + 1) * 4, 3 := 0, 4 := interp];
                       sp = sp - (5 + of_nat argc + 1) * 4
                   in kbind (copyout_bytes (kmem k) pgd sp (concat (map bytes32 (take (5 + argc + 1) us)))) (\<lambda>(r, st).
                        let k = k\<lparr>kmem := st\<rparr>
                        in if r < 0 then exec_bad k pgd
                           else exec_commit k cur pgd (of_int sz) entry sp fname)))"

definition exec :: "('p, 's) kernel \<Rightarrow> u8 list \<Rightarrow> u8 list option list \<Rightarrow> (int \<times> ('p, 's) kernel) kres" where
  "exec k fname argv =
     (case myproc k of None \<Rightarrow> Fault
      | Some cur \<Rightarrow>
          kbind (setupkvm_k k) (\<lambda>(pgd, k).
            if pgd = 0 then exec_bad k pgd
            else kbind (proc_elf_load pgd 0 (loader_of k cur) fname) (\<lambda>(sz, l).
              let k = loaded k l
              in if sz < 0 then exec_bad k pgd
                 else case l_entry l of None \<Rightarrow> Fault
                    | Some entry \<Rightarrow> exec_stack k cur pgd sz entry (l_interp l) fname argv)))"

section \<open>Dynamic libraries and modules\<close>

text \<open>\<open>proc_load_dynamic\<close>: the base address, or 0; the entry and the dynamic section are reported.\<close>

definition proc_load_dynamic :: "('p, 's) kernel \<Rightarrow> nat \<Rightarrow> nat \<Rightarrow> u8 list \<Rightarrow> (u32 \<times> u32 option \<times> u32 option \<times> ('p, 's) kernel) kres" where
  "proc_load_dynamic k cur prc name =
     (let load_base = dyn_base (proc_at k cur)
      in kbind (proc_elf_load (pgdir (proc_at k prc)) load_base (loader_of k cur) name) (\<lambda>(sz, l).
           let k = loaded k l
           in if sz < 0 then Ok (0, l_dynamic l, l_entry l, k)
              else Ok (load_base, l_dynamic l, l_entry l,
                     upd_proc k cur (\<lambda>p. p\<lparr>dyn_base := dyn_base p + PGROUNDUP (of_int sz)\<rparr>))))"

definition MAX_MODULES :: nat where "MAX_MODULES = 64"

record ModuleInfo =
  mod_name :: "u8 list"
  mod_base :: u32

text \<open>The name is copied by \<^verbatim>\<open>strncpy\<close> into 64 bytes.\<close>

fun module_info_add :: "ModuleInfo list \<Rightarrow> u8 list \<Rightarrow> u32 \<Rightarrow> ModuleInfo list" where
  "module_info_add [] name base = []"
| "module_info_add (i # is) name base =
     (if mod_base i = 0
      then \<lparr>mod_name = take 64 (takeWhile (\<lambda>b. b \<noteq> 0) name @ replicate 64 0), mod_base = base\<rparr> # is
      else i # module_info_add is name base)"

primrec module_share :: "kmem_state \<Rightarrow> u32 \<Rightarrow> u32 \<Rightarrow> u32 \<Rightarrow> proc list \<Rightarrow> kmem_state kres" where
  "module_share st kpgd load_base sz [] = Ok st"
| "module_share st kpgd load_base sz (p # ps) =
     (if pstate p \<noteq> UNUSED \<and> pstate p \<noteq> EMBRYO
      then kbind (copypgdir st (pgdir p) kpgd load_base (load_base + sz)) (\<lambda>(r, st).
             if r = 0 then Panic ''module load copy failed'' else module_share st kpgd load_base sz ps)
      else module_share st kpgd load_base sz ps)"

text \<open>\<open>module_load\<close> up to the call of the entry point, whose address is reported.\<close>

definition module_load :: "('p, 's) kernel \<Rightarrow> nat \<Rightarrow> ModuleInfo list \<Rightarrow> u8 list
    \<Rightarrow> (int \<times> u32 \<times> ModuleInfo list \<times> ('p, 's) kernel) kres" where
  "module_load k cur info name =
     (let load_base = module_base k
      in kbind (module_elf_load (kpgdir k) load_base (loader_of k cur) name) (\<lambda>(ret, l).
           let k = loaded k l
           in if ret < 0 then Ok (ret, 0, info, k)
              else let info = module_info_add info name load_base
                   in kbind (module_share (kmem k) (kpgdir k) load_base (of_int ret) (ptable k)) (\<lambda>st.
                        case l_entry l of None \<Rightarrow> Fault
                        | Some entry \<Rightarrow> Ok (0, load_base + entry, info,
                            k\<lparr>kmem := st, module_base := module_base k + PGROUNDUP (of_int ret)\<rparr>))))"

section \<open>What exec does to the process\<close>

text \<open>The process table as the caller of \<open>exec\<close> finds it afterwards.\<close>

definition new_image :: "proc \<Rightarrow> proc \<Rightarrow> bool" where
  "new_image p p' \<longleftrightarrow> p' = p\<lparr>pname := pname p', pgdir := pgdir p', psz := psz p', stack_size := PGSIZE, heap_size := 0,
     dyn_base := PROC_DYNAMIC_BOTTOM\<rparr>"

definition exec_outcome :: "('p, 's) kernel \<Rightarrow> nat \<Rightarrow> u32 \<Rightarrow> int \<Rightarrow> ('p, 's) kernel \<Rightarrow> bool" where
  "exec_outcome k cur pgd r k' = (if r = 0
     then pgdir (proc_at k' cur) = pgd \<and> new_image (proc_at k cur) (proc_at k' cur)
       \<and> ptable k' = (ptable k)[cur := proc_at k' cur]
     else r = -1 \<and> ptable k' = ptable k)"

lemma exec_outcome_kmem [simp]: "exec_outcome (k\<lparr>kmem := st\<rparr>) cur pgd r k' = exec_outcome k cur pgd r k'"
  by (simp add: exec_outcome_def)

lemma exec_bad_ok: "exec_bad k pgd = Ok (r, k') \<Longrightarrow> exec_outcome k cur pgd' r k'"
  by (auto simp: exec_bad_def kbind_Ok_iff exec_outcome_def split: if_splits)

lemma exec_commit_ok:
  assumes "exec_commit k cur pgd sz entry sp fname = Ok (r, k')" "cur < length (ptable k)"
  shows "exec_outcome k cur pgd r k'"
proof -
  obtain k1 st where "switch_to (upd_proc k cur (\<lambda>p. p\<lparr>pname := safestrcpy_buf (pname p) (path_last fname fname) 16,
      pgdir := pgd, psz := sz, stack_size := PGSIZE, heap_size := 0, dyn_base := PROC_DYNAMIC_BOTTOM\<rparr>)
      \<lparr>kmem := st\<rparr>) cur = Ok k1" and k': "ptable k' = ptable k1" "r = 0"
    using assms(1) by (auto simp: exec_commit_def Let_def kbind_Ok_iff)
  then have "ptable k1 = (ptable k)[cur := (proc_at k cur)\<lparr>pname := safestrcpy_buf (pname (proc_at k cur)) (path_last fname fname) 16,
      pgdir := pgd, psz := sz, stack_size := PGSIZE, heap_size := 0, dyn_base := PROC_DYNAMIC_BOTTOM\<rparr>]"
    using pids_switch_to by fastforce
  then show ?thesis using assms(2) k' by (simp add: exec_outcome_def new_image_def)
qed

lemma exec_stack_ok:
  assumes "exec_stack k cur pgd sz entry interp fname argv = Ok (r, k')" "cur < length (ptable k)"
  shows "exec_outcome k cur pgd r k'"
  using assms
  by (fastforce simp: exec_stack_def Let_def kbind_Ok_iff split: if_splits option.splits
      dest: exec_bad_ok exec_commit_ok)

lemma exec_ok:
  assumes e: "exec k fname argv = Ok (r, k')" and cur: "myproc k = Some cur" "cur < length (ptable k)"
  shows "\<exists>pgd. exec_outcome k cur pgd r k'"
proof -
  obtain pgd k1 where s: "setupkvm_k k = Ok (pgd, k1)" using e cur by (auto simp: exec_def kbind_Ok_iff)
  then obtain st where k1: "k1 = k\<lparr>kmem := st\<rparr>" using setupkvm_k_ok by blast
  show ?thesis
  proof (cases "pgd = 0")
    case True
    then have "exec_bad k1 pgd = Ok (r, k')" using e cur s by (simp add: exec_def)
    from exec_bad_ok [OF this, of cur pgd] show ?thesis by (auto simp: k1)
  next
    case False
    then obtain sz l where l: "proc_elf_load pgd 0 (loader_of k1 cur) fname = Ok (sz, l)" and
      rest: "(if sz < 0 then exec_bad (loaded k1 l) pgd else case l_entry l of None \<Rightarrow> Fault
         | Some entry \<Rightarrow> exec_stack (loaded k1 l) cur pgd sz entry (l_interp l) fname argv) = Ok (r, k')"
      using e cur s by (auto simp: exec_def kbind_Ok_iff Let_def)
    have same: "ptable (loaded k1 l) = ptable k" by (simp add: loaded_def k1)
    have "exec_outcome (loaded k1 l) cur pgd r k'"
      using rest exec_bad_ok exec_stack_ok cur(2) same by (fastforce split: if_splits option.splits)
    then show ?thesis by (auto simp: exec_outcome_def same)
  qed
qed



lemma exec_args_overrun:
  assumes "length us < 6 + argc + length args" "length us = 36" "argc + length args < 32"
  shows "exec_args st pgd (map Some args @ None # rest) argc sp us \<noteq> Ok (Some x, st')"
  using assms
proof (induction args arbitrary: st argc sp us)
  case Nil
  then show ?case by (simp add: ustack_set_def)
next
  case (Cons s args)
  have "exec_args st pgd (map Some args @ None # rest) (Suc argc) sp (us[5 + argc := v]) \<noteq> Ok (Some x, st')" for st sp v
    by (rule Cons.IH) (use Cons.prems in simp_all)
  then show ?case using Cons.prems
    by (auto simp: Let_def kbind_Ok_iff ustack_set_def MAXARG_def split: if_splits)
qed

lemma exec_bad_result: "exec_bad k pgd = Ok (r, k') \<Longrightarrow> r = -1"
  by (auto simp: exec_bad_def kbind_Ok_iff split: if_splits)



end
