(* ===== verification/Console.thy ===== *)
theory Console
  imports Vm
begin

text \<open>
  The console, \<^verbatim>\<open>kernel/core/console.c\<close>: formatted output (\<open>printint\<close>, \<open>cprintf\<close>, \<open>panic\<close>), the text
  screen (\<open>cgaputc\<close>), the frame buffer (\<open>fb_putc\<close>), and line-edited input (\<open>consoleintr\<close>,
  \<open>consoleread\<close>). The bytes sent to the serial port and to the debug port are recorded in the
  order they are sent. \<^verbatim>\<open>cons.lock\<close> brackets every operation. The glyph table \<^verbatim>\<open>font16\<close> of
  \<^verbatim>\<open>font.h\<close> is an argument of the drawing functions: nothing here depends on its contents.
\<close>

section \<open>State\<close>

datatype cons_mode = CONS_VGA | CONS_FB

text \<open>
  \<open>fb\<close> has \<^verbatim>\<open>width * height\<close> pixels; \<open>crt\<close> is the text screen at 0xb8000, one cell per 16-bit word
  of its 0x8000 bytes; \<open>cursor_hi\<close> and \<open>cursor_lo\<close> are registers 14 and 15 of the controller.
\<close>

record console =
  panicked :: bool
  locking :: bool
  fb :: "u32 list"
  width :: u32
  height :: u32
  cmode :: cons_mode
  crt :: "u16 list"
  pos :: int
  cursor_hi :: u8
  cursor_lo :: u8
  xpos :: u32
  ypos :: u32
  uart_exist :: bool
  serial :: "u8 list"
  debugcon :: "u8 list"

definition BACKSPACE :: int where "BACKSPACE = 0x100"

text \<open>Writing an element of a C array.\<close>

definition arr_set :: "'a list \<Rightarrow> int \<Rightarrow> 'a \<Rightarrow> 'a list kres" where
  "arr_set xs i v = (if 0 \<le> i \<and> i < int (length xs) then Ok (xs[nat i := v]) else Fault)"

section \<open>The text screen\<close>

definition cga_scroll :: "u16 list \<Rightarrow> int \<Rightarrow> u16 list" where
  "cga_scroll cells p =
     (let cells = take 1840 (drop 80 cells) @ drop 1840 cells
      in take (nat p) cells @ replicate (nat (1920 - p)) 0 @ drop 1920 cells)"

definition cgaputc :: "console \<Rightarrow> int \<Rightarrow> console kres" where
  "cgaputc cs c =
     kbind (if c = 10 then Ok (cs\<lparr>pos := pos cs + (80 - pos cs mod 80)\<rparr>)
            else if c = BACKSPACE then Ok (if pos cs > 0 then cs\<lparr>pos := pos cs - 1\<rparr> else cs)
            else kbind (arr_set (crt cs) (pos cs) (of_int (c AND 0xff) OR 0x0700)) (\<lambda>cells.
                   Ok (cs\<lparr>crt := cells, pos := pos cs + 1\<rparr>))) (\<lambda>cs.
       if pos cs < 0 \<or> pos cs > 25 * 80 then Panic ''pos under/overflow''
       else let cs = (if pos cs div 80 \<ge> 24
                      then cs\<lparr>pos := pos cs - 80, crt := cga_scroll (crt cs) (pos cs - 80)\<rparr> else cs);
                cs = cs\<lparr>cursor_hi := of_int (pos cs div 256), cursor_lo := of_int (pos cs)\<rparr>
            in kbind (arr_set (crt cs) (pos cs) (32 OR 0x0700)) (\<lambda>cells. Ok (cs\<lparr>crt := cells\<rparr>)))"

section \<open>The frame buffer\<close>

definition WHITE :: u32 where "WHITE = 0xffffff"
definition BLACK :: u32 where "BLACK = 0"

text \<open>
  One row of a glyph: bit \<open>b\<close> colours pixel \<open>7 - b\<close>, from bit 0 up. \<^verbatim>\<open>c\<close> is a signed \<^verbatim>\<open>char\<close>. Offsets
  are computed in \<^verbatim>\<open>unsigned\<close> arithmetic; pointing outside the buffer is \<open>Fault\<close>.
\<close>

primrec fbcon_bits :: "u32 list \<Rightarrow> u32 \<Rightarrow> u8 \<Rightarrow> nat list \<Rightarrow> u32 list kres" where
  "fbcon_bits px p g [] = Ok px"
| "fbcon_bits px p g (b # bs) =
     kbind (arr_set px (uint p + 7 - int b) (if bit g b then WHITE else BLACK)) (\<lambda>px. fbcon_bits px p g bs)"

primrec fbcon_rows :: "u8 list \<Rightarrow> u32 \<Rightarrow> u32 list \<Rightarrow> u32 \<Rightarrow> u32 \<Rightarrow> int \<Rightarrow> nat list \<Rightarrow> u32 list kres" where
  "fbcon_rows font16 w px x y c [] = Ok px"
| "fbcon_rows font16 w px x y c (i # is) =
     kbind (arr font16 (c * 16 + int i)) (\<lambda>g.
     kbind (fbcon_bits px ((y + of_nat i) * w + x) g [0..<8]) (\<lambda>px. fbcon_rows font16 w px x y c is))"

definition fbcon_drawchar :: "u8 list \<Rightarrow> console \<Rightarrow> u32 \<Rightarrow> u32 \<Rightarrow> int \<Rightarrow> console kres" where
  "fbcon_drawchar font16 cs x y c =
     kbind (fbcon_rows font16 (width cs) (fb cs) x y (sint (of_int c :: u8)) [0..<16]) (\<lambda>px. Ok (cs\<lparr>fb := px\<rparr>))"

primrec fastmemcpy32 :: "u32 list \<Rightarrow> u32 \<Rightarrow> u32 \<Rightarrow> nat list \<Rightarrow> u32 list kres" where
  "fastmemcpy32 px d s [] = Ok px"
| "fastmemcpy32 px d s (i # is) =
     kbind (arr px (uint s + int i)) (\<lambda>v. kbind (arr_set px (uint d + int i) v) (\<lambda>px. fastmemcpy32 px d s is))"

text \<open>Scrolling: text row \<open>i + 1\<close> moves to row \<open>i\<close>.\<close>

primrec fb_scroll_rows :: "u32 \<Rightarrow> u32 list \<Rightarrow> nat list \<Rightarrow> u32 list kres" where
  "fb_scroll_rows w px [] = Ok px"
| "fb_scroll_rows w px (i # is) =
     kbind (fastmemcpy32 px (of_nat i * w * 16) ((of_nat i + 1) * w * 16) [0..<unat (w * 16)])
       (\<lambda>px. fb_scroll_rows w px is)"

definition fb_newline :: "console \<Rightarrow> console kres" where
  "fb_newline cs =
     (let cs = cs\<lparr>xpos := 0, ypos := ypos cs + 1\<rparr>
      in if ypos cs \<ge> height cs div 16
         then kbind (fb_scroll_rows (width cs) (fb cs) [0..<unat (height cs div 16)])
                (\<lambda>px. Ok (cs\<lparr>fb := px, ypos := ypos cs - 1\<rparr>))
         else Ok cs)"

definition fb_putc :: "u8 list \<Rightarrow> console \<Rightarrow> int \<Rightarrow> console kres" where
  "fb_putc font16 cs c =
     kbind (if c = 10
            then kbind (fbcon_drawchar font16 cs (xpos cs * 8) (ypos cs * 16) 32) fb_newline
            else if c = BACKSPACE
            then kbind (fbcon_drawchar font16 cs (xpos cs * 8) (ypos cs * 16) 32) (\<lambda>cs.
                   Ok (if xpos cs = 0 then cs\<lparr>ypos := ypos cs - 1, xpos := width cs div 8 - 1\<rparr>
                       else cs\<lparr>xpos := xpos cs - 1\<rparr>))
            else kbind (fbcon_drawchar font16 cs (xpos cs * 8) (ypos cs * 16) c) (\<lambda>cs.
                   Ok (cs\<lparr>xpos := xpos cs + 1\<rparr>))) (\<lambda>cs.
     kbind (if xpos cs * 8 + 8 > width cs then fb_newline cs else Ok cs) (\<lambda>cs.
       fbcon_drawchar font16 cs (xpos cs * 8) (ypos cs * 16) 95))"

section \<open>Output\<close>

definition uart_putc :: "console \<Rightarrow> u8 \<Rightarrow> console" where
  "uart_putc cs c = (if \<not> uart_exist cs then cs else cs\<lparr>serial := serial cs @ [c]\<rparr>)"

definition consputc :: "u8 list \<Rightarrow> console \<Rightarrow> int \<Rightarrow> console kres" where
  "consputc font16 cs c =
     (if panicked cs then Diverge
      else let cs = (if c = BACKSPACE then uart_putc (uart_putc (uart_putc cs 8) 32) 8
                     else uart_putc cs (of_int c))
           in kbind (case cmode cs of CONS_VGA \<Rightarrow> cgaputc cs c | CONS_FB \<Rightarrow> fb_putc font16 cs c)
                (\<lambda>cs. Ok (cs\<lparr>debugcon := debugcon cs @ [of_int c]\<rparr>)))"

primrec consputs :: "u8 list \<Rightarrow> console \<Rightarrow> int list \<Rightarrow> console kres" where
  "consputs font16 cs [] = Ok cs"
| "consputs font16 cs (c # s) = kbind (consputc font16 cs c) (\<lambda>cs. consputs font16 cs s)"

text \<open>
  \<open>printint\<close>: the digits go into \<^verbatim>\<open>buf[64]\<close>, least significant first. \<^verbatim>\<open>xx\<close> is an
  \<^verbatim>\<open>unsigned long long\<close>, and so the test \<^verbatim>\<open>xx < 0\<close> is a test of unsigned numbers.
\<close>

definition digits :: "bool \<Rightarrow> string" where
  "digits cpt = (if cpt then ''0123456789ABCDEF'' else ''0123456789abcdef'')"

function printint_loop :: "string \<Rightarrow> u64 \<Rightarrow> u64 \<Rightarrow> u8 list \<Rightarrow> u8 list kres" where
  "printint_loop ds x base buf =
     (if base = 0 \<or> 64 \<le> length buf then Fault
      else kbind (arr ds (uint (x mod base))) (\<lambda>d.
             if x div base \<noteq> 0 then printint_loop ds (x div base) base (buf @ [of_char d])
             else Ok (buf @ [of_char d])))"
  by auto
termination by (relation "measure (\<lambda>(_, _, _, buf). 64 - length buf)") auto

definition printint :: "u8 list \<Rightarrow> console \<Rightarrow> u64 \<Rightarrow> int \<Rightarrow> bool \<Rightarrow> bool \<Rightarrow> console kres" where
  "printint font16 cs xx base sg cpt =
     (let neg = (sg \<and> xx < 0); x = (if neg then - xx else xx)
      in kbind (printint_loop (digits cpt) x (of_int base) []) (\<lambda>buf.
           let buf = (if neg then buf @ [45] else buf)
           in consputs font16 cs (map uint (rev buf))))"

text \<open>
  \<open>cprintf\<close>: the arguments are the 32-bit words on the stack, a \<^verbatim>\<open>long long\<close> takes two of them, low
  word first; a missing argument is \<open>Fault\<close>. Strings are read from memory.
\<close>

datatype fmt_state = Plain | Percent | Long | LongLong

partial_function (option) consputs_mem :: "u8 list \<Rightarrow> console \<Rightarrow> mem \<Rightarrow> u32 \<Rightarrow> console kres option" where
  "consputs_mem font16 cs m s =
     (if m s \<noteq> 0
      then case consputc font16 cs (sint (m s)) of
             Ok cs \<Rightarrow> consputs_mem font16 cs m (s + 1)
           | Panic e \<Rightarrow> Some (Panic e)
           | Diverge \<Rightarrow> None
           | Fault \<Rightarrow> Some Fault
      else Some (Ok cs))"

definition sgn64 :: "u32 \<Rightarrow> u64" where "sgn64 a = scast a"

definition two64 :: "u32 \<Rightarrow> u32 \<Rightarrow> u64" where "two64 lo hi = ucast lo OR push_bit 32 (ucast hi)"

definition is_int_fmt :: "u8 \<Rightarrow> bool" where "is_int_fmt c \<longleftrightarrow> c = 100 \<or> c = 105"

definition cprintf_conv :: "u8 list \<Rightarrow> console \<Rightarrow> mem \<Rightarrow> u8 \<Rightarrow> u32 list \<Rightarrow> (fmt_state \<times> u32 list \<times> console) kres" where
  "cprintf_conv font16 cs m c args =
     (let put = (\<lambda>args r. kbind r (\<lambda>cs. Ok (Plain, args, cs)))
      in if c = 37 then put args (consputc font16 cs 37)
         else if c = 108 then Ok (Long, args, cs)
         else if c = 99 \<or> c = 115 \<or> is_int_fmt c \<or> c = 120 \<or> c = 88 \<or> c = 117 \<or> c = 112
         then (case args of [] \<Rightarrow> Fault
               | a # args \<Rightarrow>
                   put args
                    (if c = 99 then consputc font16 cs (sint a)
                     else if c = 115
                     then if a = 0 then consputs font16 cs (map uint (bytes_of ''(null)''))
                          else of_kloop (consputs_mem font16 cs m a)
                     else if is_int_fmt c then printint font16 cs (sgn64 a) 10 True False
                     else if c = 120 then printint font16 cs (ucast a) 16 False False
                     else if c = 88 then printint font16 cs (ucast a) 16 False True
                     else if c = 117 then printint font16 cs (ucast a) 10 False False
                     else printint font16 cs (ucast a) 16 False False))
         else put args (kbind (consputc font16 cs 37) (\<lambda>cs. consputc font16 cs (uint c))))"

definition cprintf_long :: "u8 list \<Rightarrow> console \<Rightarrow> u8 \<Rightarrow> u32 list \<Rightarrow> (fmt_state \<times> u32 list \<times> console) kres" where
  "cprintf_long font16 cs c args =
     (if c = 108 then Ok (LongLong, args, cs)
      else if is_int_fmt c \<or> c = 120 \<or> c = 88 \<or> c = 117
      then (case args of [] \<Rightarrow> Fault
            | a # args \<Rightarrow>
                kbind (if is_int_fmt c then printint font16 cs (sgn64 a) 10 True False
                       else if c = 120 then printint font16 cs (ucast a) 16 False False
                       else if c = 88 then printint font16 cs (ucast a) 16 False True
                       else printint font16 cs (ucast a) 10 False False) (\<lambda>cs. Ok (Plain, args, cs)))
      else Ok (Plain, args, cs))"

definition cprintf_longlong :: "u8 list \<Rightarrow> console \<Rightarrow> u8 \<Rightarrow> u32 list \<Rightarrow> (fmt_state \<times> u32 list \<times> console) kres" where
  "cprintf_longlong font16 cs c args =
     (if is_int_fmt c \<or> c = 120 \<or> c = 88 \<or> c = 117
      then (case args of
              lo # hi # args \<Rightarrow>
                kbind (if is_int_fmt c then printint font16 cs (two64 lo hi) 10 True False
                       else if c = 120 then printint font16 cs (two64 lo hi) 16 False False
                       else if c = 88 then printint font16 cs (two64 lo hi) 16 False True
                       else printint font16 cs (two64 lo hi) 10 False False) (\<lambda>cs. Ok (Plain, args, cs))
            | _ \<Rightarrow> Fault)
      else Ok (Plain, args, cs))"

primrec cprintf_loop :: "u8 list \<Rightarrow> mem \<Rightarrow> u8 list \<Rightarrow> console \<Rightarrow> fmt_state \<Rightarrow> u32 list \<Rightarrow> console kres" where
  "cprintf_loop font16 m [] cs state args = Ok cs"
| "cprintf_loop font16 m (c # fmt) cs state args =
     (if c = 0 then Ok cs
      else kbind (case state of
             Plain \<Rightarrow> if c = 37 then Ok (Percent, args, cs)
                      else kbind (consputc font16 cs (uint c)) (\<lambda>cs. Ok (Plain, args, cs))
           | Percent \<Rightarrow> cprintf_conv font16 cs m c args
           | Long \<Rightarrow> cprintf_long font16 cs c args
           | LongLong \<Rightarrow> cprintf_longlong font16 cs c args)
         (\<lambda>(state, args, cs). cprintf_loop font16 m fmt cs state args))"

definition cprintf :: "u8 list \<Rightarrow> mem \<Rightarrow> console \<Rightarrow> u8 list \<Rightarrow> u32 list \<Rightarrow> console kres" where
  "cprintf font16 m cs fmt args = cprintf_loop font16 m fmt cs Plain args"

text \<open>
  \<open>panic\<close> up to its endless loop: it gives the console as it leaves it. \<open>lapicid\<close> is the number of
  the processor and \<open>pcs\<close> are the ten return addresses \<^verbatim>\<open>getcallerpcs\<close> finds.
\<close>

primrec panic_pcs :: "u8 list \<Rightarrow> mem \<Rightarrow> console \<Rightarrow> u32 list \<Rightarrow> console kres" where
  "panic_pcs font16 m cs [] = Ok cs"
| "panic_pcs font16 m cs (pc # pcs) =
     kbind (cprintf font16 m cs (bytes_of '' %p'') [pc]) (\<lambda>cs. panic_pcs font16 m cs pcs)"

definition panic :: "u8 list \<Rightarrow> mem \<Rightarrow> console \<Rightarrow> u32 \<Rightarrow> u8 list \<Rightarrow> u32 list \<Rightarrow> console kres" where
  "panic font16 m cs lapicid s pcs =
     (let cs = cs\<lparr>locking := False\<rparr>
      in kbind (cprintf font16 m cs (bytes_of ''lapicid %d: panic: '') [lapicid]) (\<lambda>cs.
         kbind (cprintf font16 m cs s []) (\<lambda>cs.
         kbind (cprintf font16 m cs [10] []) (\<lambda>cs.
         kbind (panic_pcs font16 m cs (take 10 pcs)) (\<lambda>cs.
           Ok (cs\<lparr>panicked := True\<rparr>))))))"

primrec consolewrite_loop :: "u8 list \<Rightarrow> console \<Rightarrow> u8 list \<Rightarrow> console kres" where
  "consolewrite_loop font16 cs [] = Ok cs"
| "consolewrite_loop font16 cs (b # bs) =
     kbind (consputc font16 cs (uint b)) (\<lambda>cs. consolewrite_loop font16 cs bs)"

definition consolewrite :: "u8 list \<Rightarrow> console \<Rightarrow> (nat \<Rightarrow> u8) \<Rightarrow> int \<Rightarrow> (int \<times> console) kres" where
  "consolewrite font16 cs buf n = kbind (consolewrite_loop font16 cs (map buf [0..<nat n])) (\<lambda>cs. Ok (n, cs))"

definition vgacon_init :: "console \<Rightarrow> console" where
  "vgacon_init cs = cs\<lparr>locking := True, cmode := CONS_VGA, crt := replicate 0x4000 0\<rparr>"

definition fbcon_init :: "console \<Rightarrow> u32 \<Rightarrow> u32 \<Rightarrow> u32 \<Rightarrow> console kres" where
  "fbcon_init cs fb_addr w h =
     (let cs = cs\<lparr>locking := True\<rparr>
      in kbind (map_ram_region fb_addr (w * h * 4)) (\<lambda>p.
           if p = 0 then Panic ''fbcon mmap failed''
           else Ok (cs\<lparr>width := w, height := h, cmode := CONS_FB, fb := replicate (unat (w * h)) 0\<rparr>)))"

section \<open>Input\<close>

record inbuf =
  ibuf :: "u8 list"
  ir :: u32
  iw :: u32
  ie :: u32

definition INPUT_BUF :: u32 where "INPUT_BUF = 128"

definition ibyte :: "inbuf \<Rightarrow> u32 \<Rightarrow> u8" where
  "ibyte inp i = ibuf inp ! unat (i mod INPUT_BUF)"

function kill_line :: "u8 list \<Rightarrow> inbuf \<Rightarrow> console \<Rightarrow> (inbuf \<times> console) kres" where
  "kill_line font16 inp cs =
     (if ie inp \<noteq> iw inp \<and> ibyte inp (ie inp - 1) \<noteq> 10
      then kbind (consputc font16 cs BACKSPACE) (\<lambda>cs. kill_line font16 (inp\<lparr>ie := ie inp - 1\<rparr>) cs)
      else Ok (inp, cs))"
  by auto
termination
proof (relation "measure (\<lambda>(_, inp, _). unat (ie inp - iw inp))")
  fix inp :: inbuf assume "ie inp \<noteq> iw inp \<and> ibyte inp (ie inp - 1) \<noteq> 10"
  then have "ie inp - iw inp \<noteq> 0" by simp
  then have "unat (ie inp - iw inp - 1) < unat (ie inp - iw inp)"
    by (metis diff_less unat_gt_0 unat_minus_one zero_less_one)
  then show "((font16, inp\<lparr>ie := ie inp - 1\<rparr>, cs), font16, inp, c0)
      \<in> measure (\<lambda>(_, inp, _). unat (ie inp - iw inp))" for font16 :: "u8 list" and cs c0 :: console
    by (simp add: diff_diff_eq add.commute)
qed simp

text \<open>One round of \<open>consoleintr\<close>; the flag says whether it woke the readers.\<close>

definition consoleintr_char :: "u8 list \<Rightarrow> inbuf \<times> console \<Rightarrow> int \<Rightarrow> (bool \<times> inbuf \<times> console) kres" where
  "consoleintr_char font16 ic c =
     (case ic of (inp, cs) \<Rightarrow>
       if c = 21 then kbind (kill_line font16 inp cs) (\<lambda>ic. Ok (False, ic))
       else if c = 8 \<or> c = 0x7f
       then if ie inp \<noteq> iw inp
            then kbind (consputc font16 cs BACKSPACE) (\<lambda>cs. Ok (False, inp\<lparr>ie := ie inp - 1\<rparr>, cs))
            else Ok (False, inp, cs)
       else if c \<noteq> 0 \<and> ie inp - ir inp < INPUT_BUF
       then let c = (if c = 13 then 10 else c);
                inp = inp\<lparr>ibuf := (ibuf inp)[unat (ie inp mod INPUT_BUF) := of_int c], ie := ie inp + 1\<rparr>
            in kbind (consputc font16 cs c) (\<lambda>cs.
                 if c = 10 \<or> c = 4 \<or> ie inp = ir inp + INPUT_BUF
                 then Ok (True, inp\<lparr>iw := ie inp\<rparr>, cs) else Ok (False, inp, cs))
       else Ok (False, inp, cs))"

text \<open>\<open>chars\<close> are what \<^verbatim>\<open>getc\<close> returns before it returns a negative number.\<close>

primrec consoleintr :: "u8 list \<Rightarrow> inbuf \<times> console \<Rightarrow> int list \<Rightarrow> (bool \<times> inbuf \<times> console) kres" where
  "consoleintr font16 ic [] = Ok (False, ic)"
| "consoleintr font16 ic (c # chars) =
     (if c < 0 then Ok (False, ic)
      else kbind (consoleintr_char font16 ic c) (\<lambda>(w, ic).
             kbind (consoleintr font16 ic chars) (\<lambda>(w', ic). Ok (w \<or> w', ic))))"

text \<open>
  \<open>consoleread\<close>, with \<open>n\<close> bytes still wanted of \<open>target\<close> and \<open>dst\<close> read so far: it is done, it is
  killed, or it goes to sleep and goes on from there when woken.
\<close>

datatype read_result = ReadDone int "u8 list" inbuf | ReadSleeps "u8 list" nat inbuf

primrec consoleread_loop :: "bool \<Rightarrow> u32 \<Rightarrow> nat \<Rightarrow> u8 list \<Rightarrow> inbuf \<Rightarrow> read_result" where
  "consoleread_loop killed target 0 dst inp = ReadDone (sint target) dst inp"
| "consoleread_loop killed target (Suc n) dst inp =
     (if ir inp = iw inp
      then if killed then ReadDone (-1) dst inp else ReadSleeps dst (Suc n) inp
      else let c = ibyte inp (ir inp); inp = inp\<lparr>ir := ir inp + 1\<rparr>
           in if c = 4
              then ReadDone (sint (target - of_nat (Suc n))) dst
                     (if of_nat (Suc n) < target then inp\<lparr>ir := ir inp - 1\<rparr> else inp)
              else if c = 10 then ReadDone (sint (target - of_nat n)) (dst @ [c]) inp
              else consoleread_loop killed target n (dst @ [c]) inp)"

definition consoleread :: "bool \<Rightarrow> inbuf \<Rightarrow> int \<Rightarrow> read_result" where
  "consoleread killed inp n =
     (if n \<le> 0 then ReadDone 0 [] inp else consoleread_loop killed (of_int n) (nat n) [] inp)"

section \<open>The screen stays in bounds\<close>

definition cons_ok :: "console \<Rightarrow> bool" where
  "cons_ok cs \<longleftrightarrow> \<not> panicked cs \<and> cmode cs = CONS_VGA \<and> 0 \<le> pos cs \<and> pos cs < 24 * 80 \<and> length (crt cs) = 0x4000"

lemma arr_set_Ok [simp]: "0 \<le> i \<Longrightarrow> i < int (length xs) \<Longrightarrow> arr_set xs i v = Ok (xs[nat i := v])"
  by (simp add: arr_set_def)

lemma length_cga_scroll:
  assumes "length cells = 0x4000" "0 \<le> p" "p \<le> 1920"
  shows "length (cga_scroll cells p) = 0x4000"
proof -
  have "nat p + nat (1920 - p) = 1920" "nat p \<le> 1920" using assms(2,3) by linarith+
  then show ?thesis using assms(1) by (simp add: cga_scroll_def Let_def)
qed

lemma cgaputc_ok:
  assumes "cons_ok cs"
  shows "\<exists>cs'. cgaputc cs c = Ok cs' \<and> cons_ok cs' \<and> serial cs' = serial cs \<and> debugcon cs' = debugcon cs
    \<and> uart_exist cs' = uart_exist cs"
proof -
  define move where "move = (if c = 10 then Ok (cs\<lparr>pos := pos cs + (80 - pos cs mod 80)\<rparr>)
            else if c = BACKSPACE then Ok (if pos cs > 0 then cs\<lparr>pos := pos cs - 1\<rparr> else cs)
            else kbind (arr_set (crt cs) (pos cs) (of_int (c AND 0xff) OR 0x0700)) (\<lambda>cells.
                   Ok (cs\<lparr>crt := cells, pos := pos cs + 1\<rparr>)))"
  have p: "0 \<le> pos cs" "pos cs < 1920" "length (crt cs) = 0x4000" using assms by (auto simp: cons_ok_def)
  have q: "pos cs = 80 * (pos cs div 80) + pos cs mod 80" "0 \<le> pos cs mod 80" "pos cs mod 80 < 80" by simp_all
  then have "pos cs div 80 < 24" using p(2) by linarith
  then have nl: "pos cs + (80 - pos cs mod 80) \<le> 1920" "0 \<le> pos cs + (80 - pos cs mod 80)" using p(1) q by linarith+
  have "\<exists>c1. move = Ok c1 \<and> 0 \<le> pos c1 \<and> pos c1 \<le> 1920 \<and> length (crt c1) = 0x4000 \<and> \<not> panicked c1
      \<and> cmode c1 = CONS_VGA \<and> serial c1 = serial cs \<and> debugcon c1 = debugcon cs \<and> uart_exist c1 = uart_exist cs"
    unfolding move_def using assms p nl by (simp add: cons_ok_def)
  then obtain c1 where c1: "move = Ok c1" "0 \<le> pos c1" "pos c1 \<le> 1920" "length (crt c1) = 0x4000" "\<not> panicked c1"
      "cmode c1 = CONS_VGA" "serial c1 = serial cs" "debugcon c1 = debugcon cs" "uart_exist c1 = uart_exist cs" by blast
  have "pos c1 = 80 * (pos c1 div 80) + pos c1 mod 80" "0 \<le> pos c1 mod 80" "pos c1 mod 80 < 80" by simp_all
  then have d: "24 \<le> pos c1 div 80 \<longleftrightarrow> pos c1 = 1920" using c1(3) by linarith
  show ?thesis unfolding cgaputc_def move_def [symmetric]
    using c1 by (cases "pos c1 = 1920") (auto simp: d Let_def cons_ok_def length_cga_scroll)
qed

lemma consputc_ok:
  assumes "cons_ok cs"
  shows "\<exists>cs'. consputc font16 cs c = Ok cs' \<and> cons_ok cs' \<and> debugcon cs' = debugcon cs @ [of_int c]
    \<and> uart_exist cs' = uart_exist cs
    \<and> (uart_exist cs \<longrightarrow> serial cs' = serial cs @ (if c = BACKSPACE then [8, 32, 8] else [of_int c]))"
proof -
  define c1 where "c1 = (if c = BACKSPACE then uart_putc (uart_putc (uart_putc cs 8) 32) 8 else uart_putc cs (of_int c))"
  have c1: "cons_ok c1" "debugcon c1 = debugcon cs" "uart_exist c1 = uart_exist cs"
    "uart_exist cs \<longrightarrow> serial c1 = serial cs @ (if c = BACKSPACE then [8, 32, 8] else [of_int c])"
    "panicked cs = False" "cmode c1 = CONS_VGA"
    using assms by (auto simp: c1_def uart_putc_def cons_ok_def)
  obtain c2 where "cgaputc c1 c = Ok c2" "cons_ok c2" "serial c2 = serial c1" "debugcon c2 = debugcon c1"
    "uart_exist c2 = uart_exist c1" using cgaputc_ok [OF c1(1)] by blast
  with c1 show ?thesis unfolding consputc_def c1_def [symmetric] by (simp add: Let_def cons_ok_def)
qed

lemma consputs_ok:
  assumes "cons_ok cs"
  shows "\<exists>cs'. consputs font16 cs s = Ok cs' \<and> cons_ok cs' \<and> debugcon cs' = debugcon cs @ map of_int s"
  using assms
proof (induction s arbitrary: cs)
  case (Cons c s)
  from consputc_ok [OF Cons.prems] obtain c1 where "consputc font16 cs c = Ok c1" "cons_ok c1"
    "debugcon c1 = debugcon cs @ [of_int c]" by blast
  with Cons.IH [OF this(2)] show ?case by auto
qed simp

section \<open>Numbers\<close>

text \<open>The value of a list of digits, most significant first.\<close>

definition digit_value :: "u8 \<Rightarrow> nat" where
  "digit_value d = (if d \<le> 57 then unat d - 48 else if d \<le> 70 then unat d - 55 else unat d - 87)"

definition numeral_value :: "nat \<Rightarrow> u8 list \<Rightarrow> nat" where
  "numeral_value base ds = foldl (\<lambda>v d. v * base + digit_value d) 0 ds"

lemma digit_value_digits:
  assumes "n < 16"
  shows "digit_value (of_char (digits cpt ! n)) = n"
proof -
  have "\<forall>n \<in> set [0..<16]. digit_value (of_char (digits cpt ! n)) = n"
    by (cases cpt) (simp_all add: digits_def digit_value_def upt_rec)
  then show ?thesis using assms by simp
qed

lemma numeral_value_snoc: "numeral_value base (ds @ [d]) = numeral_value base ds * base + digit_value d"
  by (simp add: numeral_value_def)

lemma printint_loop_ok:
  assumes "2 \<le> unat base" "unat base \<le> 16" and "unat x < 2 ^ (64 - length buf)" "length buf < 64"
  shows "\<exists>out. printint_loop (digits cpt) x base buf = Ok (buf @ out) \<and> out \<noteq> []
    \<and> numeral_value (unat base) (rev out) = unat x \<and> (1 < length out \<longrightarrow> last out \<noteq> 48)"
  using assms(3,4)
proof (induction n \<equiv> "64 - length buf" arbitrary: x buf)
  case 0
  then show ?case by simp
next
  case (Suc n)
  let ?d = "of_char (digits cpt ! unat (x mod base)) :: u8"
  have b0: "base \<noteq> 0" using assms(1) by auto
  have "unat x mod unat base < unat base" using assms(1) by (intro mod_less_divisor) linarith
  then have m: "unat (x mod base) < 16" using assms(2) by (simp add: unat_mod)
  have len: "length (digits cpt) = 16" by (simp add: digits_def)
  have a: "arr (digits cpt) (uint (x mod base)) = Ok (digits cpt ! unat (x mod base))"
  proof -
    have u: "int (unat (x mod base)) = uint (x mod base)" by simp
    then have "uint (x mod base) < 16" using m by linarith
    then show ?thesis using len by (simp add: arr_def)
  qed
  have dv: "digit_value ?d = unat x mod unat base" using digit_value_digits [OF m] by (simp add: unat_mod)
  have q: "unat (x div base) = unat x div unat base" by (simp add: unat_div)
  show ?case
  proof (cases "x div base = 0")
    case True
    then have "unat x div unat base = 0" using q by simp
    then have "unat x mod unat base = unat x" by (metis add.left_neutral mult_zero_left div_mult_mod_eq)
    then show ?thesis using True b0 Suc.prems(2) a dv
      by (intro exI [of _ "[?d]"]) (simp add: numeral_value_def)
  next
    case False
    have "unat x div unat base \<le> unat x div 2" using assms(1) by (rule div_le_mono2 [rotated]) simp
    moreover have "unat x < 2 ^ n * 2" using Suc.prems(1) unfolding Suc.hyps(2) [symmetric] by simp
    then have "unat x div 2 < 2 ^ n" by (rule less_mult_imp_div_less)
    ultimately have "unat x div unat base < 2 ^ n" by (rule le_less_trans)
    then have sn: "unat (x div base) < 2 ^ n" by (simp only: q)
    have n2: "n = 64 - length (buf @ [?d])" using Suc.hyps(2) by simp
    have small: "unat (x div base) < 2 ^ (64 - length (buf @ [?d]))" using sn by (subst n2 [symmetric])
    have "unat (x div base) \<noteq> 0" using False by (simp add: unat_eq_zero)
    then have n: "n \<noteq> 0" using sn by (cases n) auto
    from Suc.hyps(1) [OF n2 small] n n2 obtain out where
      out: "printint_loop (digits cpt) (x div base) base (buf @ [?d]) = Ok ((buf @ [?d]) @ out)" "out \<noteq> []"
       "numeral_value (unat base) (rev out) = unat (x div base)" "1 < length out \<longrightarrow> last out \<noteq> 48" by auto
    have "last out \<noteq> 48"
    proof
      assume z: "last out = 48"
      then have "length out = 1" using out(2,4) by (metis length_0_conv less_one nat_neq_iff)
      then have "out = [48]" using z by (cases out) auto
      then have "unat (x div base) = 0" using out(3) by (simp add: numeral_value_def digit_value_def)
      then show False using False by (simp add: unat_eq_zero)
    qed
    then show ?thesis using out False b0 Suc.prems(2) a dv q
      by (intro exI [of _ "?d # out"]) (simp add: numeral_value_snoc)
  qed
qed

declare printint_loop.simps [simp del] kill_line.simps [simp del]

text \<open>
  \<open>printint\<close> prints the number. In every base from 2 to 16 it sends a numeral without leading
  zeros whose value is the 64-bit argument, and nothing else; the sign flag makes no difference,
  because the argument is unsigned.
\<close>

theorem printint_value:
  assumes "cons_ok cs" "2 \<le> base" "base \<le> 16"
  shows "\<exists>cs' s. printint font16 cs xx base sg cpt = Ok cs' \<and> cons_ok cs' \<and> debugcon cs' = debugcon cs @ s
    \<and> numeral_value (nat base) s = unat xx \<and> s \<noteq> [] \<and> (1 < length s \<longrightarrow> hd s \<noteq> 48)"
proof -
  have b: "unat (of_int base :: u64) = nat base" 
  proof -
    have "of_int base = (of_nat (nat base) :: u64)" "nat base < 2 ^ 64" using assms(2,3) by simp_all
    then show ?thesis by (simp only: unat_of_nat) simp
  qed
  have x: "unat xx < 2 ^ (64 - length ([] :: u8 list))" using unsigned_less [of xx, where ?'a = nat] by simp
  have "2 \<le> unat (of_int base :: u64)" "unat (of_int base :: u64) \<le> 16" using assms(2,3) b by linarith+
  from printint_loop_ok [OF this x, of cpt] obtain out where out: "printint_loop (digits cpt) xx (of_int base) [] = Ok out" "out \<noteq> []"
    "numeral_value (nat base) (rev out) = unat xx" "1 < length out \<longrightarrow> last out \<noteq> 48"
    by (auto simp: b)
  obtain cs' where cs': "consputs font16 cs (map uint (rev out)) = Ok cs'" "cons_ok cs'"
    "debugcon cs' = debugcon cs @ map of_int (map uint (rev out))" using consputs_ok [OF assms(1)] by blast
  have "map of_int (map uint (rev out)) = rev out" by (simp add: comp_def)
  then show ?thesis using out cs'
    by (intro exI [of _ cs'] exI [of _ "rev out"]) (auto simp: printint_def hd_rev)
qed

definition empty_console :: console where
  "empty_console = vgacon_init \<lparr>panicked = False, locking = False, fb = [], width = 0, height = 0, cmode = CONS_VGA, crt = [],
     pos = 0, cursor_hi = 0, cursor_lo = 0, xpos = 0, ypos = 0, uart_exist = True, serial = [], debugcon = []\<rparr>"

lemma empty_console_ok: "cons_ok empty_console"
  by (simp add: empty_console_def vgacon_init_def cons_ok_def)

theorem printint_value_witness:
  "\<exists>cs' s. printint [] empty_console (- 1) 10 True False = Ok cs' \<and> debugcon cs' = debugcon empty_console @ s
     \<and> numeral_value 10 s = 18446744073709551615"
proof -
  have "unat (- 1 :: u64) = 18446744073709551615" by (simp add: unsigned_minus_1_eq_mask mask_eq_exp_minus_1)
  then show ?thesis using printint_value [OF empty_console_ok, of 10 "[]" "- 1" True False] by auto
qed

section \<open>Line editing\<close>

text \<open>
  The buffer as the bytes ready to be read and the line being edited. \<open>edit_char\<close> is the
  specification of \<open>consoleintr\<close>, \<open>read_bytes\<close> that of \<open>consoleread\<close>.
\<close>

definition ibytes :: "inbuf \<Rightarrow> u32 \<Rightarrow> nat \<Rightarrow> u8 list" where
  "ibytes inp i n = map (\<lambda>j. ibyte inp (i + of_nat j)) [0..<n]"

definition lines :: "inbuf \<Rightarrow> u8 list \<times> u8 list" where
  "lines inp = (ibytes inp (ir inp) (unat (iw inp - ir inp)), ibytes inp (iw inp) (unat (ie inp - iw inp)))"

definition inp_ok :: "inbuf \<Rightarrow> bool" where
  "inp_ok inp \<longleftrightarrow> length (ibuf inp) = 128 \<and> unat (iw inp - ir inp) + unat (ie inp - iw inp) \<le> 128
     \<and> 10 \<notin> set (snd (lines inp))"

definition edit_char :: "u8 list \<times> u8 list \<Rightarrow> int \<Rightarrow> u8 list \<times> u8 list" where
  "edit_char l c =
     (case l of (ready, line) \<Rightarrow>
       if c = 21 then (ready, [])
       else if c = 8 \<or> c = 127 then (ready, butlast line)
       else if c \<noteq> 0 \<and> length ready + length line < 128
       then let c = (if c = 13 then 10 else c); line = line @ [of_int c]
            in if c = 10 \<or> c = 4 \<or> length ready + length line = 128 then (ready @ line, []) else (ready, line)
       else (ready, line))"

lemma unat_index: "unat ((a + of_nat j) mod INPUT_BUF) = (unat a + j) mod 128"
proof -
  have "unat ((a + of_nat j) mod INPUT_BUF) = (unat a + j mod 4294967296) mod 4294967296 mod 128"
    by (simp add: INPUT_BUF_def unat_mod unat_word_ariths unat_of_nat)
  also have "\<dots> = (unat a + j mod 4294967296) mod 128" by (rule mod_mod_cancel) simp
  also have "\<dots> = (unat a + j mod 4294967296 mod 128) mod 128" by (simp add: mod_add_right_eq)
  also have "j mod 4294967296 mod 128 = j mod 128" by (rule mod_mod_cancel) simp
  finally show ?thesis by (simp add: mod_add_right_eq)
qed

lemma length_ibytes [simp]: "length (ibytes inp i n) = n"
  by (simp add: ibytes_def)

lemma ibytes_0 [simp]: "ibytes inp i 0 = []"
  by (simp add: ibytes_def)

lemma ibytes_Suc: "ibytes inp i (Suc n) = ibytes inp i n @ [ibyte inp (i + of_nat n)]"
  by (simp add: ibytes_def)

lemma ibytes_append: "ibytes inp i (m + n) = ibytes inp i m @ ibytes inp (i + of_nat m) n"
  by (induction n) (simp_all add: ibytes_Suc add.assoc)

lemma ibytes_indices [simp]:
  "ibytes (inp\<lparr>ie := e\<rparr>) i n = ibytes inp i n" "ibytes (inp\<lparr>iw := w\<rparr>) i n = ibytes inp i n"
  "ibytes (inp\<lparr>ir := r\<rparr>) i n = ibytes inp i n"
  "ibyte (inp\<lparr>ie := e\<rparr>) i = ibyte inp i" "ibyte (inp\<lparr>iw := w\<rparr>) i = ibyte inp i"
  "ibyte (inp\<lparr>ir := r\<rparr>) i = ibyte inp i"
  by (simp_all add: ibytes_def ibyte_def)

text \<open>Storing at \<open>i + m\<close> leaves the \<open>n\<close> bytes from \<open>i\<close> on alone if the array holds them all.\<close>

lemma ibytes_store:
  assumes "n \<le> m" "m < 128" "length (ibuf inp) = 128"
  shows "ibytes (inp\<lparr>ibuf := (ibuf inp)[unat ((i + of_nat m) mod INPUT_BUF) := v]\<rparr>) i n = ibytes inp i n"
    "ibyte (inp\<lparr>ibuf := (ibuf inp)[unat ((i + of_nat m) mod INPUT_BUF) := v]\<rparr>) (i + of_nat m) = v"
proof -
  have "(unat i + m) mod 128 \<noteq> (unat i + j) mod 128" if "j < n" for j
  proof
    assume "(unat i + m) mod 128 = (unat i + j) mod 128"
    from arg_cong [OF this, of int] have "int (unat i + m) mod 128 = int (unat i + j) mod 128"
      by (simp only: zmod_int of_nat_numeral)
    then have "(int m - int j) mod 128 = 0" by (simp add: mod_eq_dvd_iff)
    then show False using that assms(1,2) by (simp add: mod_pos_pos_trivial)
  qed
  then show "ibytes (inp\<lparr>ibuf := (ibuf inp)[unat ((i + of_nat m) mod INPUT_BUF) := v]\<rparr>) i n = ibytes inp i n"
    by (simp add: ibytes_def ibyte_def unat_index)
  show "ibyte (inp\<lparr>ibuf := (ibuf inp)[unat ((i + of_nat m) mod INPUT_BUF) := v]\<rparr>) (i + of_nat m) = v"
    using assms(3) by (simp add: ibyte_def unat_index)
qed

lemma ie_back:
  assumes "ie inp \<noteq> iw inp"
  shows "unat (ie inp - iw inp) = Suc (unat (ie inp - 1 - iw inp))"
    "ibyte inp (ie inp - 1) = last (snd (lines inp))"
    "lines (inp\<lparr>ie := ie inp - 1\<rparr>) = (fst (lines inp), butlast (snd (lines inp)))"
proof -
  have "ie inp - iw inp \<noteq> 0" using assms by simp
  then have "unat (ie inp - iw inp - 1) = unat (ie inp - iw inp) - 1" "0 < unat (ie inp - iw inp)"
    by (simp_all add: unat_minus_one unat_gt_0)
  then show u: "unat (ie inp - iw inp) = Suc (unat (ie inp - 1 - iw inp))" by (simp add: diff_diff_eq add.commute)
  show "ibyte inp (ie inp - 1) = last (snd (lines inp))"
    "lines (inp\<lparr>ie := ie inp - 1\<rparr>) = (fst (lines inp), butlast (snd (lines inp)))"
    by (simp_all add: lines_def u ibytes_Suc)
qed

lemma kill_line_ok:
  assumes "cons_ok cs" "10 \<notin> set (snd (lines inp))"
  shows "\<exists>cs'. kill_line font16 inp cs = Ok (inp\<lparr>ie := iw inp\<rparr>, cs') \<and> cons_ok cs'"
  using assms
proof (induction n \<equiv> "unat (ie inp - iw inp)" arbitrary: inp cs)
  case 0
  then have "ie inp = iw inp" by (simp add: unat_eq_zero)
  then show ?case using 0 by (subst kill_line.simps) simp
next
  case (Suc n)
  have ne: "ie inp \<noteq> iw inp" using Suc.hyps(2) by auto
  note b = ie_back [OF ne]
  have "snd (lines inp) \<noteq> []" using Suc.hyps(2) by (simp add: lines_def flip: length_0_conv)
  then have "ibyte inp (ie inp - 1) \<noteq> 10" using b(2) Suc.prems(2) last_in_set by metis
  moreover obtain c1 where "consputc font16 cs BACKSPACE = Ok c1" "cons_ok c1" using consputc_ok [OF Suc.prems(1)] by blast
  moreover have "\<exists>cs'. kill_line font16 (inp\<lparr>ie := ie inp - 1\<rparr>) c1
      = Ok ((inp\<lparr>ie := ie inp - 1\<rparr>)\<lparr>ie := iw (inp\<lparr>ie := ie inp - 1\<rparr>)\<rparr>, cs') \<and> cons_ok cs'"
    by (rule Suc.hyps(1)) (use Suc b calculation in \<open>auto dest: in_set_butlastD\<close>)
  ultimately show ?case using ne by (subst kill_line.simps) simp
qed

text \<open>A character that is stored.\<close>

lemma store_char:
  assumes ok: "inp_ok inp" and room: "ie inp - ir inp < INPUT_BUF"
    and inp': "inp' = inp\<lparr>ibuf := (ibuf inp)[unat (ie inp mod INPUT_BUF) := v], ie := ie inp + 1\<rparr>"
  shows "lines inp' = (fst (lines inp), snd (lines inp) @ [v])" "length (ibuf inp') = 128"
    "lines (inp'\<lparr>iw := ie inp'\<rparr>) = (fst (lines inp) @ snd (lines inp) @ [v], [])"
    "length (fst (lines inp)) + length (snd (lines inp)) < 128"
    "ie inp' = ir inp + INPUT_BUF \<longleftrightarrow> length (fst (lines inp)) + Suc (length (snd (lines inp))) = 128"
proof -
  define m where "m = unat (iw inp - ir inp)"
  define n where "n = unat (ie inp - iw inp)"
  have w: "iw inp = ir inp + of_nat m" and e: "ie inp = iw inp + of_nat n" by (simp_all add: m_def n_def)
  have le: "m + n \<le> 128" "length (ibuf inp) = 128" using ok by (auto simp: inp_ok_def m_def n_def)
  have er: "ie inp - ir inp = of_nat (m + n)" by (simp add: w e)
  have "unat (of_nat (m + n) :: u32) = m + n" using le(1) by (intro unat_of_nat_u32) simp
  then have lt: "m + n < 128" using room by (simp add: er word_less_nat_alt INPUT_BUF_def)
  then show "length (fst (lines inp)) + length (snd (lines inp)) < 128" by (simp add: lines_def m_def n_def)
  show "length (ibuf inp') = 128" using le by (simp add: inp')
  have e2: "ie inp = ir inp + of_nat (m + n)" by (simp add: w e)
  have u: "unat (ie inp' - iw inp') = Suc n" "unat (iw inp' - ir inp') = m" "unat (ie inp' - ir inp') = Suc (m + n)"
  proof -
    have "ie inp' - iw inp' = of_nat (Suc n)" "ie inp' - ir inp' = of_nat (Suc (m + n))" by (simp_all add: inp' w e)
    moreover have "unat (of_nat k :: u32) = k" if "k \<le> 128" for k using that by (intro unat_of_nat_u32) simp
    from this [of "Suc n"] this [of "Suc (m + n)"]
    have "unat (of_nat (Suc n) :: u32) = Suc n" "unat (of_nat (Suc (m + n)) :: u32) = Suc (m + n)"
      using lt by linarith+
    ultimately show "unat (ie inp' - iw inp') = Suc n" "unat (ie inp' - ir inp') = Suc (m + n)" by (simp_all only:)
    show "unat (iw inp' - ir inp') = m" by (simp add: inp' m_def)
  qed
  define b where "b = inp\<lparr>ibuf := (ibuf inp)[unat (ie inp mod INPUT_BUF) := v]\<rparr>"
  have i: "inp' = b\<lparr>ie := ie inp + 1\<rparr>" by (simp add: inp' b_def)
  have r: "ibytes b (ir inp) l = ibytes inp (ir inp) l" if "l \<le> m + n" for l
    unfolding b_def e2 by (rule ibytes_store(1)) (use that lt le in simp_all)
  have w': "ibytes b (iw inp) n = ibytes inp (iw inp) n"
    unfolding b_def e by (rule ibytes_store(1)) (use lt le in simp_all)
  have v: "ibyte b (ie inp) = v" unfolding b_def e by (rule ibytes_store(2) [of n]) (use lt le in simp_all)
  have f: "ir inp' = ir inp" "iw inp' = iw inp" by (simp_all add: inp')
  have l: "lines inp = (ibytes inp (ir inp) m, ibytes inp (iw inp) n)" by (simp add: lines_def m_def n_def)
  show "lines inp' = (fst (lines inp), snd (lines inp) @ [v])"
    using u r [of m] w' v by (simp add: lines_def [of inp'] l f) (simp add: i ibytes_Suc e)
  show "lines (inp'\<lparr>iw := ie inp'\<rparr>) = (fst (lines inp) @ snd (lines inp) @ [v], [])"
    using u r [of "m + n"] v
    by (simp add: lines_def [of "inp'\<lparr>iw := ie inp'\<rparr>"] l f) (simp add: i ibytes_Suc e w ibytes_append add.assoc)
  have "ie inp' = ir inp + INPUT_BUF \<longleftrightarrow> unat (ie inp' - ir inp') = unat INPUT_BUF"
    by (metis add_diff_cancel_left' diff_add_cancel f(1) add.commute word_unat_eq_iff)
  then show "ie inp' = ir inp + INPUT_BUF \<longleftrightarrow> length (fst (lines inp)) + Suc (length (snd (lines inp))) = 128"
    using u by (simp add: l INPUT_BUF_def)
qed

lemma inp_ok_lines:
  "inp_ok inp \<longleftrightarrow> length (ibuf inp) = 128 \<and> length (fst (lines inp)) + length (snd (lines inp)) \<le> 128
     \<and> 10 \<notin> set (snd (lines inp))"
  by (simp add: inp_ok_def lines_def)

lemma room_iff:
  assumes "inp_ok inp"
  shows "ie inp - ir inp < INPUT_BUF \<longleftrightarrow> length (fst (lines inp)) + length (snd (lines inp)) < 128"
proof -
  let ?n = "unat (iw inp - ir inp) + unat (ie inp - iw inp)"
  have "ie inp - ir inp = of_nat ?n" by simp
  moreover have "unat (of_nat ?n :: u32) = ?n" using assms by (intro unat_of_nat_u32) (simp add: inp_ok_def)
  ultimately have "unat (ie inp - ir inp) = ?n" by (simp only:)
  then show ?thesis by (simp add: word_less_nat_alt INPUT_BUF_def lines_def)
qed

lemma uint_byte: "0 \<le> c \<Longrightarrow> c < 256 \<Longrightarrow> uint (of_int c :: u8) = c"
  by (simp add: unsigned_of_int take_bit_int_eq_self)

lemma byte_newline:
  assumes "0 \<le> c" "c < 256"
  shows "of_int c = (10 :: u8) \<longleftrightarrow> c = 10"
proof
  assume "of_int c = (10 :: u8)"
  then have "uint (of_int c :: u8) = uint (10 :: u8)" by (simp only:)
  then show "c = 10" using uint_byte [OF assms] by simp
qed simp

lemma consoleintr_char_ok:
  assumes ok: "inp_ok inp" "cons_ok cs" and c: "0 \<le> c" "c < 256"
  shows "\<exists>w inp' cs'. consoleintr_char font16 (inp, cs) c = Ok (w, inp', cs') \<and> inp_ok inp' \<and> cons_ok cs'
    \<and> lines inp' = edit_char (lines inp) c \<and> (fst (lines inp') \<noteq> fst (lines inp) \<longrightarrow> w)"
proof -
  obtain ready line where l: "lines inp = (ready, line)" by (cases "lines inp")
  have nl: "10 \<notin> set line" "length (ibuf inp) = 128" "length ready + length line \<le> 128"
    using ok(1) by (simp_all add: inp_ok_lines l)
  obtain bk where bk: "consputc font16 cs BACKSPACE = Ok bk" "cons_ok bk" using consputc_ok [OF ok(2)] by blast
  consider "c = 21" | "c = 8 \<or> c = 127" | "c \<noteq> 21" "\<not> (c = 8 \<or> c = 127)" by blast
  then show ?thesis
  proof cases
    case 1
    have "lines (inp\<lparr>ie := iw inp\<rparr>) = (ready, [])" using l by (simp add: lines_def)
    then show ?thesis using 1 kill_line_ok [OF ok(2), of inp font16] nl l
      by (auto simp: consoleintr_char_def edit_char_def inp_ok_lines)
  next
    case 2
    show ?thesis
    proof (cases "ie inp = iw inp")
      case True
      then have "line = []" using l by (auto simp: lines_def)
      then show ?thesis using 2 True ok l by (auto simp: consoleintr_char_def edit_char_def)
    next
      case False
      have "lines (inp\<lparr>ie := ie inp - 1\<rparr>) = (ready, butlast line)" using ie_back(3) [OF False] l by simp
      then show ?thesis using 2 False bk nl l
        by (auto simp: consoleintr_char_def edit_char_def inp_ok_lines dest: in_set_butlastD)
    qed
  next
    case 3
    define d where "d = (if c = 13 then 10 else c)"
    have d: "0 \<le> d" "d < 256" using c by (simp_all add: d_def)
    show ?thesis
    proof (cases "c \<noteq> 0 \<and> ie inp - ir inp < INPUT_BUF")
      case False
      then show ?thesis using 3 ok l room_iff [OF ok(1)] by (auto simp: consoleintr_char_def edit_char_def)
    next
      case True
      define inp' where "inp' = inp\<lparr>ibuf := (ibuf inp)[unat (ie inp mod INPUT_BUF) := of_int d], ie := ie inp + 1\<rparr>"
      note st = store_char [OF ok(1) conjunct2 [OF True] inp'_def, unfolded l fst_conv snd_conv]
      obtain cs' where cs': "consputc font16 cs d = Ok cs'" "cons_ok cs'" using consputc_ok [OF ok(2)] by blast
      have ten: "of_int d = (10 :: u8) \<longleftrightarrow> d = 10"
        by (rule byte_newline [OF d])
      have ir: "ir inp' = ir inp" by (simp add: inp'_def)
      define commit where "commit = (d = 10 \<or> d = 4 \<or> ie inp' = ir inp' + INPUT_BUF)"
      have m: "consoleintr_char font16 (inp, cs) c
          = (if commit then Ok (True, inp'\<lparr>iw := ie inp'\<rparr>, cs') else Ok (False, inp', cs'))"
        using 3 True cs'(1) by (simp add: consoleintr_char_def Let_def commit_def inp'_def flip: d_def)
      have e: "edit_char (ready, line) c
          = (if commit then (ready @ line @ [of_int d], []) else (ready, line @ [of_int d]))"
        using 3 True st(4,5) by (simp add: edit_char_def Let_def commit_def ir flip: d_def)
      show ?thesis
      proof (cases commit)
        case True
        then show ?thesis using m e st(2-4) cs'(2) l by (auto simp: inp_ok_lines)
      next
        case False
        then have "d \<noteq> 10" by (auto simp: commit_def)
        then show ?thesis using False m e st(1,2,4) cs'(2) l nl(1) ten by (auto simp: inp_ok_lines)
      qed
    qed
  qed
qed

lemma consoleintr_ok:
  assumes "inp_ok inp" "cons_ok cs" "\<forall>c \<in> set chars. 0 \<le> c \<and> c < 256"
  shows "\<exists>w inp' cs'. consoleintr font16 (inp, cs) chars = Ok (w, inp', cs') \<and> inp_ok inp' \<and> cons_ok cs'
    \<and> lines inp' = foldl edit_char (lines inp) chars \<and> (fst (lines inp') \<noteq> fst (lines inp) \<longrightarrow> w)"
  using assms
proof (induction chars arbitrary: inp cs)
  case (Cons c chars)
  have c: "0 \<le> c" "c < 256" using Cons.prems(3) by auto
  obtain w i1 c1 where 1: "consoleintr_char font16 (inp, cs) c = Ok (w, i1, c1)" "inp_ok i1" "cons_ok c1"
    "lines i1 = edit_char (lines inp) c" "fst (lines i1) \<noteq> fst (lines inp) \<longrightarrow> w"
    using consoleintr_char_ok [OF Cons.prems(1,2) c] by blast
  obtain w' i2 c2 where 2: "consoleintr font16 (i1, c1) chars = Ok (w', i2, c2)" "inp_ok i2" "cons_ok c2"
    "lines i2 = foldl edit_char (lines i1) chars" "fst (lines i2) \<noteq> fst (lines i1) \<longrightarrow> w'"
    using Cons.IH [OF 1(2,3)] Cons.prems(3) by auto
  show ?case using 1 2 c by auto
qed (auto intro: exI [of _ False])

text \<open>Reading a line that is ready.\<close>

lemma ibytes_Cons: "ibytes inp i (Suc n) = ibyte inp i # ibytes inp (i + 1) n"
  using ibytes_append [of inp i 1 n] by (simp add: ibytes_Suc [of _ _ 0])

lemma ir_step:
  assumes "fst (lines inp) = b # bs"
  shows "ir inp \<noteq> iw inp" "ibyte inp (ir inp) = b" "lines (inp\<lparr>ir := ir inp + 1\<rparr>) = (bs, snd (lines inp))"
proof -
  have "length (fst (lines inp)) = unat (iw inp - ir inp)" by (simp add: lines_def)
  then have n: "unat (iw inp - ir inp) = Suc (length bs)" using assms by simp
  then show "ir inp \<noteq> iw inp" by auto
  have "iw inp - ir inp \<noteq> 0" using n by auto
  then have "unat (iw inp - ir inp - 1) = length bs" using n by (simp add: unat_minus_one)
  then have "unat (iw inp - (ir inp + 1)) = length bs" by (simp add: diff_diff_eq)
  then show "ibyte inp (ir inp) = b" "lines (inp\<lparr>ir := ir inp + 1\<rparr>) = (bs, snd (lines inp))"
    using assms n by (simp_all add: lines_def ibytes_Cons)
qed

lemma consoleread_line:
  assumes "fst (lines inp) = line @ 10 # rest" "4 \<notin> set line" "10 \<notin> set line" "length line < n"
  shows "\<exists>inp'. consoleread_loop killed target n dst inp
      = ReadDone (sint (target - of_nat (n - length line - 1))) (dst @ line @ [10]) inp' \<and> lines inp' = (rest, snd (lines inp))
      \<and> ibuf inp' = ibuf inp"
  using assms
proof (induction line arbitrary: inp n dst)
  case Nil
  then obtain k where k: "n = Suc k" by (cases n) auto
  show ?case using ir_step [of inp 10 rest] Nil(1) by (simp add: k Let_def)
next
  case (Cons b line)
  obtain k where k: "n = Suc k" using Cons.prems(4) by (cases n) auto
  note r = ir_step [of inp b "line @ 10 # rest"]
  have "\<exists>inp'. consoleread_loop killed target k (dst @ [b]) (inp\<lparr>ir := ir inp + 1\<rparr>)
      = ReadDone (sint (target - of_nat (k - length line - 1))) ((dst @ [b]) @ line @ [10]) inp'
      \<and> lines inp' = (rest, snd (lines (inp\<lparr>ir := ir inp + 1\<rparr>))) \<and> ibuf inp' = ibuf (inp\<lparr>ir := ir inp + 1\<rparr>)"
    by (rule Cons.IH) (use Cons.prems r k in auto)
  then show ?case using r Cons.prems k by (auto simp: Let_def)
qed

text \<open>What an edited line is: the specification of the special keys.\<close>

definition edit_line :: "u8 list \<Rightarrow> int \<Rightarrow> u8 list" where
  "edit_line line c = (if c = 21 then [] else if c = 8 \<or> c = 127 then butlast line else if c = 0 then line
     else line @ [of_int c])"

lemma edit_chars:
  assumes "\<forall>c \<in> set chars. c \<notin> {4, 10, 13}" "length line + length chars < 128"
  shows "foldl edit_char ([], line) chars = ([], foldl edit_line line chars)
    \<and> length (foldl edit_line line chars) \<le> length line + length chars"
  using assms
proof (induction chars arbitrary: line)
  case (Cons c chars)
  have e: "edit_char ([], line) c = ([], edit_line line c)" "length (edit_line line c) \<le> Suc (length line)"
  proof -
    have "c \<noteq> 4" "c \<noteq> 10" "c \<noteq> 13" "length line < 127" using Cons.prems by auto
    then show "edit_char ([], line) c = ([], edit_line line c)" "length (edit_line line c) \<le> Suc (length line)"
      by (simp_all add: edit_char_def edit_line_def le_SucI)
  qed
  have "length (edit_line line c) + length chars < 128" using e(2) Cons.prems(2) by simp
  then show ?case using Cons.IH [of "edit_line line c"] Cons.prems(1) e by simp
qed simp

lemma edit_line_bytes:
  assumes "\<forall>c \<in> set chars. 0 \<le> c \<and> c < 256 \<and> c \<notin> {4, 10, 13}" "4 \<notin> set line" "10 \<notin> set line"
  shows "4 \<notin> set (foldl edit_line line chars) \<and> 10 \<notin> set (foldl edit_line line chars)"
  using assms
proof (induction chars arbitrary: line)
  case (Cons c chars)
  have "of_int c \<noteq> (10 :: u8)" "of_int c \<noteq> (4 :: u8)" using byte_newline [of c] Cons.prems(1) uint_byte [of c] by auto
  then have "4 \<notin> set (edit_line line c)" "10 \<notin> set (edit_line line c)"
    using Cons.prems(2,3) by (auto simp: edit_line_def dest: in_set_butlastD)
  then show ?case using Cons by simp
qed simp

lemma sint_small: "- (2 ^ 31) \<le> k \<Longrightarrow> k < 2 ^ 31 \<Longrightarrow> sint (of_int k :: u32) = k"
  by (simp add: signed_of_int signed_take_bit_int_eq_self)


definition empty_input :: inbuf where
  "empty_input = \<lparr>ibuf = replicate 128 0, ir = 0, iw = 0, ie = 0\<rparr>"

lemma empty_input_ok: "inp_ok empty_input" "lines empty_input = ([], [])"
  by (simp_all add: empty_input_def inp_ok_def lines_def)


section \<open>Bounds of the two screens\<close>

text \<open>
  C30. Output to the text screen never panics and never leaves the screen. Whatever is written, the
  cursor stays on the first 24 rows, so the test for underflow and overflow never fires, and every
  byte reaches the serial port and the debug port.
\<close>

theorem consolewrite_total:
  assumes "cons_ok cs"
  shows "\<exists>cs'. consolewrite font16 cs buf n = Ok (n, cs') \<and> cons_ok cs'
    \<and> debugcon cs' = debugcon cs @ map buf [0..<nat n]
    \<and> (uart_exist cs \<longrightarrow> serial cs' = serial cs @ map buf [0..<nat n])"
proof -
  have "\<exists>cs'. consolewrite_loop font16 cs bs = Ok cs' \<and> cons_ok cs' \<and> debugcon cs' = debugcon cs @ bs
      \<and> uart_exist cs' = uart_exist cs \<and> (uart_exist cs \<longrightarrow> serial cs' = serial cs @ bs)" for bs
    using assms
  proof (induction bs arbitrary: cs)
    case (Cons b bs)
    have "uint b \<noteq> BACKSPACE" using unsigned_less [of b, where ?'a = int] by (simp add: BACKSPACE_def)
    with consputc_ok [OF Cons.prems, of font16 "uint b"] obtain c1 where
      "consputc font16 cs (uint b) = Ok c1" "cons_ok c1" "debugcon c1 = debugcon cs @ [b]" "uart_exist c1 = uart_exist cs"
      "uart_exist cs \<longrightarrow> serial c1 = serial cs @ [b]" by auto
    then show ?case using Cons.IH [of c1] by auto
  qed simp
  from this [of "map buf [0..<nat n]"] show ?thesis by (auto simp: consolewrite_def)
qed

theorem consolewrite_total_witness:
  "\<exists>cs'. consolewrite [] empty_console (\<lambda>i. 10) 100 = Ok (100, cs') \<and> cons_ok cs'"
  using consolewrite_total [OF empty_console_ok, of "[]" "\<lambda>i. 10" 100] by auto

lemma fastmemcpy32_cases:
  "fastmemcpy32 px d s is = Fault \<or> (\<exists>px'. fastmemcpy32 px d s is = Ok px' \<and> length px' = length px)"
proof (induction "is" arbitrary: px)
  case (Cons i "is")
  show ?case using Cons.IH [of "px[nat (uint d + int i) := px ! nat (uint s + int i)]"]
    by (simp add: arr_def arr_set_def)
qed simp

lemma fb_scroll_rows_cases:
  "fb_scroll_rows w px is = Fault \<or> (\<exists>px'. fb_scroll_rows w px is = Ok px' \<and> length px' = length px)"
proof (induction "is" arbitrary: px)
  case (Cons i "is")
  from fastmemcpy32_cases [of px "of_nat i * w * 16" "(of_nat i + 1) * w * 16" "[0..<unat (w * 16)]"]
  show ?case
  proof (elim disjE exE conjE)
    fix px' assume "fastmemcpy32 px (of_nat i * w * 16) ((of_nat i + 1) * w * 16) [0..<unat (w * 16)] = Ok px'"
      "length px' = length px"
    then show ?case using Cons.IH [of px'] by simp
  qed simp
qed simp

lemma fb_scroll_rows_append:
  "fb_scroll_rows w px (is @ js) = kbind (fb_scroll_rows w px is) (\<lambda>px. fb_scroll_rows w px js)"
  by (induction "is" arbitrary: px) (simp_all add: kbind_assoc)

text \<open>
  C31. Scrolling the frame buffer reads past its end. On a screen whose height is a whole number of
  text rows, a newline on the last row copies to that row from the sixteen pixel rows after it,
  which are outside the frame buffer.
\<close>

theorem fb_scroll_reads_outside:
  assumes "0 < width cs" "0 < height cs" "height cs mod 16 = 0" "unat (width cs) * unat (height cs) < 2 ^ 28"
    and "length (fb cs) = unat (width cs) * unat (height cs)" "height cs div 16 \<le> ypos cs + 1"
  shows "fb_newline cs = Fault"
proof -
  let ?w = "unat (width cs)" and ?r = "unat (height cs div 16)"
  have "unat (height cs mod 16) = 0" using assms(3) by simp
  then have "unat (height cs) mod 16 = 0" "?r = unat (height cs) div 16" by (simp_all add: unat_div unat_mod)
  then have h: "unat (height cs) = ?r * 16" by (metis div_mult_mod_eq add.right_neutral)
  have r: "0 < ?r" using h assms(2) by (metis mult_zero_left neq0_conv unat_gt_0 word_greater_zero_iff)
  have small: "?w * 16 * ?r < 2 ^ 32" using assms(4) h by simp
  have s: "unat ((of_nat (?r - 1) + 1) * width cs * 16) = length (fb cs)"
  proof -
    have "(of_nat (?r - 1) + 1 :: u32) * width cs * 16 = of_nat (?r * ?w * 16)"
      using r by (simp add: of_nat_diff)
    moreover have "?r * ?w * 16 < 2 ^ 32" using small by (simp add: ac_simps)
    ultimately have "unat ((of_nat (?r - 1) + 1) * width cs * 16) = ?r * ?w * 16" by (simp only: unat_of_nat_u32)
    then show ?thesis using assms(5) h by simp
  qed
  have "?w * 16 * 1 \<le> ?w * 16 * ?r" using r by (intro mult_le_mono2) simp
  from le_less_trans [OF this small] have "?w * 16 < 4294967296" by simp
  then have w16: "unat (width cs * 16) = ?w * 16" by (simp add: unat_word_ariths)
  have last: "fb_scroll_rows (width cs) px [?r - 1] = Fault" if "length px = length (fb cs)" for px
  proof -
    have "[0..<unat (width cs * 16)] = 0 # [1..<unat (width cs * 16)]"
      using assms(1) by (simp add: w16 upt_rec word_greater_zero_iff unat_gt_0)
    moreover have "uint ((of_nat (?r - 1) + 1) * width cs * 16) = int (length px)"
      using arg_cong [OF s, of int] that by simp
    ultimately show ?thesis by (simp add: arr_def)
  qed
  have "[0..<?r] = [0..<?r - 1] @ [?r - 1]" using r by (metis Suc_pred' upt_Suc_append zero_le)
  then have "fb_scroll_rows (width cs) (fb cs) [0..<?r] = Fault"
    using fb_scroll_rows_cases [of "width cs" "fb cs" "[0..<?r - 1]"] last
    by (auto simp only: fb_scroll_rows_append kbind_simps)
  then show ?thesis using assms(6) by (simp add: fb_newline_def)
qed

theorem fb_scroll_reads_outside_witness:
  "fb_newline (empty_console\<lparr>cmode := CONS_FB, width := 8, height := 16, fb := replicate 128 0\<rparr>) = Fault"
  by (rule fb_scroll_reads_outside) (simp_all add: empty_console_def vgacon_init_def)

end
