(* ===== verification/Initramfs.thy ===== *)
theory Initramfs
  imports Kernel_Bytes
begin

text \<open>
  The initial RAM file system, \<^verbatim>\<open>kernel/filesystem/initramfs\<close>: a cpio archive in the old binary format
  that the boot loader leaves at \<open>INITRAMFS_BASE\<close>. Searching it by name, listing it, and reading
  from its files. Nothing here checks the archive, so a search is a loop that may not end.
\<close>

section \<open>The archive (initramfs.h)\<close>

definition INITRAMFS_BASE :: u32 where "INITRAMFS_BASE = 0x80400000"

text \<open>The fields of \<^verbatim>\<open>struct cpio_binary_header\<close> the code reads, at their offsets; the size is 26.\<close>

definition cpio_magic :: "mem \<Rightarrow> u32 \<Rightarrow> u16" where "cpio_magic m p = load16 m p"
definition cpio_mode :: "mem \<Rightarrow> u32 \<Rightarrow> u16" where "cpio_mode m p = load16 m (p + 6)"
definition cpio_namesize :: "mem \<Rightarrow> u32 \<Rightarrow> u32" where "cpio_namesize m p = ucast (load16 m (p + 20))"
definition cpio_filesize0 :: "mem \<Rightarrow> u32 \<Rightarrow> u32" where "cpio_filesize0 m p = ucast (load16 m (p + 22))"
definition cpio_filesize1 :: "mem \<Rightarrow> u32 \<Rightarrow> u32" where "cpio_filesize1 m p = ucast (load16 m (p + 24))"

definition cpio_filesize :: "mem \<Rightarrow> u32 \<Rightarrow> u32" where
  "cpio_filesize m p = push_bit 16 (cpio_filesize0 m p) OR cpio_filesize1 m p"

definition cpio_size :: u32 where "cpio_size = 26"

definition cpio_next :: "mem \<Rightarrow> u32 \<Rightarrow> u32" where
  "cpio_next m p = p + cpio_size + cpio_namesize m p + cpio_filesize m p + cpio_namesize m p mod 2
     + cpio_filesize1 m p mod 2"

partial_function (option) initramfs_search_loop :: "mem \<Rightarrow> u32 \<Rightarrow> u8 list \<Rightarrow> u32 option" where
  "initramfs_search_loop m cpio filename =
     (if strncmp_mem m (cpio + cpio_size) (bytes_of ''TRAILER!!!'') 11 \<noteq> 0
      then if strncmp_mem m (cpio + cpio_size) filename 64 = 0 then Some cpio
           else initramfs_search_loop m (cpio_next m cpio) filename
      else Some 0)"

definition initramfs_search :: "mem \<Rightarrow> u8 list \<Rightarrow> u32 kres" where
  "initramfs_search m filename = of_loop (initramfs_search_loop m INITRAMFS_BASE filename)"

section \<open>Operations\<close>

definition initramfs_dir_open :: "mem \<Rightarrow> int" where
  "initramfs_dir_open m = (if cpio_magic m INITRAMFS_BASE \<noteq> 0x71c7 then ERROR_INVAILD else 0)"

definition initramfs_dir_read :: "mem \<Rightarrow> u32 \<Rightarrow> u32 \<Rightarrow> int \<times> mem" where
  "initramfs_dir_read m ino name =
     (if cpio_magic m INITRAMFS_BASE \<noteq> 0x71c7 then (ERROR_INVAILD, m)
      else let cpio = INITRAMFS_BASE + ino
           in if strncmp_mem m (cpio + cpio_size) (bytes_of ''TRAILER!!!'') 11 = 0 then (0, m)
              else let m' = strncpy m name (cpio + cpio_size) 64
                   in (sint (cpio_next m' (INITRAMFS_BASE + ino) - INITRAMFS_BASE), m'))"

definition initramfs_init :: "mem \<Rightarrow> int" where
  "initramfs_init m = (if cpio_magic m INITRAMFS_BASE = 0x71c7 then 0 else ERROR_NOT_EXIST)"

definition initramfs_file_get_size :: "mem \<Rightarrow> u8 list \<Rightarrow> int kres" where
  "initramfs_file_get_size m filename =
     kbind (initramfs_search m filename) (\<lambda>cpio.
       Ok (if cpio = 0 then ERROR_NOT_EXIST else sint (cpio_filesize m cpio)))"

definition initramfs_open :: "mem \<Rightarrow> u8 list \<Rightarrow> int kres" where
  "initramfs_open m filename =
     kbind (initramfs_search m filename) (\<lambda>cpio.
       Ok (if cpio = 0 then ERROR_NOT_EXIST else sint (cpio - INITRAMFS_BASE)))"

definition initramfs_read :: "mem \<Rightarrow> u32 \<Rightarrow> u32 \<Rightarrow> u32 \<Rightarrow> u32 \<Rightarrow> int \<times> mem" where
  "initramfs_read m block buf offset sz =
     (let cpio = INITRAMFS_BASE + block;
          data = cpio + cpio_size + cpio_namesize m cpio + cpio_namesize m cpio mod 2;
          copysize = (if offset + sz > cpio_filesize m cpio then cpio_filesize m cpio - offset else sz)
      in if copysize \<le> 0 then (0, m)
         else (sint copysize, memmove m buf (data + offset) copysize))"

definition initramfs_file_get_mode :: "mem \<Rightarrow> u8 list \<Rightarrow> int kres" where
  "initramfs_file_get_mode m filename =
     kbind (initramfs_search m filename) (\<lambda>cpio.
       Ok (if cpio = 0 then ERROR_NOT_EXIST else uint (cpio_mode m cpio)))"

section \<open>Well-formed archives\<close>

text \<open>
  An archive as the list of its files, each a name and the contents: the headers give the sizes,
  the names are not longer than the search compares, and the trailer ends the list.
\<close>

definition cpio_data :: "mem \<Rightarrow> u32 \<Rightarrow> u32" where
  "cpio_data m p = p + cpio_size + cpio_namesize m p + cpio_namesize m p mod 2"

definition entry_at :: "mem \<Rightarrow> u32 \<Rightarrow> u8 list \<Rightarrow> u8 list \<Rightarrow> bool" where
  "entry_at m p name data \<longleftrightarrow> p \<noteq> 0 \<and> length name < 64 \<and> 0 \<notin> set name \<and> name \<noteq> bytes_of ''TRAILER!!!''
     \<and> mbytes m (p + cpio_size) (Suc (length name)) = name @ [0]
     \<and> unat (cpio_filesize m p) = length data \<and> mbytes m (cpio_data m p) (length data) = data
     \<and> unat (cpio_data m p) + length data \<le> 2 ^ 32"

fun archive :: "mem \<Rightarrow> u32 \<Rightarrow> (u8 list \<times> u8 list) list \<Rightarrow> bool" where
  "archive m p [] \<longleftrightarrow> mbytes m (p + cpio_size) 11 = bytes_of ''TRAILER!!!'' @ [0]"
| "archive m p ((name, data) # es) \<longleftrightarrow> entry_at m p name data \<and> archive m (cpio_next m p) es"

lemma trailer: "bytes_of ''TRAILER!!!'' = [84, 82, 65, 73, 76, 69, 82, 33, 33, 33]"
  by (simp add: bytes_of_def of_char_of)

text \<open>The comparisons of the search at an entry.\<close>

lemma search_compares:
  assumes "entry_at m p name data"
  shows "strncmp_mem m (p + cpio_size) (bytes_of ''TRAILER!!!'') 11 \<noteq> 0"
    "0 \<notin> set fn \<Longrightarrow> length fn < 64 \<Longrightarrow> strncmp_mem m (p + cpio_size) fn 64 = 0 \<longleftrightarrow> name = fn"
proof -
  have c: "cname n (mbytes m (p + cpio_size) n) = take n name" for n
    using assms by (intro cname_mbytes) (simp_all add: entry_at_def)
  have "take 11 name \<noteq> bytes_of ''TRAILER!!!''"
  proof
    assume t: "take 11 name = bytes_of ''TRAILER!!!''"
    then have "length (take 11 name) = 10" by (simp add: trailer)
    then have "take 11 name = name" by simp
    then show False using t assms by (simp add: entry_at_def)
  qed
  then show "strncmp_mem m (p + cpio_size) (bytes_of ''TRAILER!!!'') 11 \<noteq> 0"
    by (simp add: strncmp_mem_def strncmp_str_cname c) (simp add: cname_def trailer)
  assume fn: "0 \<notin> set fn" "length fn < 64"
  then have "cname 64 fn = fn" by (auto simp: cname_def takeWhile_eq_all_conv)
  moreover have "take 64 name = name" using assms by (simp add: entry_at_def)
  ultimately show "strncmp_mem m (p + cpio_size) fn 64 = 0 \<longleftrightarrow> name = fn"
    by (simp add: strncmp_mem_def strncmp_str_cname c)
qed

lemma search_end: "archive m p [] \<Longrightarrow> strncmp_mem m (p + cpio_size) (bytes_of ''TRAILER!!!'') 11 = 0"
  by (simp add: strncmp_mem_def strncmp_str_cname cname_def trailer)

lemma search_loop_ok:
  assumes "archive m p es" "0 \<notin> set fn" "length fn < 64"
  shows "case map_of es fn of
      None \<Rightarrow> initramfs_search_loop m p fn = Some 0
    | Some data \<Rightarrow> \<exists>q. initramfs_search_loop m p fn = Some q \<and> entry_at m q fn data"
  using assms(1)
proof (induction es arbitrary: p)
  case Nil
  then show ?case using search_end [OF Nil] by (subst initramfs_search_loop.simps) simp
next
  case (Cons e es)
  obtain name data where e: "e = (name, data)" by (cases e)
  have at: "entry_at m p name data" "archive m (cpio_next m p) es" using Cons.prems e by simp_all
  note c = search_compares(1) [OF at(1)] search_compares(2) [OF at(1) assms(2,3)]
  show ?case
  proof (cases "name = fn")
    case True
    then have "initramfs_search_loop m p fn = Some p" using c by (subst initramfs_search_loop.simps) simp
    then show ?thesis using True at(1) e by auto
  next
    case False
    then have "initramfs_search_loop m p fn = initramfs_search_loop m (cpio_next m p) fn"
      using c by (subst initramfs_search_loop.simps) simp
    then show ?thesis using False Cons.IH [OF at(2)] e by (simp split: option.splits)
  qed
qed


text \<open>An archive with one file \<^verbatim>\<open>a\<close> that holds \<^verbatim>\<open>hi\<close>.\<close>

definition small_archive :: mem where
  "small_archive p = (let bs = [0xc7, 0x71] @ replicate 18 0 @ [2, 0, 0, 0, 2, 0] @ [97, 0] @ [104, 105] @ replicate 26 0
       @ bytes_of ''TRAILER!!!'' @ [0]; i = unat (p - INITRAMFS_BASE)
     in if i < length bs then bs ! i else 0)"

lemma small_archive_ok: "archive small_archive INITRAMFS_BASE [([97], [104, 105])]"
proof -
  have n: "cpio_namesize small_archive INITRAMFS_BASE = 2" "cpio_filesize0 small_archive INITRAMFS_BASE = 0"
    "cpio_filesize1 small_archive INITRAMFS_BASE = 2"
    by (simp_all add: cpio_namesize_def cpio_filesize0_def cpio_filesize1_def load16_def small_archive_def Let_def
      trailer INITRAMFS_BASE_def nth_append nth_Cons')
  then have "cpio_data small_archive INITRAMFS_BASE = INITRAMFS_BASE + 28"
    "cpio_next small_archive INITRAMFS_BASE = INITRAMFS_BASE + 30"
    "cpio_filesize small_archive INITRAMFS_BASE = 2"
    by (simp_all add: cpio_data_def cpio_next_def cpio_filesize_def cpio_size_def)
  then show ?thesis
    by (simp add: entry_at_def cpio_size_def mbytes_def upt_rec small_archive_def Let_def trailer INITRAMFS_BASE_def nth_append nth_Cons')
qed


end
