(* ===== verification/Sysargs.thy ===== *)
theory Sysargs
  imports Exec Console Pty Kcall
begin

text \<open>
  What the system calls share: the state they work on, the kernel's accesses to the memory of the
  calling process, and the fetching of arguments (\<^verbatim>\<open>kernel/proc/syscall/syscall.c\<close>, \<open>fetchint\<close> to
  \<open>argstr\<close>).

  The kernel follows pointers of the process directly, through the page table of the process. An
  access to a page that is not mapped, or a write to one that is mapped read-only (\<^verbatim>\<open>CR0.WP\<close> is set in
  \<^verbatim>\<open>arch/x86/entry.S\<close>), is a page fault in kernel mode, which \<open>trap\<close> answers with \<^verbatim>\<open>panic("trap")\<close>.
\<close>

section \<open>The state\<close>

text \<open>
  The kernel of \<open>Proc\<close> with the tick counter, the pseudo terminals, the console with its input
  buffer and the list of modules.
\<close>

record ('p, 's) sys =
  kern :: "('p, 's) kernel"
  kticks :: u32
  ptys :: "PseudoTerminal list"
  screen :: console
  kinput :: inbuf
  modules :: "ModuleInfo list"

text \<open>
  Code and data outside the model: the font, the table of kernel calls, what the entry point of a
  loaded module does, what a device interrupt does, and the number and the fault address register of the CPU.
\<close>

record ('p, 's) sysenv =
  sys_font :: "u8 list"
  sys_kcalls :: "(u32 \<Rightarrow> ('p, 's) sys \<Rightarrow> int \<times> ('p, 's) sys) kcall_entry list"
  sys_module_entry :: "u32 \<Rightarrow> ('p, 's) sys \<Rightarrow> ('p, 's) sys kres"
  sys_device_intr :: "u32 \<Rightarrow> ('p, 's) sys \<Rightarrow> ('p, 's) sys kres"
  sys_cpuid :: nat
  sys_cr2 :: u32

text \<open>
  A call returns a value, puts its process to sleep, or ends it. A sleeping call is the place it
  sleeps in with its local variables: \<open>wait\<close>; \<open>sys_sleep\<close> with \<^verbatim>\<open>ticks0\<close> and \<^verbatim>\<open>n\<close>; \<open>sys_message_wait\<close> with
  its buffer; \<open>consoleread\<close> with \<^verbatim>\<open>dst\<close>, \<^verbatim>\<open>target\<close> and \<^verbatim>\<open>n\<close>; \<open>pty_read\<close> with its arguments.
\<close>

datatype blocked =
    InWait
  | InSleep u32 int
  | InMessageWait u32
  | InConsoleRead u32 u32 nat
  | InPtyRead int u32 int

datatype sysret = Ret int | Block blocked | Exited

type_synonym ('p, 's) handler = "nat \<Rightarrow> ('p, 's) sys \<Rightarrow> (sysret \<times> ('p, 's) sys) kres"

section \<open>Memory of the process\<close>

text \<open>
  \<open>cur\<close> is \<^verbatim>\<open>myproc()\<close>. The byte at a virtual address, several of them, a 32-bit word; the byte is
  read and written in the frame the page table gives.
\<close>

definition writable :: "u64 \<Rightarrow> bool" where
  "writable e \<longleftrightarrow> present e \<and> e AND ucast PTE_W \<noteq> 0"

definition ufetch :: "('p, 's) kernel \<Rightarrow> nat \<Rightarrow> u32 \<Rightarrow> u8 kres" where
  "ufetch k cur va =
     (let m = ram (kmem k); pd = pgdir (proc_at k cur)
      in if present (pmap m pd va) then Ok (uread m pd va) else Panic ''trap'')"

primrec ubytes :: "('p, 's) kernel \<Rightarrow> nat \<Rightarrow> u32 \<Rightarrow> nat \<Rightarrow> u8 list kres" where
  "ubytes k cur va 0 = Ok []"
| "ubytes k cur va (Suc n) =
     kbind (ufetch k cur va) (\<lambda>b. kbind (ubytes k cur (va + 1) n) (\<lambda>bs. Ok (b # bs)))"

definition uword :: "('p, 's) kernel \<Rightarrow> nat \<Rightarrow> u32 \<Rightarrow> u32 kres" where
  "uword k cur va = kbind (ubytes k cur va 4) (\<lambda>bs. Ok (le32 bs 0))"

definition ustore :: "('p, 's) kernel \<Rightarrow> nat \<Rightarrow> u32 \<Rightarrow> u8 \<Rightarrow> ('p, 's) kernel kres" where
  "ustore k cur va b =
     (let m = ram (kmem k); pd = pgdir (proc_at k cur)
      in if writable (pmap m pd va)
         then Ok (k\<lparr>kmem := (kmem k)\<lparr>ram := m(frame m pd va + (va - PGROUNDDOWN va) := b)\<rparr>\<rparr>)
         else Panic ''trap'')"

primrec uwrite :: "('p, 's) kernel \<Rightarrow> nat \<Rightarrow> u32 \<Rightarrow> u8 list \<Rightarrow> ('p, 's) kernel kres" where
  "uwrite k cur va [] = Ok k"
| "uwrite k cur va (b # bs) = kbind (ustore k cur va b) (\<lambda>k. uwrite k cur (va + 1) bs)"

text \<open>
  A buffer handed to code that works on byte lists: its bytes as they are, and the writing back of
  those that have changed.
\<close>

definition ubuf :: "('p, 's) kernel \<Rightarrow> nat \<Rightarrow> u32 \<Rightarrow> nat \<Rightarrow> u8 list" where
  "ubuf k cur va n = map (\<lambda>i. uread (ram (kmem k)) (pgdir (proc_at k cur)) (va + of_nat i)) [0..<n]"

fun uwrite_back :: "('p, 's) kernel \<Rightarrow> nat \<Rightarrow> u32 \<Rightarrow> u8 list \<Rightarrow> u8 list \<Rightarrow> ('p, 's) kernel kres" where
  "uwrite_back k cur va (a # as) (b # bs) =
     (if a = b then uwrite_back k cur (va + 1) as bs
      else kbind (ustore k cur va b) (\<lambda>k. uwrite_back k cur (va + 1) as bs))"
| "uwrite_back k cur va as bs = Ok k"

section \<open>Arguments (syscall.c)\<close>

text \<open>
  The first component of a result is the C return value. A string is given by its address and its
  bytes; the loop of \<open>fetchstr\<close> ends at a null byte or never.
\<close>

definition fetchint :: "('p, 's) kernel \<Rightarrow> nat \<Rightarrow> u32 \<Rightarrow> (int \<times> u32) kres" where
  "fetchint k cur addr = kbind (uword k cur addr) (\<lambda>w. Ok (0, w))"

partial_function (option) fetchstr_loop :: "('p, 's) kernel \<Rightarrow> nat \<Rightarrow> u32 \<Rightarrow> u8 list \<Rightarrow> u8 list kres option" where
  "fetchstr_loop k cur s bs =
     (case ufetch k cur s of
        Ok b \<Rightarrow> if b = 0 then Some (Ok (rev bs)) else fetchstr_loop k cur (s + 1) (b # bs)
      | Panic e \<Rightarrow> Some (Panic e)
      | Diverge \<Rightarrow> None
      | Fault \<Rightarrow> Some Fault)"

definition fetchstr :: "('p, 's) kernel \<Rightarrow> nat \<Rightarrow> u32 \<Rightarrow> (int \<times> u32 \<times> u8 list) kres" where
  "fetchstr k cur addr = kbind (of_kloop (fetchstr_loop k cur addr [])) (\<lambda>bs. Ok (int (length bs), addr, bs))"

text \<open>\<^verbatim>\<open>esp\<close> is at offset 68 of the trap frame.\<close>

definition argint :: "('p, 's) kernel \<Rightarrow> nat \<Rightarrow> nat \<Rightarrow> (int \<times> u32) kres" where
  "argint k cur n = fetchint k cur (load32 (ram (kmem k)) (ptf (proc_at k cur) + 68) + 4 + 4 * of_nat n)"

definition argptr :: "('p, 's) kernel \<Rightarrow> nat \<Rightarrow> nat \<Rightarrow> int \<Rightarrow> (int \<times> u32) kres" where
  "argptr k cur n sz = kbind (argint k cur n) (\<lambda>(r, i). if r < 0 then Ok (-1, 0) else Ok (0, i))"

definition argstr :: "('p, 's) kernel \<Rightarrow> nat \<Rightarrow> nat \<Rightarrow> (int \<times> u32 \<times> u8 list) kres" where
  "argstr k cur n = kbind (argint k cur n) (\<lambda>(r, addr). if r < 0 then Ok (-1, 0, []) else fetchstr k cur addr)"

text \<open>
  The way the handlers use them: fetch the \<open>n\<close>-th argument as an integer, as a pointer to \<open>sz\<close> bytes
  or as a string, and return -1 when that fails.
\<close>

definition with_int :: "nat \<Rightarrow> nat \<Rightarrow> ('p, 's) sys \<Rightarrow> (int \<Rightarrow> (sysret \<times> ('p, 's) sys) kres) \<Rightarrow> (sysret \<times> ('p, 's) sys) kres" where
  "with_int n cur s f = kbind (argint (kern s) cur n) (\<lambda>(r, v). if r < 0 then Ok (Ret (-1), s) else f (sint v))"

definition with_ptr :: "nat \<Rightarrow> int \<Rightarrow> nat \<Rightarrow> ('p, 's) sys \<Rightarrow> (u32 \<Rightarrow> (sysret \<times> ('p, 's) sys) kres) \<Rightarrow> (sysret \<times> ('p, 's) sys) kres" where
  "with_ptr n sz cur s f = kbind (argptr (kern s) cur n sz) (\<lambda>(r, v). if r < 0 then Ok (Ret (-1), s) else f v)"

definition with_str :: "nat \<Rightarrow> nat \<Rightarrow> ('p, 's) sys \<Rightarrow> (u32 \<Rightarrow> u8 list \<Rightarrow> (sysret \<times> ('p, 's) sys) kres) \<Rightarrow> (sysret \<times> ('p, 's) sys) kres" where
  "with_str n cur s f = kbind (argstr (kern s) cur n) (\<lambda>(r, p, bs). if r < 0 then Ok (Ret (-1), s) else f p bs)"

text \<open>Running part of a handler on a component of the state.\<close>

definition on_kern :: "('p, 's) sys \<Rightarrow> ('a \<times> ('p, 's) kernel) kres \<Rightarrow> ('a \<times> ('p, 's) sys) kres" where
  "on_kern s r = kbind r (\<lambda>(a, k). Ok (a, s\<lparr>kern := k\<rparr>))"

definition ret_kern :: "('p, 's) sys \<Rightarrow> (int \<times> ('p, 's) kernel) kres \<Rightarrow> (sysret \<times> ('p, 's) sys) kres" where
  "ret_kern s r = kbind r (\<lambda>(a, k). Ok (Ret a, s\<lparr>kern := k\<rparr>))"

definition pty_of :: "('p, 's) sys \<Rightarrow> pty_state" where
  "pty_of s = \<lparr>pty = ptys s, pty_kmem = kmem (kern s)\<rparr>"

definition pty_back :: "('p, 's) sys \<Rightarrow> pty_state \<Rightarrow> ('p, 's) sys" where
  "pty_back s st = s\<lparr>ptys := pty st, kern := (kern s)\<lparr>kmem := pty_kmem st\<rparr>\<rparr>"

text \<open>Storing back the state of the file system, whose working directory was that of the process.\<close>

definition vfs_back :: "('p, 's) kernel \<Rightarrow> ('p, 's) vfs \<Rightarrow> ('p, 's) kernel" where
  "vfs_back k v = k\<lparr>vfs_state := v\<lparr>cwd := cwd (vfs_state k)\<rparr>\<rparr>"

text \<open>The addresses \<^verbatim>\<open>&pty[i].input_buffer\<close> and \<^verbatim>\<open>&input.r\<close> as channels to sleep on.\<close>

definition pty_chan :: "int \<Rightarrow> channel" where
  "pty_chan ptyid = OtherChan (of_int ptyid)"

definition cons_chan :: channel where
  "cons_chan = OtherChan 0xffffffff"

section \<open>An example\<close>

text \<open>A machine on which nothing has happened but what is in the kernel \<open>k\<close>.\<close>

definition idle_sys :: "('p, 's) kernel \<Rightarrow> ('p, 's) sys" where
  "idle_sys k = \<lparr>kern = k, kticks = 0, ptys = [], screen = empty_console, kinput = empty_input, modules = []\<rparr>"

definition idle_env :: "('p, 's) sysenv" where
  "idle_env = \<lparr>sys_font = [], sys_kcalls = [], sys_module_entry = \<lambda>_ s. Ok s, sys_device_intr = \<lambda>_ s. Ok s,
     sys_cpuid = 0, sys_cr2 = 0\<rparr>"

lemma kern_idle_sys [simp]: "kern (idle_sys k) = k"
  by (simp add: idle_sys_def)

end
