(* ===== verification/Sysproc.thy ===== *)
theory Sysproc
  imports Sysargs
begin

text \<open>
  The system calls on processes, messages and pseudo terminals, \<^verbatim>\<open>kernel/proc/syscall/sysproc.c\<close>, one
  definition per handler, and the message queues they share with \<open>wait\<close>.

  A handler gets \<^verbatim>\<open>myproc()\<close> as \<open>cur\<close>. A loop that sleeps is one definition per round; \<open>resume\<close> in
  \<open>Syscall\<close> runs the next round when the process has been woken.
\<close>

section \<open>Processes\<close>

definition sys_fork :: "('p, 's) handler" where
  "sys_fork cur s = ret_kern s (fork (kern s))"

definition sys_exit :: "('p, 's) handler" where
  "sys_exit cur s =
     kbind (argint (kern s) cur 0) (\<lambda>(_, status).
       kbind (exit (kern s) (sint status)) (\<lambda>k. Ok (Exited, s\<lparr>kern := k\<rparr>)))"

definition sys_wait :: "('p, 's) handler" where
  "sys_wait cur s =
     kbind (wait (kern s)) (\<lambda>(r, k).
       Ok (case r of Some p \<Rightarrow> Ret p | None \<Rightarrow> Block InWait, s\<lparr>kern := k\<rparr>))"

definition sys_kill :: "('p, 's) handler" where
  "sys_kill cur s = with_int 0 cur s (\<lambda>target. ret_kern s (Ok (kill (kern s) target)))"

definition sys_getpid :: "('p, 's) handler" where
  "sys_getpid cur s = Ok (Ret (pid (proc_at (kern s) cur)), s)"

definition sys_sbrk :: "('p, 's) handler" where
  "sys_sbrk cur s = with_int 0 cur s (\<lambda>n.
     let addr = sint (PROC_HEAP_BOTTOM + heap_size (proc_at (kern s) cur))
     in kbind (growproc (kern s) n) (\<lambda>(r, k).
          Ok (Ret (if r < 0 then -1 else addr), s\<lparr>kern := k\<rparr>)))"

text \<open>The test compares in \<^verbatim>\<open>unsigned int\<close>.\<close>

definition sleep_round :: "u32 \<Rightarrow> int \<Rightarrow> ('p, 's) handler" where
  "sleep_round ticks0 n cur s =
     (if kticks s - ticks0 < of_int n
      then if killed (proc_at (kern s) cur) then Ok (Ret (-1), s)
           else kbind (sleep (kern s) (Some TicksChan) True) (\<lambda>k. Ok (Block (InSleep ticks0 n), s\<lparr>kern := k\<rparr>))
      else Ok (Ret 0, s))"

definition sys_sleep :: "('p, 's) handler" where
  "sys_sleep cur s = with_int 0 cur s (\<lambda>n. sleep_round (kticks s) n cur s)"

definition sys_uptime :: "('p, 's) handler" where
  "sys_uptime cur s = Ok (Ret (sint (kticks s)), s)"

section \<open>The working directory\<close>

text \<open>
  \<open>fullpath\<close> has 64 bytes. The path the relative branch works on is in a page of its own, which
  \<open>vfs_get_absolute_path\<close> replaces by another.
\<close>

definition sys_chdir_absolute :: "u8 list \<Rightarrow> ('p, 's) handler" where
  "sys_chdir_absolute dir cur s =
     (let k = kern s
      in kbind (vfs_file_get_mode (vfs_here k cur) dir) (\<lambda>(mode, v).
           let k = vfs_back k v
           in if mode < 0 then Ok (Ret mode, s\<lparr>kern := k\<rparr>)
              else if mode AND 0x4000 \<noteq> 0
              then let pb = cwd_pathbuf (proc_at k cur)
                   in kbind (vfs_path_split dir (mbytes (ram (kmem k)) pb 4096)) (\<lambda>(n, buf).
                        let k = k\<lparr>kmem := (kmem k)\<lparr>ram := mwrite (ram (kmem k)) pb buf\<rparr>\<rparr>;
                            k = upd_proc k cur (\<lambda>p. p\<lparr>cwd_parts := n\<rparr>)
                        in Ok (Ret 0, s\<lparr>kern := k\<rparr>))
              else Ok (Ret ERROR_NOT_DIRECTORY, s\<lparr>kern := k\<rparr>)))"

definition vfs_get_absolute_path_k :: "('p, 's) kernel \<Rightarrow> nat \<Rightarrow> int \<Rightarrow> u32 \<Rightarrow> (int \<times> u32 \<times> ('p, 's) kernel) kres" where
  "vfs_get_absolute_path_k k cur n pb =
     kbind (kalloc (kmem k)) (\<lambda>(newpath, st).
       let here = proc_at k cur;
           m = memmove (ram st) newpath (cwd_pathbuf here) (of_int (cwd_parts here * 128));
           m = memmove m (newpath + of_int (cwd_parts here * 128)) pb (of_int (n * 128));
           st = kfree (st\<lparr>ram := m\<rparr>) pb
       in Ok (n + cwd_parts here, newpath, k\<lparr>kmem := st\<rparr>))"

definition sys_chdir_relative :: "u8 list \<Rightarrow> ('p, 's) handler" where
  "sys_chdir_relative dir cur s =
     kbind (kalloc (kmem (kern s))) (\<lambda>(pb, st).
     kbind (vfs_path_split dir (mbytes (ram st) pb 4096)) (\<lambda>(n, buf).
       let k = (kern s)\<lparr>kmem := st\<lparr>ram := mwrite (ram st) pb buf\<rparr>\<rparr>
       in kbind (vfs_get_absolute_path_k k cur n pb) (\<lambda>(n, pb, k).
          kbind (vfs_path_tostring \<lparr>parts = n, pathbuf = mbytes (ram (kmem k)) pb 4096\<rparr> (replicate 64 0)) (\<lambda>fullpath.
          kbind (vfs_file_get_mode (vfs_here k cur) (c_string fullpath)) (\<lambda>(mode, v).
            let k = vfs_back k v
            in if mode < 0 then Ok (Ret mode, s\<lparr>kern := k\<lparr>kmem := kfree (kmem k) pb\<rparr>\<rparr>)
               else if mode AND 0x4000 \<noteq> 0
               then let k = k\<lparr>kmem := kfree (kmem k) (cwd_pathbuf (proc_at k cur))\<rparr>;
                        k = upd_proc k cur (\<lambda>p. p\<lparr>cwd_parts := n, cwd_pathbuf := pb\<rparr>)
                    in Ok (Ret 0, s\<lparr>kern := k\<rparr>)
               else Ok (Ret ERROR_NOT_DIRECTORY, s\<lparr>kern := k\<lparr>kmem := kfree (kmem k) pb\<rparr>\<rparr>))))))"

definition sys_chdir :: "('p, 's) handler" where
  "sys_chdir cur s = with_str 0 cur s (\<lambda>_ dir.
     if hd0 dir = 0x2f then sys_chdir_absolute dir cur s else sys_chdir_relative dir cur s)"

text \<open>The string of a path of at most 32 parts, the most a page holds, has less than 8192 bytes.\<close>

definition sys_getcwd :: "('p, 's) handler" where
  "sys_getcwd cur s = with_str 0 cur s (\<lambda>dir _.
     let k = kern s; old = ubuf k cur dir 8192
     in kbind (vfs_path_tostring (cwd (vfs_here k cur)) old) (\<lambda>new.
        kbind (uwrite_back k cur dir old new) (\<lambda>k. Ok (Ret 0, s\<lparr>kern := k\<rparr>))))"

section \<open>Libraries, modules, kernel calls\<close>

definition ustore_word :: "('p, 's) kernel \<Rightarrow> nat \<Rightarrow> u32 \<Rightarrow> u32 option \<Rightarrow> ('p, 's) kernel kres" where
  "ustore_word k cur p w = (case w of None \<Rightarrow> Ok k | Some w \<Rightarrow> uwrite k cur p (bytes32 w))"

definition sys_dynamic_load :: "('p, 's) handler" where
  "sys_dynamic_load cur s = with_str 0 cur s (\<lambda>_ name.
     with_ptr 1 4 cur s (\<lambda>dynamic. with_ptr 2 4 cur s (\<lambda>entry.
       kbind (proc_load_dynamic (kern s) cur cur name) (\<lambda>(base, dyn, ent, k).
       kbind (ustore_word k cur dynamic dyn) (\<lambda>k.
       kbind (ustore_word k cur entry ent) (\<lambda>k.
         Ok (Ret (sint base), s\<lparr>kern := k\<rparr>)))))))"

definition sys_kcall :: "('p, 's) sysenv \<Rightarrow> ('p, 's) handler" where
  "sys_kcall env cur s = with_str 0 cur s (\<lambda>_ name. with_int 1 cur s (\<lambda>arg.
     kbind (kcall (sys_kcalls env) name (of_int arg) s) (\<lambda>(r, s). Ok (Ret r, s))))"

definition sys_module_load :: "('p, 's) sysenv \<Rightarrow> ('p, 's) handler" where
  "sys_module_load env cur s = with_str 0 cur s (\<lambda>_ name.
     kbind (module_load (kern s) cur (modules s) name) (\<lambda>(r, entry, info, k).
       let s = s\<lparr>kern := k, modules := info\<rparr>
       in if r < 0 then Ok (Ret r, s)
          else kbind (sys_module_entry env entry s) (\<lambda>s. Ok (Ret r, s))))"

section \<open>Messages\<close>

text \<open>The queue operations: take the slot at the write index, or the message at the read index.\<close>

definition msgq_put :: "MessageQueue \<Rightarrow> Message \<Rightarrow> MessageQueue kres" where
  "msgq_put q msg =
     kbind (arr_set (mq_queue q) (mq_begin q) msg) (\<lambda>queue.
       let q = q\<lparr>mq_queue := queue, mq_begin := mq_begin q + 1\<rparr>
       in Ok (if mq_begin q = MESSAGE_MAX then q\<lparr>mq_begin := 0\<rparr> else q))"

definition msgq_get :: "MessageQueue \<Rightarrow> (Message \<times> MessageQueue) kres" where
  "msgq_get q =
     kbind (arr (mq_queue q) (mq_end q)) (\<lambda>msg.
       let q = q\<lparr>mq_end := mq_end q + 1\<rparr>
       in Ok (msg, if mq_end q = MESSAGE_MAX then q\<lparr>mq_end := 0\<rparr> else q))"

definition sys_message_send :: "('p, 's) handler" where
  "sys_message_send cur s = with_int 0 cur s (\<lambda>dest. with_int 1 cur s (\<lambda>sz. with_ptr 2 sz cur s (\<lambda>data.
     let k = kern s
     in case proc_search_pid k dest of
          None \<Rightarrow> Ok (Ret (-1), s)
        | Some d \<Rightarrow>
            kbind (pgalloc (kmem k) (msg_pages sz)) (\<lambda>(addr, st).
            let k = k\<lparr>kmem := st\<rparr>
            in kbind (ubytes k cur data (unat (of_int sz :: u32))) (\<lambda>bs.
               let k = k\<lparr>kmem := st\<lparr>ram := mwrite (ram st) addr bs\<rparr>\<rparr>
               in kbind (msgq_put (msgqueue (proc_at k d))
                           \<lparr>msg_pid = pid (proc_at k cur), msg_size = sz, msg_addr = addr\<rparr>) (\<lambda>q.
                  let k = upd_proc k d (\<lambda>p. p\<lparr>msgqueue := q\<rparr>)
                  in Ok (Ret 0, s\<lparr>kern := wakeup k (Some (MsgChan d))\<rparr>)))))))"

text \<open>Delivery of the message at the read index, the tail \<open>sys_message_receive\<close> and \<open>sys_message_wait\<close> share.\<close>

definition message_deliver :: "u32 \<Rightarrow> ('p, 's) handler" where
  "message_deliver data cur s =
     (let k = kern s
      in kbind (msgq_get (msgqueue (proc_at k cur))) (\<lambda>(msg, q).
         kbind (uwrite k cur data (mbytes (ram (kmem k)) (msg_addr msg) (unat (of_int (msg_size msg) :: u32)))) (\<lambda>k.
           let k = k\<lparr>kmem := pgfree (kmem k) (msg_addr msg) (msg_pages (msg_size msg))\<rparr>
           in Ok (Ret (msg_pid msg), s\<lparr>kern := upd_proc k cur (\<lambda>p. p\<lparr>msgqueue := q\<rparr>)\<rparr>))))"

definition sys_message_receive :: "('p, 's) handler" where
  "sys_message_receive cur s = with_ptr 0 (4 * 1024 * 1024) cur s (\<lambda>data.
     let q = msgqueue (proc_at (kern s) cur)
     in if mq_begin q = mq_end q then Ok (Ret 0, s) else message_deliver data cur s)"

definition message_wait_round :: "u32 \<Rightarrow> ('p, 's) handler" where
  "message_wait_round data cur s =
     (let q = msgqueue (proc_at (kern s) cur)
      in if mq_begin q = mq_end q
         then kbind (sleep (kern s) (Some (MsgChan cur)) True) (\<lambda>k.
                Ok (Block (InMessageWait data), s\<lparr>kern := k\<rparr>))
         else message_deliver data cur s)"

definition sys_message_wait :: "('p, 's) handler" where
  "sys_message_wait cur s = with_ptr 0 (4 * 1024 * 1024) cur s (\<lambda>data. message_wait_round data cur s)"

section \<open>Looking at processes\<close>

definition sys_getppid :: "('p, 's) handler" where
  "sys_getppid cur s =
     (case parent (proc_at (kern s) cur) of None \<Rightarrow> Fault | Some p \<Rightarrow> Ok (Ret (pid (proc_at (kern s) p)), s))"

definition sys_proc_search :: "('p, 's) handler" where
  "sys_proc_search cur s = with_str 0 cur s (\<lambda>_ name.
     case first_proc (\<lambda>p. pstate p \<noteq> UNUSED \<and> strncmp_str name (pname p) 16 = 0) (ptable (kern s)) 0 of
       Some i \<Rightarrow> Ok (Ret (pid (proc_at (kern s) i)), s)
     | None \<Rightarrow> Ok (Ret 0, s))"

definition PROC_RUNNING :: int where "PROC_RUNNING = 0"
definition PROC_EXITED :: int where "PROC_EXITED = 1"
definition PROC_NOT_EXIST :: int where "PROC_NOT_EXIST = 2"

definition sys_proc_status :: "('p, 's) handler" where
  "sys_proc_status cur s = with_int 0 cur s (\<lambda>target. with_ptr 1 4 cur s (\<lambda>status.
     let k = kern s
     in case proc_search_pid k target of
          None \<Rightarrow> Ok (Ret PROC_NOT_EXIST, s)
        | Some i \<Rightarrow>
            if pstate (proc_at k i) = RUNNING \<or> pstate (proc_at k i) = RUNNABLE then Ok (Ret PROC_RUNNING, s)
            else if pstate (proc_at k i) = ZOMBIE
            then kbind (uwrite k cur status (bytes32 (of_int (exit_status (proc_at k i))))) (\<lambda>k.
                 kbind (proc_free k i) (\<lambda>k. Ok (Ret PROC_EXITED, s\<lparr>kern := k\<rparr>)))
            else Ok (Ret PROC_NOT_EXIST, s)))"

section \<open>Pseudo terminals\<close>

definition sys_pty_create :: "('p, 's) handler" where
  "sys_pty_create cur s = kbind (pty_create (pty_of s) cur) (\<lambda>(r, st). Ok (Ret (r + 1), pty_back s st))"

definition sys_pty_read_output :: "('p, 's) handler" where
  "sys_pty_read_output cur s = with_int 0 cur s (\<lambda>ptyid. with_int 2 cur s (\<lambda>n. with_ptr 1 n cur s (\<lambda>buf.
     kbind (pty_read_output (pty_of s) cur (ptyid - 1) n) (\<lambda>(r, bs, st).
       let s = pty_back s st
       in kbind (uwrite (kern s) cur buf bs) (\<lambda>k. Ok (Ret r, s\<lparr>kern := k\<rparr>))))))"

text \<open>The bytes of the buffer are fetched one by one while they go into the ring.\<close>

definition sys_pty_write_input :: "('p, 's) handler" where
  "sys_pty_write_input cur s = with_int 0 cur s (\<lambda>ptyid. with_int 2 cur s (\<lambda>n. with_ptr 1 n cur s (\<lambda>buf.
     kbind (arr (ptys s) (ptyid - 1)) (\<lambda>p.
     kbind (if owner p = Some cur then ubytes (kern s) cur buf (nat n) else Ok []) (\<lambda>bs.
     kbind (pty_write_input (pty_of s) cur (ptyid - 1) (\<lambda>i. bs ! i) n) (\<lambda>(r, st).
       let s = pty_back s st
       in if owner p = Some cur then Ok (Ret r, s\<lparr>kern := wakeup (kern s) (Some (pty_chan (ptyid - 1)))\<rparr>)
          else Ok (Ret r, s)))))))"

definition sys_pty_close :: "('p, 's) handler" where
  "sys_pty_close cur s = with_int 0 cur s (\<lambda>ptyid.
     kbind (pty_close (pty_of s) cur (ptyid - 1)) (\<lambda>(r, st). Ok (Ret r, pty_back s st)))"

definition sys_pty_switch :: "('p, 's) handler" where
  "sys_pty_switch cur s = with_int 0 cur s (\<lambda>ptyid.
     Ok (Ret 0, s\<lparr>kern := upd_proc (kern s) cur (\<lambda>p. p\<lparr>ppty := ptyid\<rparr>)\<rparr>))"

end
