(* ===== verification/Sysfile.thy ===== *)
theory Sysfile
  imports Sysargs
begin

text \<open>
  The system calls on files and directories, \<^verbatim>\<open>kernel/proc/syscall/sysfile.c\<close>, one definition per
  handler. Descriptors below 3 are the console or the pseudo terminal of the process. The index of
  a descriptor is not tested, so \<open>arr\<close> makes the accesses outside of \<^verbatim>\<open>files\<close> a \<open>Fault\<close>.
\<close>

definition set_fd :: "('p, 's) kernel \<Rightarrow> nat \<Rightarrow> nat \<Rightarrow> FileDesc \<Rightarrow> ('p, 's) kernel" where
  "set_fd k cur i fd = upd_proc k cur (\<lambda>p. p\<lparr>files := (files p)[i := fd]\<rparr>)"

definition sys_dup :: "('p, 's) handler" where "sys_dup cur s = Ok (Ret 0, s)"
definition sys_link :: "('p, 's) handler" where "sys_link cur s = Ok (Ret 0, s)"
definition sys_mknod :: "('p, 's) handler" where "sys_mknod cur s = Ok (Ret 0, s)"
definition sys_pipe :: "('p, 's) handler" where "sys_pipe cur s = Ok (Ret 0, s)"

section \<open>Reading and writing\<close>

text \<open>
  What a round of \<open>consoleread\<close> or \<open>pty_read\<close> does to the process: the bytes go to its buffer, and
  it returns or goes to sleep on the channel of the console or of the terminal.
\<close>

definition console_round :: "u32 \<Rightarrow> read_result \<Rightarrow> u32 \<Rightarrow> ('p, 's) handler" where
  "console_round target r p cur s =
     (case r of
        ReadDone v bs buf \<Rightarrow>
          kbind (uwrite (kern s) cur p bs) (\<lambda>k. Ok (Ret v, s\<lparr>kern := k, kinput := buf\<rparr>))
      | ReadSleeps bs n buf \<Rightarrow>
          kbind (uwrite (kern s) cur p bs) (\<lambda>k.
          kbind (sleep k (Some cons_chan) True) (\<lambda>k.
            Ok (Block (InConsoleRead (p + of_nat (length bs)) target n), s\<lparr>kern := k, kinput := buf\<rparr>))))"

definition pty_read_round :: "int \<Rightarrow> u32 \<Rightarrow> int \<Rightarrow> ('p, 's) handler" where
  "pty_read_round ptyid p n cur s =
     kbind (pty_read (pty_of s) ptyid n) (\<lambda>r.
       case r of
         None \<Rightarrow> kbind (sleep (kern s) (Some (pty_chan ptyid)) True) (\<lambda>k.
                   Ok (Block (InPtyRead ptyid p n), s\<lparr>kern := k\<rparr>))
       | Some (v, bs, st) \<Rightarrow>
           let s = pty_back s st
           in kbind (uwrite (kern s) cur p bs) (\<lambda>k. Ok (Ret v, s\<lparr>kern := k\<rparr>)))"

definition sys_read :: "('p, 's) handler" where
  "sys_read cur s = with_int 0 cur s (\<lambda>fd. with_int 2 cur s (\<lambda>n. with_ptr 1 n cur s (\<lambda>p.
     let k = kern s; me = proc_at k cur
     in if fd < 3
        then if ppty me = 0 then console_round (of_int n) (consoleread (killed me) (kinput s) n) p cur s
             else pty_read_round (ppty me - 1) p n cur s
        else kbind (arr (files me) fd) (\<lambda>d.
             let old = ubuf k cur p (unat (of_int n :: u32))
             in kbind (vfs_fd_read (vfs_here k cur) d old (of_int n)) (\<lambda>(r, new, d, v).
                kbind (uwrite_back (set_fd (vfs_back k v) cur (nat fd) d) cur p old new) (\<lambda>k.
                  Ok (Ret r, s\<lparr>kern := k\<rparr>)))))))"

text \<open>
  \<open>vfs_fd_write\<close> reads the buffer as far as it gets; the bytes of a buffer are given as they are.
\<close>

definition sys_write :: "('p, 's) sysenv \<Rightarrow> ('p, 's) handler" where
  "sys_write env cur s = with_int 0 cur s (\<lambda>fd. with_int 2 cur s (\<lambda>n. with_ptr 1 n cur s (\<lambda>p.
     let k = kern s; me = proc_at k cur
     in if fd < 3
        then kbind (ubytes k cur p (nat n)) (\<lambda>bs.
             if ppty me = 0
             then kbind (consolewrite (sys_font env) (screen s) (\<lambda>i. bs ! i) n) (\<lambda>(r, cs).
                    Ok (Ret r, s\<lparr>screen := cs\<rparr>))
             else kbind (pty_write (pty_of s) (ppty me - 1) (\<lambda>i. bs ! i) n) (\<lambda>(r, st).
                    Ok (Ret r, pty_back s st)))
        else kbind (arr (files me) fd) (\<lambda>d.
             if \<not> fd_used d \<or> \<not> fd_write d \<or> fd_dir d then Ok (Ret ERROR_INVAILD, s)
             else kbind (ubytes k cur p (unat (of_int n :: u32))) (\<lambda>bs.
                  kbind (vfs_fd_write (vfs_here k cur) d bs (of_int n)) (\<lambda>(r, d, v).
                    Ok (Ret r, s\<lparr>kern := set_fd (vfs_back k v) cur (nat fd) d\<rparr>)))))))"

definition sys_close :: "('p, 's) handler" where
  "sys_close cur s = with_int 0 cur s (\<lambda>fd.
     let k = kern s
     in kbind (arr (files (proc_at k cur)) fd) (\<lambda>d.
        kbind (vfs_fd_close (vfs_here k cur) d) (\<lambda>(r, d, v).
          Ok (Ret r, s\<lparr>kern := set_fd (vfs_back k v) cur (nat fd) d\<rparr>))))"

text \<open>A \<^verbatim>\<open>whence\<close> that is none of the three modes leaves the offset as it is.\<close>

definition seek_mode :: "int \<Rightarrow> FileSeekMode option" where
  "seek_mode whence = (if whence = 0 then Some SEEK_SET else if whence = 1 then Some SEEK_CUR
     else if whence = 2 then Some SEEK_END else None)"

definition sys_lseek :: "('p, 's) handler" where
  "sys_lseek cur s = with_int 0 cur s (\<lambda>fd. with_int 1 cur s (\<lambda>offset. with_int 2 cur s (\<lambda>whence.
     let k = kern s
     in kbind (arr (files (proc_at k cur)) fd) (\<lambda>d.
          case (case seek_mode whence of
                  Some mode \<Rightarrow> vfs_fd_seek d (of_int offset) mode
                | None \<Rightarrow> if \<not> fd_used d \<or> fd_dir d \<or> of_int offset \<ge> fd_size d then (ERROR_INVAILD, d)
                          else (sint (fd_offset d), d)) of
            (r, d) \<Rightarrow> Ok (Ret r, s\<lparr>kern := set_fd k cur (nat fd) d\<rparr>)))))"

section \<open>Opening\<close>

text \<open>The first free descriptor of 3, 4, ..., 7.\<close>

definition free_fd :: "proc \<Rightarrow> nat option" where
  "free_fd p = find (\<lambda>i. \<not> fd_used (files p ! i)) [3..<PROC_FILE_MAX]"

definition sys_open :: "('p, 's) handler" where
  "sys_open cur s = with_str 0 cur s (\<lambda>_ fname. with_int 1 cur s (\<lambda>omode.
     let k = kern s
     in case free_fd (proc_at k cur) of
          None \<Rightarrow> Ok (Ret (-1), s)
        | Some i \<Rightarrow>
            kbind (vfs_fd_open (vfs_here k cur) fname (of_int omode)) (\<lambda>(r, d, v).
              Ok (Ret (if r < 0 then r else int i), s\<lparr>kern := set_fd (vfs_back k v) cur i d\<rparr>))))"

text \<open>\<open>sys_unlink\<close>, \<open>sys_mkdir\<close>, \<open>sys_file_get_size\<close> and \<open>sys_file_get_mode\<close> have one shape.\<close>

definition sys_name_op :: "(('p, 's) vfs \<Rightarrow> u8 list \<Rightarrow> (int \<times> ('p, 's) vfs) kres) \<Rightarrow> ('p, 's) handler" where
  "sys_name_op f cur s = with_str 0 cur s (\<lambda>_ name.
     kbind (f (vfs_here (kern s) cur) name) (\<lambda>(r, v). Ok (Ret r, s\<lparr>kern := vfs_back (kern s) v\<rparr>)))"

definition sys_unlink :: "('p, 's) handler" where "sys_unlink = sys_name_op vfs_file_remove"
definition sys_mkdir :: "('p, 's) handler" where "sys_mkdir = sys_name_op vfs_mkdir"
definition sys_file_get_size :: "('p, 's) handler" where "sys_file_get_size = sys_name_op vfs_file_get_size"
definition sys_file_get_mode :: "('p, 's) handler" where "sys_file_get_mode = sys_name_op vfs_file_get_mode"

section \<open>Programs\<close>

text \<open>
  The loop over the argument vector, from index \<open>i\<close>, \<open>n\<close> entries of \<^verbatim>\<open>argv\<close> left: the strings read, or
  \<open>None\<close> for \<^verbatim>\<open>return -1\<close>.
\<close>

primrec sys_exec_loop :: "('p, 's) kernel \<Rightarrow> nat \<Rightarrow> u32 \<Rightarrow> nat \<Rightarrow> u32 \<Rightarrow> u8 list list option kres" where
  "sys_exec_loop k cur uargv 0 i = Ok None"
| "sys_exec_loop k cur uargv (Suc n) i =
     kbind (fetchint k cur (uargv + 4 * i)) (\<lambda>(r, uarg).
       if r < 0 then Ok None
       else if uarg = 0 then Ok (Some [])
       else kbind (fetchstr k cur uarg) (\<lambda>(r, _, bs).
              if r < 0 then Ok None
              else kbind (sys_exec_loop k cur uargv n (i + 1)) (\<lambda>rest. Ok (map_option ((#) bs) rest))))"

definition sys_exec :: "('p, 's) handler" where
  "sys_exec cur s = with_str 0 cur s (\<lambda>_ fname. with_ptr 1 4 cur s (\<lambda>uargv.
     kbind (sys_exec_loop (kern s) cur uargv MAXARG 0) (\<lambda>args.
       case args of
         None \<Rightarrow> Ok (Ret (-1), s)
       | Some strs \<Rightarrow> ret_kern s (exec (kern s) fname (map Some strs @ replicate (MAXARG - length strs) None)))))"

section \<open>Directories\<close>

definition sys_dir_open :: "('p, 's) handler" where
  "sys_dir_open cur s = with_str 0 cur s (\<lambda>_ dirname.
     let k = kern s
     in case free_fd (proc_at k cur) of
          None \<Rightarrow> Ok (Ret (-1), s)
        | Some i \<Rightarrow>
            kbind (vfs_dir_open (vfs_here k cur) dirname) (\<lambda>(r, d, v).
              Ok (Ret (if r < 0 then -1 else int i), s\<lparr>kern := set_fd (vfs_back k v) cur i d\<rparr>)))"

definition sys_dir_read :: "('p, 's) handler" where
  "sys_dir_read cur s = with_int 0 cur s (\<lambda>handle. with_ptr 1 256 cur s (\<lambda>buffer.
     let k = kern s; old = ubuf k cur buffer 256
     in kbind (arr (files (proc_at k cur)) handle) (\<lambda>d.
        kbind (vfs_dir_read (vfs_here k cur) d old) (\<lambda>(r, new, d, v).
        kbind (uwrite_back (set_fd (vfs_back k v) cur (nat handle) d) cur buffer old new) (\<lambda>k.
          Ok (Ret r, s\<lparr>kern := k\<rparr>))))))"

definition sys_dir_close :: "('p, 's) handler" where
  "sys_dir_close cur s = with_int 0 cur s (\<lambda>handle.
     let k = kern s
     in kbind (arr (files (proc_at k cur)) handle) (\<lambda>d.
          case vfs_dir_close d of (r, d) \<Rightarrow> Ok (Ret r, s\<lparr>kern := set_fd k cur (nat handle) d\<rparr>)))"

end
