(* ===== verification/Messages.thy ===== *)
theory Messages
  imports Sysproc Ring_Queue
begin

text \<open>
  Message passing between processes. The queue of a process with the pages its entries point to is
  abstracted to a list of pairs (sender, bytes), its \<open>inbox\<close>; \<open>sys_message_send\<close> appends to the list
  and \<open>sys_message_receive\<close> takes its head, through the memory of the processes, the page allocator
  and the ring of 64 slots.
\<close>

section \<open>Writing to the memory of a process\<close>

lemma data_write:
  assumes ok: "vm_ok st R D" and m': "\<forall>x. page_of x \<notin> D \<longrightarrow> m' x = ram st x"
  shows "vm_ok (st\<lparr>ram := m'\<rparr>) R D" "kmem_avail (st\<lparr>ram := m'\<rparr>) = kmem_avail st"
    "\<And>q. q \<in> R \<Longrightarrow> pmap m' q = pmap (ram st) q"
proof -
  note o = vm_okD [OF ok]
  have "m' x = ram st x" if "page_of x \<in> kmem_avail st" for x
    by (rule m' [rule_format]) (use that o(2) in auto)
  note kw = kmem_write [OF o(1) this]
  show "kmem_avail (st\<lparr>ram := m'\<rparr>) = kmem_avail st" by (rule kw(2))
  have t: "ram (st\<lparr>ram := m'\<rparr>) x = ram st x" if "page_of x \<in> tabs (ram st) R" for x
    using m' [rule_format, of x] that o(3) by auto
  have d: "tabs (ram st) R \<inter> (kmem_avail (st\<lparr>ram := m'\<rparr>) \<union> D) = {}" "D \<inter> kmem_avail (st\<lparr>ram := m'\<rparr>) = {}"
    using o(2,3) kw(2) by auto
  show "vm_ok (st\<lparr>ram := m'\<rparr>) R D" by (rule vm_frame(1) [OF ok kw(1) t d])
  show "\<And>q. q \<in> R \<Longrightarrow> pmap m' q = pmap (ram st) q"
    using vm_frame(2) [OF ok kw(1) t d] by simp
qed

lemma vm_ok_subset:
  assumes "vm_ok st R D" "D' \<subseteq> D"
  shows "vm_ok st R D'"
proof -
  note o = vm_okD [OF assms(1)]
  have "tabs (ram st) R \<inter> (kmem_avail st \<union> D') = {}" "D' \<inter> kmem_avail st = {}" using o(2,3) assms(2) by auto
  from vm_frame(1) [OF assms(1) o(1) _ this] show ?thesis by simp
qed

text \<open>The kernel address of a byte of the process.\<close>

definition kaddr :: "mem \<Rightarrow> u32 \<Rightarrow> u32 \<Rightarrow> u32" where
  "kaddr m p va = frame m p va + (va - PGROUNDDOWN va)"

lemma page_of_kaddr: "page_of (kaddr m p va) = page_of (frame m p va)"
  unfolding kaddr_def by (rule page_of_frame_byte [OF aligned_frame])

lemma uread_kaddr: "uread m p va = m (kaddr m p va)"
  by (simp add: uread_def kaddr_def)

lemma kaddr_cong: "pmap m' p = pmap m p \<Longrightarrow> kaddr m' p = kaddr m p"
  by (auto simp: kaddr_def frame_def fun_eq_iff)

lemma page_offset_eq: "page_of v = page_of w \<Longrightarrow> v - PGROUNDDOWN v = w - PGROUNDDOWN w \<Longrightarrow> v = w"
proof -
  assume a: "page_of v = page_of w" "v - PGROUNDDOWN v = w - PGROUNDDOWN w"
  have "PGROUNDDOWN v = PGROUNDDOWN w"
    using a(1) by (simp add: word_unat_eq_iff unat_PGROUNDDOWN page_of_def)
  with a(2) show "v = w" by simp
qed

lemma kaddr_inj:
  assumes "kaddr m p v = kaddr m p w" and "frame m p v = frame m p w \<Longrightarrow> page_of v = page_of w"
  shows "v = w"
proof -
  have "page_of (frame m p v) = page_of (frame m p w)" using assms(1) page_of_kaddr by metis
  then have f: "frame m p v = frame m p w" using aligned_inj [OF aligned_frame aligned_frame] by blast
  show ?thesis by (rule page_offset_eq) (use assms f in \<open>simp_all add: kaddr_def\<close>)
qed

text \<open>
  Buffers of a process: \<open>n\<close> bytes at \<open>va\<close> that are mapped, respectively writable with every page in
  a frame of its own, the frames among the pages \<open>U\<close>.
\<close>

definition user_src :: "('p, 's) kernel \<Rightarrow> nat \<Rightarrow> u32 \<Rightarrow> nat \<Rightarrow> nat set \<Rightarrow> bool" where
  "user_src k cur va n U \<longleftrightarrow> (let m = ram (kmem k); pd = pgdir (proc_at k cur) in
     \<forall>i < n. present (pmap m pd (va + of_nat i)) \<and> page_of (frame m pd (va + of_nat i)) \<in> U)"

definition user_buf :: "('p, 's) kernel \<Rightarrow> nat \<Rightarrow> u32 \<Rightarrow> nat \<Rightarrow> nat set \<Rightarrow> bool" where
  "user_buf k cur va n U \<longleftrightarrow> (let m = ram (kmem k); pd = pgdir (proc_at k cur) in
     (\<forall>i < n. writable (pmap m pd (va + of_nat i)) \<and> page_of (frame m pd (va + of_nat i)) \<in> U)
     \<and> (\<forall>i < n. \<forall>j < n. frame m pd (va + of_nat i) = frame m pd (va + of_nat j) \<longrightarrow>
          page_of (va + of_nat i) = page_of (va + of_nat j)) \<and> n \<le> 2 ^ 32)"

definition user_bytes :: "('p, 's) kernel \<Rightarrow> nat \<Rightarrow> u32 \<Rightarrow> nat \<Rightarrow> u8 list" where
  "user_bytes k cur va n = map (\<lambda>i. uread (ram (kmem k)) (pgdir (proc_at k cur)) (va + of_nat i)) [0..<n]"

lemma length_user_bytes [simp]: "length (user_bytes k cur va n) = n"
  by (simp add: user_bytes_def)

lemma ubytes_user_src: "user_src k cur va n U \<Longrightarrow> ubytes k cur va n = Ok (user_bytes k cur va n)"
proof (induction n arbitrary: va)
  case 0
  then show ?case by (simp add: user_bytes_def)
next
  case (Suc n)
  have p: "present (pmap (ram (kmem k)) (pgdir (proc_at k cur)) (va + of_nat i))"
    "page_of (frame (ram (kmem k)) (pgdir (proc_at k cur)) (va + of_nat i)) \<in> U" if "i < Suc n" for i
    using Suc.prems that by (simp_all add: user_src_def Let_def)
  have "user_src k cur (va + 1) n U"
    unfolding user_src_def Let_def using p [of "Suc i" for i] by (simp add: add.assoc)
  then have "ubytes k cur (va + 1) n = Ok (user_bytes k cur (va + 1) n)" by (rule Suc.IH)
  moreover have "ufetch k cur va = Ok (uread (ram (kmem k)) (pgdir (proc_at k cur)) va)"
    using p(1) [of 0] by (simp add: ufetch_def)
  ultimately show ?case
    by (simp add: user_bytes_def upt_conv_Cons map_Suc_upt [symmetric] add.assoc del: upt_Suc)
qed

lemma user_buf_src: "user_buf k cur va n U \<Longrightarrow> user_src k cur va n U"
  by (simp add: user_buf_def user_src_def Let_def writable_def)

lemma user_buf_tl:
  assumes "user_buf k cur va (Suc n) U"
  shows "user_buf k cur (va + 1) n U"
  using assms unfolding user_buf_def Let_def
  by (auto simp: add.assoc simp flip: of_nat_Suc)

text \<open>Storing a list of bytes.\<close>

lemma user_buf_same:
  assumes "pgdir (proc_at k' cur) = pgdir (proc_at k cur)"
    and "pmap (ram (kmem k')) (pgdir (proc_at k cur)) = pmap (ram (kmem k)) (pgdir (proc_at k cur))"
  shows "user_buf k' cur va n U = user_buf k cur va n U" "user_src k' cur va n U = user_src k cur va n U"
  using assms by (simp_all add: user_buf_def user_src_def Let_def frame_def)

lemma user_buf_mono:
  assumes "user_buf k cur va n U" and "U \<subseteq> U'"
  shows "user_buf k cur va n U'"
  using assms unfolding user_buf_def Let_def by (elim conjE) (intro conjI; (assumption | blast))

lemma uwrite_ok:
  fixes k :: "('p, 's) kernel"
  assumes "vm_ok (kmem k) R D" and "pgdir (proc_at k cur) \<in> R" and "U \<subseteq> D"
    and "user_buf k cur va (length bs) U"
  defines "ka \<equiv> \<lambda>i. kaddr (ram (kmem k)) (pgdir (proc_at k cur)) (va + of_nat i)"
  shows "\<exists>m'. uwrite k cur va bs = Ok (k\<lparr>kmem := (kmem k)\<lparr>ram := m'\<rparr>\<rparr>)
     \<and> (\<forall>x. x \<notin> ka ` {..<length bs} \<longrightarrow> m' x = ram (kmem k) x) \<and> (\<forall>i < length bs. m' (ka i) = bs ! i)"
  using assms(1,2,4) unfolding ka_def
proof (induction bs arbitrary: k va)
  case Nil
  show ?case by (rule exI [of _ "ram (kmem k)"]) simp
next
  case (Cons b bs)
  let ?m = "ram (kmem k)" and ?pd = "pgdir (proc_at k cur)"
  let ?m1 = "?m(kaddr ?m ?pd va := b)"
  let ?k1 = "k\<lparr>kmem := (kmem k)\<lparr>ram := ?m1\<rparr>\<rparr>"
  note u = Cons.prems(3) [unfolded user_buf_def Let_def list.size add_Suc_right add_0_right]
  have b0: "writable (pmap ?m ?pd va)" "page_of (frame ?m ?pd va) \<in> U"
    using u [THEN conjunct1, rule_format, of 0] by simp_all
  have b1: "page_of va = page_of (va + 1 + of_nat n)"
    if "n < length bs" "frame ?m ?pd va = frame ?m ?pd (va + 1 + of_nat n)" for n
    using u [THEN conjunct2, THEN conjunct1, rule_format, of 0 "Suc n"] that by (simp add: add.assoc)
  have b2: "length bs < 2 ^ 32" using u [THEN conjunct2, THEN conjunct2] by simp
  have s: "ustore k cur va b = Ok ?k1"
    using b0(1) by (simp add: ustore_def Let_def kaddr_def)
  have m1: "\<forall>x. page_of x \<notin> D \<longrightarrow> ?m1 x = ?m x"
    using b0(2) page_of_kaddr [of ?m ?pd va] assms(3) by auto
  note w = data_write [OF Cons.prems(1) m1]
  have pm: "pmap ?m1 ?pd = pmap ?m ?pd" by (rule w(3) [OF Cons.prems(2)])
  have u1: "user_buf ?k1 cur (va + 1) (length bs) U"
    using user_buf_tl [of k cur va "length bs" U] Cons.prems(3) user_buf_same(1) [of ?k1 cur k] pm by simp
  define k1 where "k1 = ?k1"
  have k1: "ram (kmem k1) = ?m1" "pgdir (proc_at k1 cur) = ?pd" "k1\<lparr>kmem := (kmem k1)\<lparr>ram := m'\<rparr>\<rparr> = k\<lparr>kmem := (kmem k)\<lparr>ram := m'\<rparr>\<rparr>" for m'
    by (simp_all add: k1_def)
  have kk: "kmem k1 = (kmem k)\<lparr>ram := ?m1\<rparr>" "proc_at k1 cur = proc_at k cur" by (simp_all add: k1_def)
  have "vm_ok (kmem k1) R D" unfolding kk by (rule w(1))
  moreover have "pgdir (proc_at k1 cur) \<in> R" unfolding kk by (rule Cons.prems(2))
  moreover have "user_buf k1 cur (va + 1) (length bs) U" unfolding k1_def by (rule u1)
  ultimately have ih: "vm_ok (kmem k1) R D" "pgdir (proc_at k1 cur) \<in> R" "user_buf k1 cur (va + 1) (length bs) U" .
  from Cons.IH [OF ih, unfolded k1] obtain m' where m': "uwrite k1 cur (va + 1) bs = Ok (k\<lparr>kmem := (kmem k)\<lparr>ram := m'\<rparr>\<rparr>)"
    "\<forall>x. x \<notin> (\<lambda>i. kaddr ?m1 ?pd (va + 1 + of_nat i)) ` {..<length bs} \<longrightarrow> m' x = ?m1 x"
    "\<forall>i < length bs. m' (kaddr ?m1 ?pd (va + 1 + of_nat i)) = bs ! i"
    by blast
  note kc = kaddr_cong [OF pm]
  note m2 = m'(2) [unfolded kc, rule_format] and m3 = m'(3) [unfolded kc, rule_format]
  have first: "m' (kaddr ?m ?pd va) = b"
  proof -
    have "kaddr ?m ?pd va \<noteq> kaddr ?m ?pd (va + 1 + of_nat i)" if i: "i < length bs" for i
    proof
      assume e: "kaddr ?m ?pd va = kaddr ?m ?pd (va + 1 + of_nat i)"
      have "va = va + 1 + of_nat i"
        by (rule kaddr_inj [OF e]) (rule b1 [OF i])
      then have "(of_nat (Suc i) :: u32) = 0" by (simp add: add.assoc)
      then show False using unat_of_nat_u32 [of "Suc i"] b2 i by simp
    qed
    then have "kaddr ?m ?pd va \<notin> (\<lambda>i. kaddr ?m ?pd (va + 1 + of_nat i)) ` {..<length bs}" by blast
    from m2 [OF this] show ?thesis by simp
  qed
  have "m' (kaddr ?m ?pd (va + of_nat i)) = (b # bs) ! i" if "i < Suc (length bs)" for i
    using that first m3 by (cases i) (simp_all add: add.assoc)
  moreover have "m' x = ?m x" if x: "x \<notin> (\<lambda>i. kaddr ?m ?pd (va + of_nat i)) ` {..<Suc (length bs)}" for x
  proof -
    have "x \<notin> (\<lambda>i. kaddr ?m ?pd (va + 1 + of_nat i)) ` {..<length bs}"
      using x by (force simp: add.assoc simp flip: of_nat_Suc)
    moreover have "x \<noteq> kaddr ?m ?pd va" using x by (force simp: image_iff)
    ultimately show ?thesis using m2 by simp
  qed
  ultimately show ?case using s m'(1) by (intro exI [of _ m']) (simp add: k1_def)
qed

section \<open>The queue\<close>

definition mq_ok :: "MessageQueue \<Rightarrow> bool" where
  "mq_ok q \<longleftrightarrow> length (mq_queue q) = 64 \<and> 0 \<le> mq_begin q \<and> mq_begin q < 64 \<and> 0 \<le> mq_end q \<and> mq_end q < 64"

definition mq_items :: "MessageQueue \<Rightarrow> Message list" where
  "mq_items q = ring_items 64 (\<lambda>i. mq_queue q ! i) (nat (mq_begin q)) (nat (mq_end q))"

text \<open>The operations as total functions, which they are on queues in order.\<close>

definition mq_put :: "MessageQueue \<Rightarrow> Message \<Rightarrow> MessageQueue" where
  "mq_put q msg = (case msgq_put q msg of Ok q' \<Rightarrow> q' | _ \<Rightarrow> q)"

definition mq_get :: "MessageQueue \<Rightarrow> Message \<times> MessageQueue" where
  "mq_get q = (case msgq_get q of Ok r \<Rightarrow> r | _ \<Rightarrow> (hd (mq_queue q), q))"

lemma int_ring_next: "0 \<le> i \<Longrightarrow> int (ring_next 64 (nat i)) = (if i + 1 = 64 then 0 else i + 1)"
  by (auto simp: ring_next_def)

lemma msgq_put_ok:
  assumes "mq_ok q"
  shows "msgq_put q msg = Ok (mq_put q msg)"
    "mq_put q msg = q\<lparr>mq_queue := (mq_queue q)[nat (mq_begin q) := msg],
       mq_begin := int (ring_next 64 (nat (mq_begin q)))\<rparr>"
proof -
  have "msgq_put q msg = Ok (q\<lparr>mq_queue := (mq_queue q)[nat (mq_begin q) := msg],
       mq_begin := int (ring_next 64 (nat (mq_begin q)))\<rparr>)"
    using assms int_ring_next [of "mq_begin q"]
    by (simp add: msgq_put_def mq_ok_def arr_set_def MESSAGE_MAX_def Let_def)
  then show "msgq_put q msg = Ok (mq_put q msg)"
    "mq_put q msg = q\<lparr>mq_queue := (mq_queue q)[nat (mq_begin q) := msg],
       mq_begin := int (ring_next 64 (nat (mq_begin q)))\<rparr>"
    by (simp_all add: mq_put_def)
qed

lemma msgq_get_ok:
  assumes "mq_ok q"
  shows "msgq_get q = Ok (mq_get q)"
    "mq_get q = (mq_queue q ! nat (mq_end q), q\<lparr>mq_end := int (ring_next 64 (nat (mq_end q)))\<rparr>)"
proof -
  have "msgq_get q = Ok (mq_queue q ! nat (mq_end q), q\<lparr>mq_end := int (ring_next 64 (nat (mq_end q)))\<rparr>)"
    using assms int_ring_next [of "mq_end q"] by (simp add: msgq_get_def mq_ok_def arr_def MESSAGE_MAX_def Let_def)
  then show "msgq_get q = Ok (mq_get q)"
    "mq_get q = (mq_queue q ! nat (mq_end q), q\<lparr>mq_end := int (ring_next 64 (nat (mq_end q)))\<rparr>)"
    by (simp_all add: mq_get_def)
qed

interpretation msgq: ring_fifo mq_put mq_get mq_ok mq_items "\<lambda>_. True" 64
proof
  fix q :: MessageQueue and x :: Message and xs
  assume q: "mq_ok q"
  have b: "nat (mq_begin q) < 64" "nat (mq_end q) < 64" and l: "length (mq_queue q) = 64"
    using q by (auto simp: mq_ok_def)
  have n: "int (ring_next 64 (nat (mq_begin q))) < 64" "int (ring_next 64 (nat (mq_end q))) < 64"
    using ring_next_less [OF b(1)] ring_next_less [OF b(2)] by linarith+
  show "length (mq_items q) < 64" using b by (simp add: mq_items_def ring_count_less)
  show "mq_ok (mq_put q x) \<and> mq_items (mq_put q x) = mq_items q @ [x]" if "Suc (length (mq_items q)) < 64"
    using that b n q ring_items_list_put [OF l b, of x] by (simp add: msgq_put_ok(2) mq_ok_def mq_items_def)
  show "mq_ok (mq_put q x) \<and> mq_items (mq_put q x) = []" if "Suc (length (mq_items q)) = 64"
    using that b n q by (simp add: msgq_put_ok(2) mq_ok_def mq_items_def ring_items_overflow)
  show "fst (mq_get q) = x \<and> mq_ok (snd (mq_get q)) \<and> mq_items (snd (mq_get q)) = xs" if "mq_items q = x # xs"
  proof -
    have "nat (mq_begin q) \<noteq> nat (mq_end q)"
      using that ring_items_empty [OF b, of "\<lambda>i. mq_queue q ! i"] by (auto simp: mq_items_def)
    then show ?thesis
      using that b n q ring_items_get [OF b, of "\<lambda>i. mq_queue q ! i"]
      by (simp add: msgq_get_ok(2) mq_ok_def mq_items_def)
  qed
qed

lemma mq_items_empty:
  assumes "mq_ok q"
  shows "mq_items q = [] \<longleftrightarrow> mq_begin q = mq_end q"
proof -
  have "nat (mq_begin q) < 64" "nat (mq_end q) < 64" "nat (mq_begin q) = nat (mq_end q) \<longleftrightarrow> mq_begin q = mq_end q"
    using assms by (auto simp: mq_ok_def)
  then show ?thesis by (simp add: mq_items_def ring_items_empty)
qed

section \<open>The pages of a message\<close>

lemma unat_msg_pages:
  assumes "0 < sz" "sz < 2 ^ 31"
  shows "unat (msg_pages sz) = nat ((sz + 4095) div 4096)"
proof -
  have "drop_bit 12 (x AND NOT (mask 12)) = drop_bit 12 x" for x :: int
    by (rule bit_eqI) (simp add: bit_simps)
  from this [of "sz + 4095"] have "((sz + 4095) AND NOT 4095) div 4096 = (sz + 4095) div 4096"
    by (simp add: drop_bit_eq_div mask_eq_exp_minus_1)
  then have "msg_pages sz = of_int ((sz + 4095) div 4096)" by (simp add: msg_pages_def add.commute [of 4095])
  moreover have "0 \<le> (sz + 4095) div 4096" "(sz + 4095) div 4096 < 2 ^ 32" using assms by auto
  ultimately show ?thesis by (simp add: unsigned_of_int take_bit_int_eq_self)
qed

lemma msg_pages_bounds:
  assumes "0 < sz" "sz < 2 ^ 31"
  shows "0 < msg_pages sz" "nat sz \<le> unat (msg_pages sz) * 4096"
proof -
  have e: "int (unat (msg_pages sz)) = (sz + 4095) div 4096" using assms by (simp add: unat_msg_pages)
  moreover have "sz \<le> (sz + 4095) div 4096 * 4096"
    using div_mult_mod_eq [of "sz + 4095" 4096] pos_mod_bound [of 4096 "sz + 4095"] by simp
  ultimately have "sz \<le> int (unat (msg_pages sz)) * 4096" by simp
  then show "nat sz \<le> unat (msg_pages sz) * 4096" by linarith
  then have "0 < unat (msg_pages sz)" using assms by (cases "unat (msg_pages sz)") auto
  then show "0 < msg_pages sz" by (simp add: unat_gt_0 word_gt_0)
qed

text \<open>The bytes of a run of pages.\<close>

lemma run_byte:
  assumes "good_run (a, n)" and "unat (x - a) < n * 4096"
  shows "page_of x \<in> run_pages (a, n)"
proof -
  have "unat (a + (x - a)) = unat a + unat (x - a)"
    using assms by (intro unat_add_lt_u32) (simp add: good_run_def)
  then have e: "unat x = unat a + unat (x - a)" by simp
  have "unat a mod 4096 = 0" using assms(1) by (simp add: good_run_def)
  then obtain q where "unat a = q * 4096" by (metis mod_0_imp_dvd dvd_def mult.commute)
  then show ?thesis using e assms(2) by (auto simp: page_of_def run_pages_def less_mult_imp_div_less)
qed

lemma mwrite_run:
  assumes "good_run (a, n)" and "length bs \<le> n * 4096" and "page_of x \<notin> run_pages (a, n)"
  shows "mwrite m a bs x = m x"
  by (rule mwrite_other) (use run_byte [OF assms(1), of x] assms(2,3) in linarith)

lemma mbytes_run:
  assumes "good_run (a, n)" and "l \<le> n * 4096" and "\<And>x. page_of x \<in> run_pages (a, n) \<Longrightarrow> m' x = m x"
  shows "mbytes m' a l = mbytes m a l"
proof -
  have "m' (a + of_nat i) = m (a + of_nat i)" if "i < l" for i
  proof (rule assms(3) [OF run_byte [OF assms(1)]])
    have "n * 4096 \<le> 2 ^ 32" using assms(1) by (simp add: good_run_def)
    then have "unat (of_nat i :: u32) = i" using that assms(2) by (intro unat_of_nat_u32) simp
    then show "unat (a + of_nat i - a) < n * 4096" using that assms(2) by simp
  qed
  then show ?thesis by (simp add: mbytes_def)
qed

text \<open>A run from the allocator joins the data pages, one given back leaves them.\<close>

lemma new_data_run:
  assumes ok: "vm_ok st R D" and n: "0 < n" and a: "pgalloc st n = Ok (p, st1)"
  shows "vm_ok st1 R (D \<union> run_pages (p, unat n))" "good_run (p, unat n)" "D \<inter> run_pages (p, unat n) = {}"
    "\<And>x. page_of x \<in> D \<Longrightarrow> ram st1 x = ram st x" "\<And>q. q \<in> R \<Longrightarrow> pmap (ram st1) q = pmap (ram st) q"
proof -
  note o = vm_okD [OF ok] and k = kpages.alloc_ok [OF vm_okD(1) [OF ok] n a]
  have fr: "ram st1 x = ram st x" if "page_of x \<notin> kmem_avail st" for x
    by (rule kpages.alloc_frame [OF o(1) n a that])
  show "good_run (p, unat n)" using k by simp
  show "D \<inter> run_pages (p, unat n) = {}" using k o(2) by auto
  show "ram st1 x = ram st x" if "page_of x \<in> D" for x by (rule fr) (use that o(2) in auto)
  have t: "ram st1 x = ram st x" if "page_of x \<in> tabs (ram st) R" for x
    by (rule fr) (use that o(3) in auto)
  have d: "tabs (ram st) R \<inter> (kmem_avail st1 \<union> (D \<union> run_pages (p, unat n))) = {}"
    "(D \<union> run_pages (p, unat n)) \<inter> kmem_avail st1 = {}"
    using k o(2,3) by auto
  show "vm_ok st1 R (D \<union> run_pages (p, unat n))" by (rule vm_frame(1) [OF ok _ t d]) (use k in simp)
  show "\<And>q. q \<in> R \<Longrightarrow> pmap (ram st1) q = pmap (ram st) q"
    by (rule vm_frame(2) [OF ok _ t d]) (use k in simp)
qed

lemma old_data_run:
  assumes ok: "vm_ok st R D" and g: "good_run (p, unat n)" and s: "run_pages (p, unat n) \<subseteq> D"
  shows "vm_ok (pgfree st p n) R (D - run_pages (p, unat n))"
    "\<And>x. page_of x \<notin> run_pages (p, unat n) \<Longrightarrow> ram (pgfree st p n) x = ram st x"
    "\<And>q. q \<in> R \<Longrightarrow> pmap (ram (pgfree st p n)) q = pmap (ram st) q"
proof -
  note o = vm_okD [OF ok]
  have e: "run_pages (p, unat n) \<inter> kmem_avail st = {}" using s o(2) by auto
  note k = kpages.free_ok [OF o(1) g e]
  show fr: "ram (pgfree st p n) x = ram st x" if "page_of x \<notin> run_pages (p, unat n)" for x
    by (rule kpages.free_frame [OF o(1) g that])
  have t: "ram (pgfree st p n) x = ram st x" if "page_of x \<in> tabs (ram st) R" for x
    by (rule fr) (use that o(3) s in auto)
  have d: "tabs (ram st) R \<inter> (kmem_avail (pgfree st p n) \<union> (D - run_pages (p, unat n))) = {}"
    "(D - run_pages (p, unat n)) \<inter> kmem_avail (pgfree st p n) = {}"
    using k o(2,3) s by auto
  show "vm_ok (pgfree st p n) R (D - run_pages (p, unat n))"
    by (rule vm_frame(1) [OF ok _ t d]) (use k in simp)
  show "\<And>q. q \<in> R \<Longrightarrow> pmap (ram (pgfree st p n)) q = pmap (ram st) q"
    by (rule vm_frame(2) [OF ok _ t d]) (use k in simp)
qed

section \<open>The inbox of a process\<close>

definition msg_run :: "Message \<Rightarrow> run" where
  "msg_run msg = (msg_addr msg, unat (msg_pages (msg_size msg)))"

abbreviation mail :: "('p, 's) kernel \<Rightarrow> nat \<Rightarrow> Message list" where
  "mail k b \<equiv> mq_items (msgqueue (proc_at k b))"

definition inbox :: "('p, 's) kernel \<Rightarrow> nat \<Rightarrow> (int \<times> u8 list) list" where
  "inbox k b = map (\<lambda>msg. (msg_pid msg, mbytes (ram (kmem k)) (msg_addr msg) (nat (msg_size msg)))) (mail k b)"

text \<open>
  The queue is in order, and the messages in it own disjoint runs of pages among the data pages \<open>D\<close>
  of the machine.
\<close>

definition mail_ok :: "('p, 's) kernel \<Rightarrow> u32 set \<Rightarrow> nat set \<Rightarrow> nat \<Rightarrow> bool" where
  "mail_ok k R D b \<longleftrightarrow> vm_ok (kmem k) R D \<and> b < length (ptable k) \<and> mq_ok (msgqueue (proc_at k b))
     \<and> wf_runs (map msg_run (mail k b)) \<and> free_pages (map msg_run (mail k b)) \<subseteq> D
     \<and> (\<forall>msg \<in> set (mail k b). 0 < msg_size msg \<and> msg_size msg < 2 ^ 31)"

lemma mail_okD:
  assumes "mail_ok k R D b"
  shows "vm_ok (kmem k) R D" "b < length (ptable k)" "mq_ok (msgqueue (proc_at k b))"
  using assms by (simp_all add: mail_ok_def)

lemma msg_bytes_same:
  assumes "0 < msg_size msg" "msg_size msg < 2 ^ 31" "good_run (msg_run msg)"
    and "\<And>x. page_of x \<in> run_pages (msg_run msg) \<Longrightarrow> m' x = m x"
  shows "mbytes m' (msg_addr msg) (nat (msg_size msg)) = mbytes m (msg_addr msg) (nat (msg_size msg))"
  using assms msg_pages_bounds(2) [OF assms(1,2)] unfolding msg_run_def by (intro mbytes_run)

lemma inbox_same:
  assumes "mail k' b = mail k b" and ok: "wf_runs (map msg_run (mail k b))"
    and sz: "\<forall>msg \<in> set (mail k b). 0 < msg_size msg \<and> msg_size msg < 2 ^ 31"
    and m': "\<And>x. page_of x \<in> free_pages (map msg_run (mail k b)) \<Longrightarrow> ram (kmem k') x = ram (kmem k) x"
  shows "inbox k' b = inbox k b"
proof -
  have "mbytes (ram (kmem k')) (msg_addr msg) (nat (msg_size msg)) = mbytes (ram (kmem k)) (msg_addr msg) (nat (msg_size msg))"
    if "msg \<in> set (mail k b)" for msg
  proof (rule msg_bytes_same)
    have "msg_run msg \<in> set (map msg_run (mail k b))" using that by simp
    note w = wf_runs_free [OF ok this]
    show "good_run (msg_run msg)" using w by simp
    show "ram (kmem k') x = ram (kmem k) x" if "page_of x \<in> run_pages (msg_run msg)" for x
      by (rule m') (use that w in auto)
  qed (use sz that in auto)
  then show ?thesis by (simp add: inbox_def assms(1))
qed

section \<open>Sending\<close>

text \<open>The first arguments of the system call a process makes.\<close>

definition call_args :: "('p, 's) kernel \<Rightarrow> nat \<Rightarrow> u32 list \<Rightarrow> bool" where
  "call_args k cur ws \<longleftrightarrow> (\<forall>i < length ws. argint k cur i = Ok (0, ws ! i))"

lemma with_args:
  assumes "call_args (kern s) cur ws" and "n < length ws"
  shows "with_int n cur s f = f (sint (ws ! n))" "with_ptr n z cur s g = g (ws ! n)"
  using assms by (simp_all add: with_int_def with_ptr_def argptr_def call_args_def)

lemma user_bytes_same:
  assumes "user_src k cur va n D" and "pgdir (proc_at k' cur) = pgdir (proc_at k cur)"
    and "pmap (ram (kmem k')) (pgdir (proc_at k cur)) = pmap (ram (kmem k)) (pgdir (proc_at k cur))"
    and "\<And>x. page_of x \<in> D \<Longrightarrow> ram (kmem k') x = ram (kmem k) x"
  shows "user_src k' cur va n D" "user_bytes k' cur va n = user_bytes k cur va n"
proof -
  let ?pd = "pgdir (proc_at k cur)"
  show "user_src k' cur va n D" using assms(1) user_buf_same(2) [OF assms(2,3)] by simp
  have "uread (ram (kmem k')) ?pd (va + of_nat i) = uread (ram (kmem k)) ?pd (va + of_nat i)" if "i < n" for i
  proof -
    have "page_of (kaddr (ram (kmem k)) ?pd (va + of_nat i)) \<in> D"
      using assms(1) that by (simp add: user_src_def Let_def page_of_kaddr)
    then show ?thesis using assms(4) kaddr_cong [OF assms(3)] by (simp add: uread_kaddr)
  qed
  then show "user_bytes k' cur va n = user_bytes k cur va n" by (simp add: user_bytes_def assms(2))
qed

text \<open>
  The state after a successful send: the message is in its new pages and in the queue.
\<close>

definition sent :: "('p, 's) kernel \<Rightarrow> nat \<Rightarrow> Message \<Rightarrow> kmem_state \<Rightarrow> u8 list \<Rightarrow> ('p, 's) kernel" where
  "sent k b msg st bs =
     wakeup (upd_proc (k\<lparr>kmem := st\<lparr>ram := mwrite (ram st) (msg_addr msg) bs\<rparr>\<rparr>) b
       (\<lambda>p. p\<lparr>msgqueue := mq_put (msgqueue p) msg\<rparr>)) (Some (MsgChan b))"

lemma sys_message_send_eq:
  assumes vm: "vm_ok (kmem (kern s)) R D" and lb: "b < length (ptable (kern s))"
    and q: "mq_ok (msgqueue (proc_at (kern s) b))" and a: "pgdir (proc_at (kern s) a) \<in> R"
    and args: "call_args (kern s) a [dest, sz, data]" and b: "proc_search_pid (kern s) (sint dest) = Some b"
    and sz: "0 < sint sz" and src: "user_src (kern s) a data (unat sz) D"
  shows "pgalloc (kmem (kern s)) (msg_pages (sint sz)) = Panic ''out of memory''
        \<and> sys_message_send a s = Panic ''out of memory''
     \<or> (\<exists>st addr. pgalloc (kmem (kern s)) (msg_pages (sint sz)) = Ok (addr, st)
          \<and> sys_message_send a s = Ok (Ret 0, s\<lparr>kern := sent (kern s) b
               \<lparr>msg_pid = pid (proc_at (kern s) a), msg_size = sint sz, msg_addr = addr\<rparr> st
               (user_bytes (kern s) a data (unat sz))\<rparr>))"
proof -
  let ?k = "kern s" and ?n = "msg_pages (sint sz)"
  have sz': "sint sz < 2 ^ 31" using sint_lt [of sz] by simp
  note pos = msg_pages_bounds(1) [OF sz sz']
  from kpages.alloc_total [OF vm_okD(1) [OF vm] pos] show ?thesis
  proof
    assume "pgalloc (kmem ?k) ?n = Panic ''out of memory''"
    then show ?thesis using args b by (simp add: sys_message_send_def with_args)
  next
    assume "\<exists>p s'. pgalloc (kmem ?k) ?n = Ok (p, s')"
    then obtain addr st where al: "pgalloc (kmem ?k) ?n = Ok (addr, st)" by blast
    note r = new_data_run [OF vm pos al]
    have "user_src (?k\<lparr>kmem := st\<rparr>) a data (unat sz) D"
      "user_bytes (?k\<lparr>kmem := st\<rparr>) a data (unat sz) = user_bytes ?k a data (unat sz)"
      using user_bytes_same [OF src, of "?k\<lparr>kmem := st\<rparr>"] r(4,5) a by simp_all
    then have "ubytes (?k\<lparr>kmem := st\<rparr>) a data (unat sz) = Ok (user_bytes ?k a data (unat sz))"
      using ubytes_user_src by metis
    then show ?thesis
      using args b al q lb by (auto simp: sys_message_send_def with_args sent_def msgq_put_ok(1) upd_proc_def Let_def)
  qed
qed

lemma nat_sint:
  fixes w :: u32
  assumes "0 \<le> sint w"
  shows "nat (sint w) = unat w"
proof -
  have "uint w = take_bit 32 (sint w)" using uint_sint [of w] by simp
  also have "\<dots> = sint w" using assms sint_lt [of w] by (intro take_bit_int_eq_self) simp_all
  finally show ?thesis by (simp add: unat_eq_nat_uint)
qed

lemma sent_simps:
  assumes "b < length (ptable k)"
  shows "kmem (sent k b msg st bs) = st\<lparr>ram := mwrite (ram st) (msg_addr msg) bs\<rparr>"
    "msgqueue (proc_at (sent k b msg st bs) b) = mq_put (msgqueue (proc_at k b)) msg"
    "length (ptable (sent k b msg st bs)) = length (ptable k)"
    "i < length (ptable k) \<Longrightarrow> pgdir (proc_at (sent k b msg st bs) i) = pgdir (proc_at k i)"
    "i < length (ptable k) \<Longrightarrow> i \<noteq> b \<Longrightarrow> msgqueue (proc_at (sent k b msg st bs) i) = msgqueue (proc_at k i)"
    "pstate (proc_at k b) = SLEEPING \<Longrightarrow> chan (proc_at k b) = Some (MsgChan b) \<Longrightarrow>
       pstate (proc_at (sent k b msg st bs) b) = RUNNABLE"
  using assms by (auto simp: sent_def wakeup_def wakeup1_def upd_proc_def wakeup_proc_def nth_list_update)

lemma sent_mail:
  fixes k :: "('p, 's) kernel"
  assumes ok: "mail_ok k R D b" and sz: "0 < msg_size msg" "msg_size msg < 2 ^ 31"
    and al: "pgalloc (kmem k) (msg_pages (msg_size msg)) = Ok (msg_addr msg, st)" and l: "length bs = nat (msg_size msg)"
  defines "k' \<equiv> sent k b msg st bs"
  shows "vm_ok (kmem k') R (D \<union> run_pages (msg_run msg))" "good_run (msg_run msg)" "D \<inter> run_pages (msg_run msg) = {}"
    "\<And>x. page_of x \<in> D \<Longrightarrow> ram (kmem k') x = ram (kmem k) x"
    "mbytes (ram (kmem k')) (msg_addr msg) (nat (msg_size msg)) = bs"
    "\<And>q. q \<in> R \<Longrightarrow> pmap (ram (kmem k')) q = pmap (ram (kmem k)) q"
proof -
  have vm: "vm_ok (kmem k) R D" and lb: "b < length (ptable k)" using ok by (simp_all add: mail_ok_def)
  note pg = msg_pages_bounds [OF sz] and e = sent_simps [OF lb, where msg = msg and st = st and bs = bs, folded k'_def]
  note r = new_data_run [OF vm pg(1) al, folded msg_run_def]
  show g: "good_run (msg_run msg)" and d: "D \<inter> run_pages (msg_run msg) = {}" by (fact r)+
  have out: "mwrite (ram st) (msg_addr msg) bs x = ram st x" if "page_of x \<notin> run_pages (msg_run msg)" for x
    using mwrite_run [OF g [unfolded msg_run_def], of bs x] that l pg(2) by (simp add: msg_run_def)
  have "\<forall>x. page_of x \<notin> D \<union> run_pages (msg_run msg) \<longrightarrow> mwrite (ram st) (msg_addr msg) bs x = ram st x" using out by auto
  note dw = data_write [OF r(1) this]
  show "vm_ok (kmem k') R (D \<union> run_pages (msg_run msg))" using dw(1) by (simp add: e)
  show "pmap (ram (kmem k')) q = pmap (ram (kmem k)) q" if "q \<in> R" for q using dw(3) [OF that] r(5) [OF that] by (simp add: e)
  show "ram (kmem k') x = ram (kmem k) x" if "page_of x \<in> D" for x
    using that d out [of x] r(4) [of x] by (auto simp: e)
  have "length bs \<le> 2 ^ 32" using l sz by simp
  from mbytes_mwrite [OF this, of "ram st" "msg_addr msg"]
  show "mbytes (ram (kmem k')) (msg_addr msg) (nat (msg_size msg)) = bs" by (simp add: e l)
qed

lemma sent_inbox:
  fixes k :: "('p, 's) kernel"
  assumes ok: "mail_ok k R D b" and sz: "0 < msg_size msg" "msg_size msg < 2 ^ 31"
    and al: "pgalloc (kmem k) (msg_pages (msg_size msg)) = Ok (msg_addr msg, st)" and l: "length bs = nat (msg_size msg)"
    and room: "length (inbox k b) < 63"
  defines "k' \<equiv> sent k b msg st bs"
  shows "mail_ok k' R (D \<union> run_pages (msg_run msg)) b" "inbox k' b = inbox k b @ [(msg_pid msg, bs)]"
proof -
  have lb: "b < length (ptable k)" and q: "mq_ok (msgqueue (proc_at k b))"
    and w: "wf_runs (map msg_run (mail k b))" "free_pages (map msg_run (mail k b)) \<subseteq> D"
    and z: "\<forall>msg \<in> set (mail k b). 0 < msg_size msg \<and> msg_size msg < 2 ^ 31"
    using ok by (simp_all add: mail_ok_def)
  note s = sent_mail [OF ok sz al l, folded k'_def] and e = sent_simps [OF lb, where msg = msg and st = st and bs = bs, folded k'_def]
  have p: "mq_ok (msgqueue (proc_at k' b))" and ml: "mail k' b = mail k b @ [msg]"
    using msgq.put_room [OF q, of msg] room by (simp_all add: inbox_def e)
  have "free_pages (map msg_run (mail k b)) \<inter> run_pages (msg_run msg) = {}" using w(2) s(3) by auto
  then have "wf_runs (map msg_run (mail k' b))"
    using w(1) s(2) by (simp add: ml wf_runs_append free_pages_def)
  moreover have "free_pages (map msg_run (mail k' b)) \<subseteq> D \<union> run_pages (msg_run msg)"
    using w(2) by (auto simp: ml free_pages_def)
  ultimately show "mail_ok k' R (D \<union> run_pages (msg_run msg)) b"
    using s(1) p lb z sz unfolding mail_ok_def by (simp add: e(3) ml)
  have "ram (kmem k') x = ram (kmem k) x" if "page_of x \<in> free_pages (map msg_run (mail k b))" for x
    by (rule s(4)) (use that w(2) in auto)
  from inbox_same [of "k\<lparr>kmem := kmem k'\<rparr>" b k] this w(1) z
  have "inbox (k\<lparr>kmem := kmem k'\<rparr>) b = inbox k b" by simp
  then show "inbox k' b = inbox k b @ [(msg_pid msg, bs)]" by (simp add: inbox_def ml s(5))
qed

section \<open>Receiving\<close>

text \<open>The state after a delivery: the bytes are in the buffer, the pages of the message free again.\<close>

definition received :: "('p, 's) kernel \<Rightarrow> nat \<Rightarrow> Message \<Rightarrow> mem \<Rightarrow> ('p, 's) kernel" where
  "received k b msg m' =
     upd_proc (k\<lparr>kmem := pgfree ((kmem k)\<lparr>ram := m'\<rparr>) (msg_addr msg) (msg_pages (msg_size msg))\<rparr>) b
       (\<lambda>p. p\<lparr>msgqueue := snd (mq_get (msgqueue p))\<rparr>)"

lemma unat_size: "0 < z \<Longrightarrow> z < 2 ^ 31 \<Longrightarrow> unat (of_int z :: u32) = nat z"
  by (simp add: unsigned_of_int take_bit_int_eq_self)

lemma message_deliver_eq:
  fixes s :: "('p, 's) sys"
  assumes ok: "mail_ok (kern s) R D b" and pd: "pgdir (proc_at (kern s) b) \<in> R" and ml: "mail (kern s) b = msg # ms"
    and U: "U \<subseteq> D" and buf: "user_buf (kern s) b data (nat (msg_size msg)) U"
  defines "bs \<equiv> mbytes (ram (kmem (kern s))) (msg_addr msg) (nat (msg_size msg))"
  shows "\<exists>m'. message_deliver data b s = Ok (Ret (msg_pid msg), s\<lparr>kern := received (kern s) b msg m'\<rparr>)
     \<and> (\<forall>x. page_of x \<notin> U \<longrightarrow> m' x = ram (kmem (kern s)) x)
     \<and> (\<forall>i < length bs. m' (kaddr (ram (kmem (kern s))) (pgdir (proc_at (kern s) b)) (data + of_nat i)) = bs ! i)"
proof -
  let ?k = "kern s" and ?pd = "pgdir (proc_at (kern s) b)" and ?m = "ram (kmem (kern s))"
  have vm: "vm_ok (kmem ?k) R D" and lb: "b < length (ptable ?k)" and q: "mq_ok (msgqueue (proc_at ?k b))"
    and sz: "0 < msg_size msg" "msg_size msg < 2 ^ 31"
    using ok ml by (simp_all add: mail_ok_def)
  have l: "length bs = nat (msg_size msg)" by (simp add: bs_def)
  obtain m' where m': "uwrite ?k b data bs = Ok (?k\<lparr>kmem := (kmem ?k)\<lparr>ram := m'\<rparr>\<rparr>)"
    "\<forall>x. x \<notin> (\<lambda>i. kaddr ?m ?pd (data + of_nat i)) ` {..<length bs} \<longrightarrow> m' x = ?m x"
    "\<forall>i < length bs. m' (kaddr ?m ?pd (data + of_nat i)) = bs ! i"
    using uwrite_ok [OF vm pd U, of data bs] buf l by auto
  have "m' x = ?m x" if "page_of x \<notin> U" for x
  proof (rule m'(2) [rule_format], rule notI)
    assume "x \<in> (\<lambda>i. kaddr ?m ?pd (data + of_nat i)) ` {..<length bs}"
    then show False using that buf l by (auto simp: user_buf_def Let_def page_of_kaddr)
  qed
  moreover have "msgq_get (msgqueue (proc_at ?k b)) = Ok (msg, snd (mq_get (msgqueue (proc_at ?k b))))"
    using msgq_get_ok(1) [OF q] msgq.get_item [OF q ml] by (metis prod.collapse)
  then have "message_deliver data b s = Ok (Ret (msg_pid msg), s\<lparr>kern := received ?k b msg m'\<rparr>)"
    using m'(1) unat_size [OF sz] lb
    by (simp add: message_deliver_def bs_def received_def upd_proc_def Let_def)
  ultimately show ?thesis using m'(3) by blast
qed

lemma received_mail:
  fixes k :: "('p, 's) kernel"
  assumes ok: "mail_ok k R D b" and ml: "mail k b = msg # ms"
    and m': "\<forall>x. page_of x \<notin> D - free_pages (map msg_run (mail k b)) \<longrightarrow> m' x = ram (kmem k) x"
  defines "k' \<equiv> received k b msg m'"
  shows "mail_ok k' R (D - run_pages (msg_run msg)) b" "inbox k' b = tl (inbox k b)"
    "\<And>x. page_of x \<notin> run_pages (msg_run msg) \<Longrightarrow> ram (kmem k') x = m' x"
    "\<And>q. q \<in> R \<Longrightarrow> pmap (ram (kmem k')) q = pmap (ram (kmem k)) q" "proc_at k' b = (proc_at k b)\<lparr>msgqueue := msgqueue (proc_at k' b)\<rparr>"
proof -
  have vm: "vm_ok (kmem k) R D" and lb: "b < length (ptable k)" and q: "mq_ok (msgqueue (proc_at k b))"
    and w: "good_run (msg_run msg)" "run_pages (msg_run msg) \<inter> free_pages (map msg_run ms) = {}" "wf_runs (map msg_run ms)"
    and f: "run_pages (msg_run msg) \<subseteq> D" "free_pages (map msg_run ms) \<subseteq> D"
    and z: "\<forall>msg \<in> set ms. 0 < msg_size msg \<and> msg_size msg < 2 ^ 31"
    using ok ml by (auto simp: mail_ok_def wf_runs_Cons free_pages_def simp del: wf_runs.simps(2))
  let ?st = "(kmem k)\<lparr>ram := m'\<rparr>"
  have d: "\<forall>x. page_of x \<notin> D \<longrightarrow> m' x = ram (kmem k) x" using m' by blast
  note dw = data_write [OF vm d]
  note old = old_data_run [OF dw(1), of "msg_addr msg" "msg_pages (msg_size msg)", folded msg_run_def, OF w(1) f(1)]
  have k': "kmem k' = pgfree ?st (msg_addr msg) (msg_pages (msg_size msg))" "length (ptable k') = length (ptable k)"
    "msgqueue (proc_at k' b) = snd (mq_get (msgqueue (proc_at k b)))"
    using lb by (simp_all add: k'_def received_def upd_proc_def)
  have g: "mq_ok (msgqueue (proc_at k' b))" "mail k' b = ms" using msgq.get_item [OF q ml] by (simp_all add: k'(3))
  show "proc_at k' b = (proc_at k b)\<lparr>msgqueue := msgqueue (proc_at k' b)\<rparr>"
    using lb by (simp add: k'_def received_def upd_proc_def)
  show fr: "ram (kmem k') x = m' x" if "page_of x \<notin> run_pages (msg_run msg)" for x
    using old(2) [OF that] by (simp add: k'(1))
  show "pmap (ram (kmem k')) q = pmap (ram (kmem k)) q" if "q \<in> R" for q
    using old(3) [OF that] dw(3) [OF that] by (simp add: k'(1))
  show "mail_ok k' R (D - run_pages (msg_run msg)) b"
    using old(1) lb g w(2,3) f(2) z by (auto simp: mail_ok_def k'(1,2))
  have "ram (kmem k') x = ram (kmem k) x" if "page_of x \<in> free_pages (map msg_run ms)" for x
    using fr [of x] m' w(2) that by (auto simp: ml free_pages_def)
  then have "inbox k' b = map (\<lambda>msg. (msg_pid msg, mbytes (ram (kmem k)) (msg_addr msg) (nat (msg_size msg)))) ms"
    using inbox_same [of k' b "k\<lparr>ptable := ptable k'\<rparr>"] w(3) z g(2) by (simp add: inbox_def)
  then show "inbox k' b = tl (inbox k b)" by (simp add: inbox_def ml)
qed

section \<open>Properties\<close>

text \<open>
  C38. Sending appends to the inbox of the receiver. When a process sends \<open>sz > 0\<close> bytes of its
  memory to a process with fewer than 63 unread messages, the call panics for lack of memory or
  returns 0 and the inbox of the receiver has grown at its end by exactly those bytes, under the pid
  of the sender; messages waiting before are intact, no data page of any process has changed, and
  the receiver has been woken if it slept in \<open>sys_message_wait\<close>.
\<close>

theorem message_send_appends:
  assumes "mail_ok (kern s) R D b" and "pgdir (proc_at (kern s) a) \<in> R"
    and "call_args (kern s) a [dest, sz, data]" and "proc_search_pid (kern s) (sint dest) = Some b"
    and "0 < sint sz" and "user_src (kern s) a data (unat sz) D" and "length (inbox (kern s) b) < 63"
  shows "pgalloc (kmem (kern s)) (msg_pages (sint sz)) = Panic ''out of memory''
        \<and> sys_message_send a s = Panic ''out of memory''
     \<or> (\<exists>s' D'. sys_message_send a s = Ok (Ret 0, s') \<and> mail_ok (kern s') R D' b \<and> D \<subseteq> D'
          \<and> inbox (kern s') b = inbox (kern s) b @ [(pid (proc_at (kern s) a), user_bytes (kern s) a data (unat sz))]
          \<and> (\<forall>x. page_of x \<in> D \<longrightarrow> ram (kmem (kern s')) x = ram (kmem (kern s)) x)
          \<and> (pstate (proc_at (kern s) b) = SLEEPING \<and> chan (proc_at (kern s) b) = Some (MsgChan b)
               \<longrightarrow> pstate (proc_at (kern s') b) = RUNNABLE))"
  using sys_message_send_eq [OF mail_okD [OF assms(1)] assms(2-6)]
proof
  assume "\<exists>st addr. pgalloc (kmem (kern s)) (msg_pages (sint sz)) = Ok (addr, st)
      \<and> sys_message_send a s = Ok (Ret 0, s\<lparr>kern := sent (kern s) b
           \<lparr>msg_pid = pid (proc_at (kern s) a), msg_size = sint sz, msg_addr = addr\<rparr> st
           (user_bytes (kern s) a data (unat sz))\<rparr>)"
  then obtain st addr where al: "pgalloc (kmem (kern s)) (msg_pages (sint sz)) = Ok (addr, st)"
    and r: "sys_message_send a s = Ok (Ret 0, s\<lparr>kern := sent (kern s) b
           \<lparr>msg_pid = pid (proc_at (kern s) a), msg_size = sint sz, msg_addr = addr\<rparr> st
           (user_bytes (kern s) a data (unat sz))\<rparr>)" by blast
  let ?msg = "\<lparr>msg_pid = pid (proc_at (kern s) a), msg_size = sint sz, msg_addr = addr\<rparr>"
  have n: "nat (sint sz) = unat sz" "sint sz < 2 ^ 31" using assms(5) sint_lt [of sz] by (simp_all add: nat_sint)
  have lb: "b < length (ptable (kern s))" using assms(1) by (simp add: mail_ok_def)
  note m = sent_mail [OF assms(1), of ?msg st "user_bytes (kern s) a data (unat sz)", simplified]
    and i = sent_inbox [OF assms(1), of ?msg st "user_bytes (kern s) a data (unat sz)", simplified]
  show ?thesis
    using r i [OF assms(5) _ al _ assms(7)] m(4) [OF assms(5) _ al] sent_simps(6) [OF lb] n
    by (intro disjI2 exI [of _ "s\<lparr>kern := sent (kern s) b ?msg st (user_bytes (kern s) a data (unat sz))\<rparr>"]
        exI [of _ "D \<union> run_pages (msg_run ?msg)"]) simp
qed simp

text \<open>
  C39. Receiving takes the head of the inbox. When the oldest unread message is \<open>bs\<close> from process \<open>p\<close>
  and the caller's buffer is mapped writable outside the pages of waiting messages, both
  \<open>sys_message_receive\<close> and \<open>sys_message_wait\<close> return \<open>p\<close>, the buffer reads \<open>bs\<close>, the inbox has lost
  its head and nothing else, and the pages of the message are no longer in use.
\<close>

theorem message_receive_takes_head:
  assumes ok: "mail_ok (kern s) R D b" and pd: "pgdir (proc_at (kern s) b) \<in> R" and args: "call_args (kern s) b [data]"
    and ib: "inbox (kern s) b = (p, bs) # rest"
    and buf: "user_buf (kern s) b data (length bs) (D - free_pages (map msg_run (mail (kern s) b)))"
  shows "\<exists>s' msg. sys_message_receive b s = Ok (Ret p, s') \<and> sys_message_wait b s = Ok (Ret p, s')
     \<and> inbox (kern s') b = rest \<and> user_bytes (kern s') b data (length bs) = bs
     \<and> hd (mail (kern s) b) = msg \<and> mail_ok (kern s') R (D - run_pages (msg_run msg)) b"
proof -
  let ?k = "kern s" and ?U = "D - free_pages (map msg_run (mail (kern s) b))" and ?pd = "pgdir (proc_at (kern s) b)"
  obtain msg ms where ml: "mail ?k b = msg # ms" and p: "msg_pid msg = p"
    and bs: "mbytes (ram (kmem ?k)) (msg_addr msg) (nat (msg_size msg)) = bs"
    using ib by (auto simp: inbox_def)
  have l: "length bs = nat (msg_size msg)" using bs by auto
  have q: "mq_begin (msgqueue (proc_at ?k b)) \<noteq> mq_end (msgqueue (proc_at ?k b))"
    using mq_items_empty [of "msgqueue (proc_at ?k b)"] ok ml by (auto simp: mail_ok_def)
  obtain m' where d: "message_deliver data b s = Ok (Ret p, s\<lparr>kern := received ?k b msg m'\<rparr>)"
    and m': "\<forall>x. page_of x \<notin> ?U \<longrightarrow> m' x = ram (kmem ?k) x"
    and mb: "\<forall>i < length bs. m' (kaddr (ram (kmem ?k)) ?pd (data + of_nat i)) = bs ! i"
    using message_deliver_eq [OF ok pd ml _ buf [unfolded l]] p by (auto simp: bs)
  note r = received_mail [OF ok ml m']
  have kc: "kaddr (ram (kmem (received ?k b msg m'))) ?pd = kaddr (ram (kmem ?k)) ?pd"
    by (rule kaddr_cong [OF r(4) [OF pd]])
  have "uread (ram (kmem (received ?k b msg m'))) ?pd (data + of_nat i) = bs ! i" if "i < length bs" for i
  proof -
    have "page_of (kaddr (ram (kmem ?k)) ?pd (data + of_nat i)) \<in> ?U"
      using buf that by (simp add: user_buf_def Let_def page_of_kaddr)
    then have "page_of (kaddr (ram (kmem ?k)) ?pd (data + of_nat i)) \<notin> run_pages (msg_run msg)"
      by (simp add: ml free_pages_def)
    from r(3) [OF this] show ?thesis using mb that by (simp add: uread_kaddr kc)
  qed
  moreover have "pgdir (proc_at (received ?k b msg m') b) = ?pd" by (subst r(5)) simp
  ultimately have "user_bytes (received ?k b msg m') b data (length bs) = bs"
    by (intro nth_equalityI) (simp_all add: user_bytes_def)
  then show ?thesis
    using d r(1,2) q ib ml args
    by (simp add: sys_message_receive_def sys_message_wait_def message_wait_round_def with_args)
qed

text \<open>
  C40. The queue has no test for a full ring: the send that makes 64 messages unread succeeds and
  leaves the queue of the receiver empty, so all 64 messages are lost, and the pages they are in with
  them, because only the queue knows of them.
\<close>

theorem message_overflow_loses_all:
  assumes "vm_ok (kmem (kern s)) R D" and "b < length (ptable (kern s))" and "mq_ok (msgqueue (proc_at (kern s) b))"
    and "pgdir (proc_at (kern s) a) \<in> R" and "call_args (kern s) a [dest, sz, data]"
    and "proc_search_pid (kern s) (sint dest) = Some b" and "0 < sint sz" and "user_src (kern s) a data (unat sz) D"
    and "length (mail (kern s) b) = 63"
  shows "pgalloc (kmem (kern s)) (msg_pages (sint sz)) = Panic ''out of memory''
        \<and> sys_message_send a s = Panic ''out of memory''
     \<or> (\<exists>s'. sys_message_send a s = Ok (Ret 0, s') \<and> mail (kern s') b = []
          \<and> kmem_avail (kmem (kern s')) \<subseteq> kmem_avail (kmem (kern s)))"
  using sys_message_send_eq [OF assms(1-8)]
proof
  assume "\<exists>st addr. pgalloc (kmem (kern s)) (msg_pages (sint sz)) = Ok (addr, st)
      \<and> sys_message_send a s = Ok (Ret 0, s\<lparr>kern := sent (kern s) b
           \<lparr>msg_pid = pid (proc_at (kern s) a), msg_size = sint sz, msg_addr = addr\<rparr> st
           (user_bytes (kern s) a data (unat sz))\<rparr>)"
  then obtain st addr where al: "pgalloc (kmem (kern s)) (msg_pages (sint sz)) = Ok (addr, st)"
    and r: "sys_message_send a s = Ok (Ret 0, s\<lparr>kern := sent (kern s) b
           \<lparr>msg_pid = pid (proc_at (kern s) a), msg_size = sint sz, msg_addr = addr\<rparr> st
           (user_bytes (kern s) a data (unat sz))\<rparr>)" by blast
  have sz: "sint sz < 2 ^ 31" using sint_lt [of sz] by simp
  note pg = msg_pages_bounds [OF assms(7) sz]
  note k = kpages.alloc_ok [OF vm_okD(1) [OF assms(1)] pg(1) al]
  have "nat (sint sz) = unat sz" using assms(7) by (simp add: nat_sint)
  then have "mwrite (ram st) addr (user_bytes (kern s) a data (unat sz)) x = ram st x" if "page_of x \<in> kmem_avail st" for x
    by (intro mwrite_run [of addr "unat (msg_pages (sint sz))"]) (use k pg(2) that in \<open>auto simp: disjoint_iff\<close>)
  then have "kmem_avail (st\<lparr>ram := mwrite (ram st) addr (user_bytes (kern s) a data (unat sz))\<rparr>) = kmem_avail st"
    using kmem_write(2) [of st] k by blast
  moreover have "mq_items (mq_put (msgqueue (proc_at (kern s) b)) msg) = []" for msg
    using msgq.put_full [OF assms(3)] assms(9) by simp
  ultimately show ?thesis using r k by (auto simp: sent_simps(1,2) [OF assms(2)])
qed simp

section \<open>An example process\<close>

text \<open>
  A process with one zeroed page of memory at address 0, its trap frame on a zeroed page of the
  kernel, and an empty queue; it can send to itself.
\<close>

definition mail_proc :: "u32 \<Rightarrow> proc" where
  "mail_proc tf = no_proc\<lparr>pid := 1, pstate := RUNNING, pgdir := 0x1000, ptf := tf\<rparr>"

definition mail_kern :: "kmem_state \<Rightarrow> u32 \<Rightarrow> MessageQueue \<Rightarrow> (nat, nat) kernel" where
  "mail_kern st tf q = (sample [(mail_proc tf)\<lparr>msgqueue := q\<rparr>] (Some 0))\<lparr>kmem := st\<rparr>"

lemma mail_kern_simps [simp]:
  "kmem (mail_kern st tf q) = st" "proc_at (mail_kern st tf q) 0 = (mail_proc tf)\<lparr>msgqueue := q\<rparr>"
  "length (ptable (mail_kern st tf q)) = 64" "(mail_kern st tf q)\<lparr>kmem := st'\<rparr> = mail_kern st' tf q"
  "proc_search_pid (mail_kern st tf q) 1 = Some 0"
  by (simp_all add: mail_kern_def sample_def proc_search_pid_def mail_proc_def)

lemma writable_flags: "ucast (PTE_FLAGS e) = (PTE_WU :: u32) OR PTE_P \<Longrightarrow> writable e"
proof -
  assume "ucast (PTE_FLAGS e) = (PTE_WU :: u32) OR PTE_P"
  then have b: "bit (ucast (PTE_FLAGS e) :: u32) n = bit (7 :: u32) n" for n
    by (simp add: PTE_W_def PTE_U_def PTE_P_def)
  have "bit (PTE_FLAGS e) 0" "bit (PTE_FLAGS e) 1" using b [of 0] b [of 1] by (simp_all add: bit_simps)
  then have "bit e 0" "bit e 1" by (simp_all add: PTE_FLAGS_def bit_and_iff)
  then have "bit (e AND 1) 0" "bit (e AND 2) 1" by (simp_all add: bit_and_iff)
  then have "e AND 1 \<noteq> 0" "e AND 2 \<noteq> 0" by auto
  then show ?thesis by (simp add: writable_def present_def PTE_P_def PTE_W_def)
qed

lemma example_memory:
  obtains st tf D where "vm_ok st {0x2000, 0x1000} D" "kmem_avail st \<noteq> {}"
    "\<And>q. user_buf (mail_kern st tf q) 0 0 4096 (D - {page_of tf})"
    "\<And>q. user_bytes (mail_kern st tf q) 0 0 4096 = replicate 4096 0"
    "page_of tf \<in> D" "aligned tf" "\<And>x. page_of x = page_of tf \<Longrightarrow> ram st x = 0"
proof -
  obtain st0 D0 where f: "filled two_tables st0 {0x2000, 0x1000} {} D0 0x1000 0 1 (\<lambda>_. 0) (\<lambda>_. PTE_WU)"
    and av: "11 \<le> card (kmem_avail st0)" by (rule one_page)
  have vm0: "vm_ok st0 {0x2000, 0x1000} D0"
    and pg: "\<And>v. page_of v < 1 \<Longrightarrow> present (pmap (ram st0) 0x1000 v)
          \<and> ucast (PTE_FLAGS (pmap (ram st0) 0x1000 v)) = PTE_WU OR PTE_P
          \<and> page_of (frame (ram st0) 0x1000 v) \<in> D0 \<and> uread (ram st0) 0x1000 v = 0"
    using f by (simp_all add: filled_def)
  have ne: "kmem_avail st0 \<noteq> {}" using av by auto
  obtain tf st1 where al: "kalloc st0 = Ok (tf, st1)"
    using kalloc_total [OF vm_okD(1) [OF vm0]] ne by metis
  note ka = kalloc_page [OF vm_okD(1) [OF vm0] al]
  define m' where "m' = memset (ram st1) tf 0 PGSIZE"
  have m0: "m' x = (if page_of x = page_of tf then 0 else ram st1 x)" for x
    by (simp add: m'_def memset_fill PGSIZE_def fill_page [OF ka(2)])
  then have "\<forall>x. page_of x \<noteq> page_of tf \<longrightarrow> m' x = ram st1 x" by simp
  note n = new_data_page [OF vm0 al this]
  let ?st = "st1\<lparr>ram := m'\<rparr>" and ?D = "insert (page_of tf) D0"
  have small: "unat (of_nat i :: u32) = i" "page_of (of_nat i :: u32) = 0" if "i < 4096" for i
    using that unat_of_nat_u32 [of i] by (simp_all add: page_of_def)
  have pm: "pmap m' 0x1000 = pmap (ram st0) 0x1000" by (rule n(2)) simp
  have fr: "frame m' 0x1000 v = frame (ram st0) 0x1000 v" "kaddr m' 0x1000 v = kaddr (ram st0) 0x1000 v" for v
    using kaddr_cong [OF pm] by (simp_all add: frame_def pm)
  have u: "user_buf (mail_kern ?st tf q) 0 0 4096 (?D - {page_of tf})" for q
    using pg n(4) by (auto simp: user_buf_def Let_def mail_proc_def pm fr small intro!: writable_flags)
  have "uread m' 0x1000 (of_nat i) = 0" if "i < 4096" for i
    using pg [of "of_nat i"] small(2) [OF that] n(3) [of "kaddr (ram st0) 0x1000 (of_nat i)"]
    by (simp add: uread_kaddr fr page_of_kaddr)
  then have z: "user_bytes (mail_kern ?st tf q) 0 0 4096 = replicate 4096 0" for q
    by (intro nth_equalityI) (simp_all add: user_bytes_def mail_proc_def)
  have "11 \<le> Suc (card (kmem_avail ?st))"
    using av n(7) card_insert_bound [of "page_of tf" "kmem_avail ?st"] by simp
  then have "kmem_avail ?st \<noteq> {}" by auto
  from that [OF n(1) this u z] show ?thesis using n(5) m0 by simp
qed

text \<open>Arguments on the stack.\<close>

lemma concat_bytes32:
  "n < length ws \<Longrightarrow> take 4 (drop (4 * n) (concat (map bytes32 ws))) = bytes32 (ws ! n)"
proof (induction ws arbitrary: n)
  case (Cons w ws)
  then show ?case by (cases n) (simp_all add: drop_append)
qed simp

lemma user_part:
  assumes "a + l \<le> n"
  shows "user_bytes k cur (va + of_nat a) l = take l (drop a (user_bytes k cur va n))"
    "user_src k cur va n U \<Longrightarrow> user_src k cur (va + of_nat a) l U"
proof -
  show "user_bytes k cur (va + of_nat a) l = take l (drop a (user_bytes k cur va n))"
    using assms by (intro nth_equalityI) (simp_all add: user_bytes_def add.assoc)
  show "user_src k cur (va + of_nat a) l U" if "user_src k cur va n U"
    using that assms unfolding user_src_def Let_def
    by (metis (no_types, lifting) add.assoc add_less_cancel_left of_nat_add order_less_le_trans)
qed

lemma user_buf_part:
  assumes "user_buf k cur va n U" and "a + l \<le> n"
  shows "user_buf k cur (va + of_nat a) l U"
proof -
  have r: "va + of_nat a + of_nat i = va + of_nat (a + i)" "a + i < n" if "i < l" for i
    using that assms(2) by (simp_all add: add.assoc)
  show ?thesis
    using assms unfolding user_buf_def Let_def by (intro conjI allI impI) (simp_all only: r, auto)
qed

lemma call_argsI:
  assumes esp: "load32 (ram (kmem k)) (ptf (proc_at k cur) + 68) = esp"
    and src: "user_src k cur (esp + 4) (4 * length ws) U"
    and bs: "user_bytes k cur (esp + 4) (4 * length ws) = concat (map bytes32 ws)"
  shows "call_args k cur ws"
  unfolding call_args_def
proof (intro allI impI)
  fix n assume n: "n < length ws"
  then have l: "4 * n + 4 \<le> 4 * length ws" by simp
  have "ubytes k cur (esp + 4 + of_nat (4 * n)) 4 = Ok (bytes32 (ws ! n))"
    using ubytes_user_src [OF user_part(2) [OF l src]] user_part(1) [OF l, of k cur "esp + 4"] bs concat_bytes32 [OF n]
    by simp
  then show "argint k cur n = Ok (0, ws ! n)"
    using le32_bytes32 [of "[]" "ws ! n" "[]"] by (simp add: argint_def fetchint_def uword_def esp)
qed

lemma load32_frame:
  assumes "aligned t" and "\<And>x. page_of x = page_of t \<Longrightarrow> m' x = m x"
  shows "load32 m' (t + 68) = load32 m (t + 68)"
proof -
  have "m' (t + d) = m (t + d)" if "unat d < 4096" for d
    by (rule assms(2)) (use page_of_offset [OF assms(1), of "t + d"] that in simp)
  from this [of 68] this [of 69] this [of 70] this [of 71] show ?thesis by (simp add: load32_def add.assoc)
qed

lemma load32_zero_page:
  assumes "aligned t" and "\<And>x. page_of x = page_of t \<Longrightarrow> m x = 0"
  shows "load32 m (t + 68) = 0"
  using load32_frame [OF assms(1), of m "\<lambda>_. 0"] assms(2) by (simp add: load32_def)

lemma example_args:
  obtains st tf D where "vm_ok st {0x2000, 0x1000} D" "kmem_avail st \<noteq> {}" "page_of tf \<in> D"
    "\<And>q. load32 (ram (kmem (mail_kern st tf q))) (ptf (proc_at (mail_kern st tf q) 0) + 68) = 0" "aligned tf"
    "\<And>q. user_buf (mail_kern st tf q) 0 0 4096 (D - {page_of tf})"
    "\<And>q. user_bytes (mail_kern st tf q) 0 4 12 = concat (map bytes32 [1, 4, 4])"
proof -
  obtain st tf D where ex: "vm_ok st {0x2000, 0x1000} D" "kmem_avail st \<noteq> {}"
    "\<And>q. user_buf (mail_kern st tf q) 0 0 4096 (D - {page_of tf})"
    "\<And>q. user_bytes (mail_kern st tf q) 0 0 4096 = replicate 4096 0"
    "page_of tf \<in> D" "aligned tf" "\<And>x. page_of x = page_of tf \<Longrightarrow> ram st x = 0"
    using example_memory by metis
  let ?k = "mail_kern st tf (msgqueue no_proc)" and ?bs = "concat (map bytes32 [1, 4, 4 :: u32])"
  let ?U = "D - {page_of tf}"
  have l: "length ?bs = 12" by simp
  have ub: "user_buf ?k 0 4 (length ?bs) ?U"
    using user_buf_part [OF ex(3) [of "msgqueue no_proc"], of 4 12] by simp
  have pd: "pgdir (proc_at ?k 0) = 0x1000" by (simp add: mail_proc_def)
  have "vm_ok (kmem ?k) {0x2000, 0x1000} D" "pgdir (proc_at ?k 0) \<in> {0x2000, 0x1000}" using ex(1) pd by simp_all
  from uwrite_ok [OF this Diff_subset ub, unfolded pd] obtain m' where
    out: "\<forall>x. x \<notin> (\<lambda>i. kaddr (ram st) 0x1000 (4 + of_nat i)) ` {..<length ?bs} \<longrightarrow> m' x = ram st x"
    and into: "\<forall>i < length ?bs. m' (kaddr (ram st) 0x1000 (4 + of_nat i)) = ?bs ! i"
    by auto
  have outU: "m' x = ram st x" if "page_of x \<notin> ?U" for x
  proof (rule out [rule_format], rule notI)
    assume "x \<in> (\<lambda>i. kaddr (ram st) 0x1000 (4 + of_nat i)) ` {..<length ?bs}"
    then show False using that ub by (auto simp: user_buf_def Let_def page_of_kaddr mail_proc_def)
  qed
  then have "\<forall>x. page_of x \<notin> D \<longrightarrow> m' x = ram st x" by blast
  note dw = data_write [OF ex(1) this]
  have pm: "pmap m' 0x1000 = pmap (ram st) 0x1000" by (rule dw(3)) simp
  show ?thesis
  proof (rule that [OF dw(1) _ ex(5)])
    show "kmem_avail (st\<lparr>ram := m'\<rparr>) \<noteq> {}" using dw(2) ex(2) by simp
    show "aligned tf" by (rule ex(6))
    show "load32 (ram (kmem (mail_kern (st\<lparr>ram := m'\<rparr>) tf q))) (ptf (proc_at (mail_kern (st\<lparr>ram := m'\<rparr>) tf q) 0) + 68) = 0" for q
      using load32_zero_page [OF ex(6), of m'] outU ex(7) by (simp add: mail_proc_def)
    show "user_buf (mail_kern (st\<lparr>ram := m'\<rparr>) tf q) 0 0 4096 ?U" for q
      using user_buf_same(1) [of "mail_kern (st\<lparr>ram := m'\<rparr>) tf q" 0 "mail_kern st tf q"] ex(3) [of q] pm by (simp add: mail_proc_def)
    show "user_bytes (mail_kern (st\<lparr>ram := m'\<rparr>) tf q) 0 4 12 = ?bs" for q
      using into kaddr_cong [OF pm]
      by (intro nth_equalityI) (simp_all only: l length_user_bytes, simp add: user_bytes_def uread_kaddr mail_proc_def)
  qed
qed

lemma no_mail: "mq_ok (msgqueue no_proc)" "mq_items (msgqueue no_proc) = []"
  by (simp_all add: mq_ok_def mq_items_def no_proc_def ring_items_def ring_count_def)

lemma one_page_message: "msg_pages 4 = 1"
  by (simp add: msg_pages_def)

text \<open>The example, ready for a call with the arguments 1, 4, 4.\<close>

lemma example_call:
  obtains st tf D where "vm_ok st {0x2000, 0x1000} D" "page_of tf \<in> D" "aligned tf"
    "\<And>q. call_args (mail_kern st tf q) 0 [1, 4, 4]"
    "\<And>q. load32 (ram (kmem (mail_kern st tf q))) (ptf (proc_at (mail_kern st tf q) 0) + 68) = 0"
    "\<And>q. user_buf (mail_kern st tf q) 0 0 4096 (D - {page_of tf})" "\<And>q. user_bytes (mail_kern st tf q) 0 4 4 = [1, 0, 0, 0]"
    "\<exists>addr st'. pgalloc st 1 = Ok (addr, st')"
proof -
  obtain st tf D where ex: "vm_ok st {0x2000, 0x1000} D" "kmem_avail st \<noteq> {}" "page_of tf \<in> D"
    "\<And>q. load32 (ram (kmem (mail_kern st tf q))) (ptf (proc_at (mail_kern st tf q) 0) + 68) = 0" "aligned tf"
    "\<And>q. user_buf (mail_kern st tf q) 0 0 4096 (D - {page_of tf})"
    "\<And>q. user_bytes (mail_kern st tf q) 0 4 12 = concat (map bytes32 [1, 4, 4])"
    using example_args by metis
  have "call_args (mail_kern st tf q) 0 [1, 4, 4]" for q
    using call_argsI [OF ex(4) [of q], of "[1, 4, 4]" "D - {page_of tf}"] ex(7) [of q]
      user_buf_src [OF user_buf_part [OF ex(6) [of q], of 4 12]] by simp
  moreover have "user_bytes (mail_kern st tf q) 0 4 4 = [1, 0, 0, 0]" for q
    using user_part(1) [of 0 4 12 "mail_kern st tf q" 0 4] ex(7) [of q] by (simp add: bytes32_def)
  moreover have "\<exists>addr st'. pgalloc st 1 = Ok (addr, st')"
    using kalloc_total [OF vm_okD(1) [OF ex(1)]] ex(2) by (metis kalloc_def)
  ultimately show ?thesis using that ex by metis
qed

theorem message_send_appends_witness:
  "\<exists>s s' :: (nat, nat) sys. sys_message_send 0 s = Ok (Ret 0, s') \<and> inbox (kern s) 0 = [] \<and> inbox (kern s') 0 = [(1, [1, 0, 0, 0])]"
proof -
  obtain st tf D where ex: "vm_ok st {0x2000, 0x1000} D" "page_of tf \<in> D" "aligned tf"
    "\<And>q. call_args (mail_kern st tf q) 0 [1, 4, 4]"
    "\<And>q. load32 (ram (kmem (mail_kern st tf q))) (ptf (proc_at (mail_kern st tf q) 0) + 68) = 0"
    "\<And>q. user_buf (mail_kern st tf q) 0 0 4096 (D - {page_of tf})" "\<And>q. user_bytes (mail_kern st tf q) 0 4 4 = [1, 0, 0, 0]"
    "\<exists>addr st'. pgalloc st 1 = Ok (addr, st')"
    by (rule example_call) (rule that, assumption+)
  let ?k = "mail_kern st tf (msgqueue no_proc)"
  have ib: "mail_ok ?k {0x2000, 0x1000} D 0" "inbox ?k 0 = []"
    using ex(1) no_mail by (simp_all add: mail_ok_def inbox_def free_pages_def)
  have "user_src ?k 0 4 4 D"
    using user_buf_src [OF user_buf_part [OF ex(6) [of "msgqueue no_proc"], of 4 4]] by (auto simp: user_src_def Let_def)
  then have "\<exists>s'. sys_message_send 0 (idle_sys ?k) = Ok (Ret 0, s') \<and> inbox (kern s') 0 = [(1, [1, 0, 0, 0])]"
    using message_send_appends [of "idle_sys ?k" "{0x2000, 0x1000}" D 0 0 1 4 4] ib ex(4,7,8)
    by (auto simp: mail_proc_def one_page_message)
  then show ?thesis using ib(2) by - (rule exI [of _ "idle_sys ?k"], auto)
qed

theorem message_receive_takes_head_witness:
  "\<exists>s s' :: (nat, nat) sys. inbox (kern s) 0 = [(7, [9, 8, 7, 6])] \<and> sys_message_receive 0 s = Ok (Ret 7, s')
     \<and> inbox (kern s') 0 = [] \<and> user_bytes (kern s') 0 1 4 = [9, 8, 7, 6]"
proof -
  obtain st tf D where ex: "vm_ok st {0x2000, 0x1000} D" "page_of tf \<in> D" "aligned tf"
    "\<And>q. call_args (mail_kern st tf q) 0 [1, 4, 4]"
    "\<And>q. load32 (ram (kmem (mail_kern st tf q))) (ptf (proc_at (mail_kern st tf q) 0) + 68) = 0"
    "\<And>q. user_buf (mail_kern st tf q) 0 0 4096 (D - {page_of tf})" "\<And>q. user_bytes (mail_kern st tf q) 0 4 4 = [1, 0, 0, 0]"
    "\<exists>addr st'. pgalloc st 1 = Ok (addr, st')"
    by (rule example_call) (rule that, assumption+)
  obtain addr st' where al: "pgalloc st 1 = Ok (addr, st')" using ex(8) by blast
  let ?k = "mail_kern st tf (msgqueue no_proc)" and ?R = "{0x2000, 0x1000} :: u32 set"
  define msg where "msg = \<lparr>msg_pid = 7, msg_size = 4, msg_addr = addr\<rparr>"
  define k where "k = sent ?k 0 msg st' [9, 8, 7, 6]"
  let ?U = "D \<union> run_pages (msg_run msg) - free_pages (map msg_run (mail k 0))"
  have ib: "mail_ok ?k ?R D 0" "inbox ?k 0 = []"
    using ex(1) no_mail by (simp_all add: mail_ok_def inbox_def free_pages_def)
  have m: "0 < msg_size msg" "msg_size msg < 2 ^ 31" "pgalloc (kmem ?k) (msg_pages (msg_size msg)) = Ok (msg_addr msg, st')"
    "length [9, 8, 7, 6 :: u8] = nat (msg_size msg)" using al by (simp_all add: msg_def one_page_message)
  note s = sent_mail [OF ib(1) m, folded k_def]
  have i: "mail_ok k ?R (D \<union> run_pages (msg_run msg)) 0" "inbox k 0 = [(7, [9, 8, 7, 6])]"
    using sent_inbox [OF ib(1) m] ib(2) by (simp_all add: k_def msg_def)
  have pd: "pgdir (proc_at k 0) = 0x1000" "ptf (proc_at k 0) = tf"
    by (simp_all add: k_def sent_def wakeup_def wakeup1_def upd_proc_def wakeup_proc_def mail_proc_def)
  have pm: "pmap (ram (kmem k)) 0x1000 = pmap (ram (kmem ?k)) 0x1000" by (rule s(6)) simp
  have ub: "user_buf k 0 0 4096 (D - {page_of tf})"
    using user_buf_same(1) [of k 0 ?k] pm pd ex(6) [of "msgqueue no_proc"] by (simp add: mail_proc_def)
  have "mail k 0 = [msg]"
    using msgq.put_room [OF no_mail(1), of msg] no_mail(2) by (simp add: k_def sent_simps(2) mail_proc_def)
  then have "D - {page_of tf} \<subseteq> ?U" using s(3) by (auto simp: free_pages_def)
  then have buf: "user_buf k 0 1 4 ?U"
    using user_buf_mono [OF user_buf_part [OF ub, of 1 4]] by simp
  have "ram (kmem k) x = ram st x" if "page_of x = page_of tf" for x using s(4) [of x] ex(2) that by simp
  then have "load32 (ram (kmem k)) (tf + 68) = load32 (ram st) (tf + 68)" by (rule load32_frame [OF ex(3)])
  then have esp: "load32 (ram (kmem k)) (ptf (proc_at k 0) + 68) = 0"
    using ex(5) [of "msgqueue no_proc"] pd(2) by (simp add: mail_proc_def)
  have src: "user_src ?k 0 4 4 D"
    using user_buf_src [OF user_buf_mono [OF user_buf_part [OF ex(6) [of "msgqueue no_proc"], of 4 4]]] by auto
  have "user_src k 0 4 4 D" "user_bytes k 0 4 4 = user_bytes ?k 0 4 4"
    using user_bytes_same [OF src, of k] pm pd s(4) by (simp_all add: mail_proc_def)
  then have "call_args k 0 [1]"
    using call_argsI [OF esp, of "[1]" D] ex(7) [of "msgqueue no_proc"] by (simp add: bytes32_def)
  then have "\<exists>s' msg. sys_message_receive 0 (idle_sys k) = Ok (Ret 7, s') \<and> inbox (kern s') 0 = [] \<and> user_bytes (kern s') 0 1 4 = [9, 8, 7, 6]"
    using message_receive_takes_head [of "idle_sys k" ?R "D \<union> run_pages (msg_run msg)" 0 1 7 "[9, 8, 7, 6]" "[]"] i pd buf
    by (auto simp: numeral_eq_Suc)
  then show ?thesis using i(2) by - (rule exI [of _ "idle_sys k"], auto)
qed

theorem message_overflow_loses_all_witness:
  "\<exists>s s' :: (nat, nat) sys. length (mail (kern s) 0) = 63 \<and> sys_message_send 0 s = Ok (Ret 0, s') \<and> mail (kern s') 0 = []"
proof -
  obtain st tf D where ex: "vm_ok st {0x2000, 0x1000} D" "page_of tf \<in> D" "aligned tf"
    "\<And>q. call_args (mail_kern st tf q) 0 [1, 4, 4]"
    "\<And>q. load32 (ram (kmem (mail_kern st tf q))) (ptf (proc_at (mail_kern st tf q) 0) + 68) = 0"
    "\<And>q. user_buf (mail_kern st tf q) 0 0 4096 (D - {page_of tf})" "\<And>q. user_bytes (mail_kern st tf q) 0 4 4 = [1, 0, 0, 0]"
    "\<exists>addr st'. pgalloc st 1 = Ok (addr, st')"
    by (rule example_call) (rule that, assumption+)
  define q where "q = (msgqueue no_proc)\<lparr>mq_begin := 63\<rparr>"
  have q: "mq_ok q" "length (mq_items q) = 63"
    by (simp_all add: q_def mq_ok_def mq_items_def no_proc_def ring_count_def)
  have src: "user_src (mail_kern st tf q) 0 4 4 D"
    using user_buf_src [OF user_buf_mono [OF user_buf_part [OF ex(6) [of q], of 4 4]]] by auto
  have "\<exists>s'. sys_message_send 0 (idle_sys (mail_kern st tf q)) = Ok (Ret 0, s') \<and> mail (kern s') 0 = []"
    using message_overflow_loses_all [of "idle_sys (mail_kern st tf q)" "{0x2000, 0x1000}" D 0 0 1 4 4] ex(1,4,8) q src
    by (auto simp: mail_proc_def one_page_message)
  then show ?thesis using q(2) by - (rule exI [of _ "idle_sys (mail_kern st tf q)"], auto)
qed

end
