(* ===== verification/Syscall.thy ===== *)
theory Syscall
  imports Sysproc Sysfile
begin

text \<open>
  The entry into the kernel: the table of system calls and \<open>syscall\<close> (\<^verbatim>\<open>kernel/proc/syscall/syscall.c\<close>,
  numbers in \<^verbatim>\<open>syscall.h\<close>), traps and interrupts (\<^verbatim>\<open>kernel/arch/x86/trap.c\<close>).
\<close>

section \<open>Dispatch (syscall.c)\<close>

text \<open>Entry \<open>i\<close> is the handler of call number \<open>i\<close>.\<close>

definition syscalls :: "('p, 's) sysenv \<Rightarrow> ('p, 's) handler option list" where
  "syscalls env = None # map Some
     [sys_fork, sys_exit, sys_wait, sys_pipe, sys_read, sys_kill, sys_exec, sys_getcwd, sys_chdir, sys_dup,
      sys_getpid, sys_sbrk, sys_sleep, sys_uptime, sys_open, sys_write env, sys_mknod, sys_unlink, sys_link,
      sys_mkdir, sys_close, sys_dir_open, sys_dir_read, sys_dir_close, sys_file_get_size, sys_lseek,
      sys_file_get_mode, sys_dynamic_load, sys_kcall env, sys_message_send, sys_message_receive,
      sys_message_wait, sys_getppid, sys_proc_search, sys_pty_create, sys_pty_read_output,
      sys_pty_write_input, sys_pty_close, sys_pty_switch, sys_proc_status, sys_module_load env]"

text \<open>\<^verbatim>\<open>eax\<close> is at offset 28 of the trap frame. A call that sleeps stores its result when it returns.\<close>

definition set_eax :: "nat \<Rightarrow> ('p, 's) sys \<Rightarrow> int \<Rightarrow> ('p, 's) sys" where
  "set_eax cur s v =
     s\<lparr>kern := (kern s)\<lparr>kmem := (kmem (kern s))\<lparr>ram :=
       store32 (ram (kmem (kern s))) (ptf (proc_at (kern s) cur) + 28) (of_int v)\<rparr>\<rparr>\<rparr>"

definition syscall_return :: "nat \<Rightarrow> sysret \<times> ('p, 's) sys \<Rightarrow> (sysret \<times> ('p, 's) sys) kres" where
  "syscall_return cur r = (case r of (Ret v, s) \<Rightarrow> Ok (Ret v, set_eax cur s v) | _ \<Rightarrow> Ok r)"

text \<open>
  The table entry of a process is not in page memory; its name gets an address of its own for the
  \<^verbatim>\<open>%s\<close> of \<open>cprintf\<close>.
\<close>

definition name_mem :: "proc \<Rightarrow> mem" where
  "name_mem p = mwrite (\<lambda>_. 0) 16 (pname p)"

definition syscall :: "('p, 's) sysenv \<Rightarrow> ('p, 's) sys \<Rightarrow> (sysret \<times> ('p, 's) sys) kres" where
  "syscall env s =
     (case myproc (kern s) of None \<Rightarrow> Fault
      | Some cur \<Rightarrow>
          let p = proc_at (kern s) cur; num = load32 (ram (kmem (kern s))) (ptf p + 28)
          in if num > 0 \<and> unat num < length (syscalls env) \<and> syscalls env ! unat num \<noteq> None
             then kbind (the (syscalls env ! unat num) cur s) (syscall_return cur)
             else kbind (cprintf (sys_font env) (name_mem p) (screen s)
                           (bytes_of ''%d %s: unknown sys call %d'' @ [10]) [of_int (pid p), 16, num]) (\<lambda>cs.
                    syscall_return cur (Ret (-1), s\<lparr>screen := cs\<rparr>)))"

text \<open>A sleeping call goes on after \<open>sleep\<close> has returned.\<close>

definition resume :: "blocked \<Rightarrow> nat \<Rightarrow> ('p, 's) sys \<Rightarrow> (sysret \<times> ('p, 's) sys) kres" where
  "resume b cur s =
     (let s = s\<lparr>kern := sleep_end (kern s) cur\<rparr>
      in kbind (case b of
                  InWait \<Rightarrow> sys_wait cur s
                | InSleep ticks0 n \<Rightarrow> sleep_round ticks0 n cur s
                | InMessageWait data \<Rightarrow> message_wait_round data cur s
                | InConsoleRead p target n \<Rightarrow>
                    console_round target (consoleread_loop (killed (proc_at (kern s) cur)) target n [] (kinput s)) p cur s
                | InPtyRead ptyid p n \<Rightarrow> pty_read_round ptyid p n cur s) (syscall_return cur))"

section \<open>Traps (trap.c)\<close>

definition T_SYSCALL :: u32 where "T_SYSCALL = 64"
definition T_IRQ0 :: u32 where "T_IRQ0 = 32"

text \<open>
  \<open>trap\<close> returns to the interrupted code, ends the process, leaves it asleep in a system call, or
  gives up the CPU in \<open>yield\<close>.
\<close>

datatype trapret = TReturn | TExit | TBlock blocked | TYield

definition exit_killed :: "('p, 's) sys \<Rightarrow> (trapret \<times> ('p, 's) sys) kres" where
  "exit_killed s = kbind (exit (kern s) (-1)) (\<lambda>k. Ok (TExit, s\<lparr>kern := k\<rparr>))"

text \<open>The end of a system call: \<open>trap\<close> after \<open>syscall\<close>.\<close>

definition trap_syscall_end :: "nat \<Rightarrow> sysret \<times> ('p, 's) sys \<Rightarrow> (trapret \<times> ('p, 's) sys) kres" where
  "trap_syscall_end cur r =
     (case r of (Ret v, s) \<Rightarrow> if killed (proc_at (kern s) cur) then exit_killed s else Ok (TReturn, s)
      | (Block b, s) \<Rightarrow> Ok (TBlock b, s)
      | (Exited, s) \<Rightarrow> Ok (TExit, s))"

definition trap_syscall :: "('p, 's) sysenv \<Rightarrow> u32 \<Rightarrow> ('p, 's) sys \<Rightarrow> (trapret \<times> ('p, 's) sys) kres" where
  "trap_syscall env tf s =
     (case myproc (kern s) of None \<Rightarrow> Fault
      | Some cur \<Rightarrow>
          if killed (proc_at (kern s) cur) then exit_killed s
          else kbind (syscall env (s\<lparr>kern := upd_proc (kern s) cur (\<lambda>p. p\<lparr>ptf := tf\<rparr>)\<rparr>)) (trap_syscall_end cur))"

text \<open>\<^verbatim>\<open>tf->cs & 3\<close>, \<^verbatim>\<open>tf->trapno\<close>, \<^verbatim>\<open>tf->err\<close> and \<^verbatim>\<open>tf->eip\<close>.\<close>

definition tf_ring :: "('p, 's) sys \<Rightarrow> u32 \<Rightarrow> u16" where
  "tf_ring s tf = load16 (ram (kmem (kern s))) (tf + 60) AND 3"

definition tf_trapno :: "('p, 's) sys \<Rightarrow> u32 \<Rightarrow> u32" where
  "tf_trapno s tf = load32 (ram (kmem (kern s))) (tf + 48)"

text \<open>The branches of the \<^verbatim>\<open>switch\<close>. Lines 5, 9, 10, 11 go to the PCI handlers, 65 to 254 are MSI.\<close>

definition device_trap :: "u32 \<Rightarrow> bool" where
  "device_trap no \<longleftrightarrow> no \<in> set (map ((+) T_IRQ0) [12, 14, 15, 1, 4, 3, 5, 9, 10, 11]) \<or> 65 \<le> no \<and> no \<le> 0xfe"

definition trap_default :: "('p, 's) sysenv \<Rightarrow> u32 \<Rightarrow> ('p, 's) sys \<Rightarrow> ('p, 's) sys kres" where
  "trap_default env tf s =
     (let m = ram (kmem (kern s)); eip = load32 m (tf + 56)
      in case (if tf_ring s tf = 0 then None else myproc (kern s)) of
           None \<Rightarrow>
             kbind (cprintf (sys_font env) m (screen s)
                      (bytes_of ''unexpected trap %d from cpu %d eip %x (cr2=0x%x)'' @ [10])
                      [tf_trapno s tf, of_nat (sys_cpuid env), eip, sys_cr2 env]) (\<lambda>cs. Panic ''trap'')
         | Some cur \<Rightarrow>
             let p = proc_at (kern s) cur
             in kbind (cprintf (sys_font env) (name_mem p) (screen s)
                         (bytes_of ''pid %d %s: trap %d err %d on cpu %d eip 0x%x addr 0x%x--kill proc'' @ [10])
                         [of_int (pid p), 16, tf_trapno s tf, load32 m (tf + 52), of_nat (sys_cpuid env), eip, sys_cr2 env])
                  (\<lambda>cs. Ok (s\<lparr>screen := cs, kern := upd_proc (kern s) cur (\<lambda>p. p\<lparr>killed := True\<rparr>)\<rparr>)))"

definition trap_event :: "('p, 's) sysenv \<Rightarrow> u32 \<Rightarrow> ('p, 's) sys \<Rightarrow> ('p, 's) sys kres" where
  "trap_event env tf s =
     (let no = tf_trapno s tf; m = ram (kmem (kern s))
      in if no = T_IRQ0
         then Ok (if sys_cpuid env = 0
                  then s\<lparr>kticks := kticks s + 1, kern := wakeup (kern s) (Some TicksChan)\<rparr> else s)
         else if device_trap no then sys_device_intr env no s
         else if no = T_IRQ0 + 7 \<or> no = T_IRQ0 + 31
         then kbind (cprintf (sys_font env) m (screen s)
                       (bytes_of ''cpu%d: spurious interrupt at %x:%x'' @ [10])
                       [of_nat (sys_cpuid env), ucast (load16 m (tf + 60)), load32 m (tf + 56)]) (\<lambda>cs.
                Ok (s\<lparr>screen := cs\<rparr>))
         else trap_default env tf s)"

text \<open>\<^verbatim>\<open>myproc() && myproc()->killed && (tf->cs & 3) == DPL_USER\<close>, with \<open>ring\<close> read when the trap was taken.\<close>

definition must_exit :: "u16 \<Rightarrow> ('p, 's) sys \<Rightarrow> bool" where
  "must_exit ring s \<longleftrightarrow>
     (case myproc (kern s) of None \<Rightarrow> False | Some cur \<Rightarrow> killed (proc_at (kern s) cur) \<and> ring = ucast DPL_USER)"

definition trap :: "('p, 's) sysenv \<Rightarrow> u32 \<Rightarrow> ('p, 's) sys \<Rightarrow> (trapret \<times> ('p, 's) sys) kres" where
  "trap env tf s =
     (if tf_trapno s tf = T_SYSCALL then trap_syscall env tf s
      else let ring = tf_ring s tf; no = tf_trapno s tf
           in kbind (trap_event env tf s) (\<lambda>s.
                if must_exit ring s then exit_killed s
                else case myproc (kern s) of
                       Some cur \<Rightarrow>
                         if pstate (proc_at (kern s) cur) = RUNNING \<and> no = T_IRQ0
                         then kbind (yield (kern s)) (\<lambda>k. Ok (TYield, s\<lparr>kern := k\<rparr>))
                         else Ok (TReturn, s)
                     | None \<Rightarrow> Ok (TReturn, s)))"

text \<open>The rest of \<open>trap\<close> once the process runs again after \<open>yield\<close>, and after it has slept in a call.\<close>

definition trap_after_yield :: "u16 \<Rightarrow> ('p, 's) sys \<Rightarrow> (trapret \<times> ('p, 's) sys) kres" where
  "trap_after_yield ring s = (if must_exit ring s then exit_killed s else Ok (TReturn, s))"

definition trap_resume :: "blocked \<Rightarrow> nat \<Rightarrow> ('p, 's) sys \<Rightarrow> (trapret \<times> ('p, 's) sys) kres" where
  "trap_resume b cur s = kbind (resume b cur s) (trap_syscall_end cur)"

text \<open>The interrupt descriptor table; \<open>vectors\<close> are the entry points of \<^verbatim>\<open>vectors.S\<close>.\<close>

record gatedesc =
  off_15_0 :: u16
  gate_cs :: u16
  gate_type :: u8
  gate_dpl :: u8
  gate_p :: bool
  off_31_16 :: u16

definition SETGATE :: "bool \<Rightarrow> u16 \<Rightarrow> u32 \<Rightarrow> u8 \<Rightarrow> gatedesc" where
  "SETGATE istrap sel off d =
     \<lparr>off_15_0 = ucast (off AND 0xffff), gate_cs = sel, gate_type = (if istrap then 0xf else 0xe), gate_dpl = d,
      gate_p = True, off_31_16 = ucast (drop_bit 16 off)\<rparr>"

definition tvinit :: "(nat \<Rightarrow> u32) \<Rightarrow> gatedesc list" where
  "tvinit vectors =
     (map (\<lambda>i. SETGATE False (of_nat SEG_KCODE * 8) (vectors i) 0) [0..<256])
       [unat T_SYSCALL := SETGATE True (of_nat SEG_KCODE * 8) (vectors (unat T_SYSCALL)) (ucast DPL_USER)]"

section \<open>What a system call leaves alone\<close>

definition live :: "proc \<Rightarrow> bool" where
  "live p \<longleftrightarrow> pstate p \<noteq> UNUSED \<and> pstate p \<noteq> ZOMBIE"

text \<open>What belongs to a process alone: its identity, descriptors, address space, directory and terminal.\<close>

definition private_part :: "proc \<Rightarrow> (int \<times> u8 list \<times> FileDesc list) \<times> (u32 \<times> u32 \<times> u32 \<times> u32 \<times> u32) \<times> (u32 \<times> u32) \<times> int \<times> u32 \<times> int" where
  "private_part p = ((pid p, pname p, files p), (pgdir p, psz p, stack_size p, heap_size p, dyn_base p), (kstack p, ptf p),
     cwd_parts p, cwd_pathbuf p, ppty p)"

definition kept :: "nat set \<Rightarrow> ('p, 's) kernel \<Rightarrow> ('p, 's) kernel \<Rightarrow> bool" where
  "kept A k k' \<longleftrightarrow> length (ptable k') = length (ptable k) \<and> (\<forall>j < length (ptable k). j \<notin> A \<longrightarrow> live (proc_at k j) \<longrightarrow>
     live (proc_at k' j) \<and> private_part (proc_at k' j) = private_part (proc_at k j))"

lemma kept_same: "ptable k' = ptable k \<Longrightarrow> kept A k k'"
  by (simp add: kept_def)

lemma kept_update: "ptable k' = (ptable k)[i := p] \<Longrightarrow> i \<in> A \<or> \<not> live (proc_at k i) \<Longrightarrow> kept A k k'"
  unfolding kept_def by (metis length_list_update nth_list_update_neq)

lemma kept_trans: "kept A k k1 \<Longrightarrow> kept A k1 k2 \<Longrightarrow> kept A k k2"
  by (auto simp: kept_def)

lemma kept_wakeup: "kept A k (wakeup1 k ch)"
  by (auto simp: kept_def live_def wakeup_proc_def private_part_def)

lemma kept_public:
  assumes "\<And>p. live (f p) = live p" and "\<And>p. private_part (f p) = private_part p"
  shows "kept A k (upd_proc k i f)"
  unfolding kept_def
proof (intro conjI allI impI)
  fix j assume "j < length (ptable k)"
  then show "live (proc_at k j) \<Longrightarrow> live (proc_at (upd_proc k i f) j)"
    "private_part (proc_at (upd_proc k i f) j) = private_part (proc_at k j)"
    by (cases "j = i"; simp add: assms)+
qed simp

text \<open>User memory and files do not touch the table.\<close>

lemma ustore_table: "ustore k cur va b = Ok k' \<Longrightarrow> ptable k' = ptable k"
  by (auto simp: ustore_def Let_def split: if_splits)

lemma uwrite_table: "uwrite k cur va bs = Ok k' \<Longrightarrow> ptable k' = ptable k"
  by (induction bs arbitrary: k va) (auto simp: kbind_Ok_iff dest!: ustore_table)

lemma uwrite_myproc: "uwrite k cur va bs = Ok k' \<Longrightarrow> myproc k' = myproc k"
  by (induction bs arbitrary: k va) (auto simp: kbind_Ok_iff myproc_def ustore_def Let_def split: if_splits)

lemma uwrite_back_table: "uwrite_back k cur va as bs = Ok k' \<Longrightarrow> ptable k' = ptable k"
  by (induction k cur va as bs rule: uwrite_back.induct) (auto simp: kbind_Ok_iff dest!: ustore_table split: if_splits)

lemma ustore_word_table: "ustore_word k cur p w = Ok k' \<Longrightarrow> ptable k' = ptable k"
  by (auto simp: ustore_word_def dest: uwrite_table split: option.splits)

lemma vfs_back_table [simp]: "ptable (vfs_back k v) = ptable k"
  by (simp add: vfs_back_def)

lemma set_fd_table [simp]: "ptable (set_fd k cur i d) = (ptable k)[cur := (proc_at k cur)\<lparr>files := (files (proc_at k cur))[i := d]\<rparr>]"
  by (simp add: set_fd_def)

lemma pty_back_table [simp]: "ptable (kern (pty_back s st)) = ptable (kern s)"
  by (simp add: pty_back_def)

text \<open>Rules that follow the shape of a handler.\<close>

named_theorems kept_rules
named_theorems handler_kept

definition rkept :: "nat \<Rightarrow> ('p, 's) kernel \<Rightarrow> (sysret \<times> ('p, 's) sys) kres \<Rightarrow> bool" where
  "rkept cur k x \<longleftrightarrow> (\<forall>r s'. x = Ok (r, s') \<longrightarrow> kept {cur} k (kern s'))"

lemma rkept_shape [kept_rules]:
  "kept {cur} k (kern s') \<Longrightarrow> rkept cur k (Ok (r, s'))" "rkept cur k (Panic e)" "rkept cur k Diverge" "rkept cur k Fault"
  by (simp_all add: rkept_def)

lemma rkept_bind [kept_rules]: "(\<And>y. x = Ok y \<Longrightarrow> rkept cur k (f y)) \<Longrightarrow> rkept cur k (kbind x f)"
  by (auto simp: rkept_def kbind_Ok_iff)

lemma rkept_if [kept_rules]: "(c \<Longrightarrow> rkept cur k x) \<Longrightarrow> (\<not> c \<Longrightarrow> rkept cur k y) \<Longrightarrow> rkept cur k (if c then x else y)"
  by simp

lemma rkept_option [kept_rules]:
  "(a = None \<Longrightarrow> rkept cur k x) \<Longrightarrow> (\<And>v. a = Some v \<Longrightarrow> rkept cur k (f v)) \<Longrightarrow> rkept cur k (case a of None \<Rightarrow> x | Some v \<Rightarrow> f v)"
  by (cases a) simp_all

lemma rkept_prod [kept_rules]: "(\<And>a b. p = (a, b) \<Longrightarrow> rkept cur k (f a b)) \<Longrightarrow> rkept cur k (case p of (a, b) \<Rightarrow> f a b)"
  by (cases p) simp

lemma rkept_args [kept_rules]:
  "(\<And>v. rkept cur (kern s) (f v)) \<Longrightarrow> rkept cur (kern s) (with_int n cur s f)"
  "(\<And>v. rkept cur (kern s) (g v)) \<Longrightarrow> rkept cur (kern s) (with_ptr n z cur s g)"
  "(\<And>p v. rkept cur (kern s) (h p v)) \<Longrightarrow> rkept cur (kern s) (with_str n cur s h)"
  by (auto simp: rkept_def with_int_def with_ptr_def with_str_def kbind_Ok_iff kept_same split: if_splits)

text \<open>Rules for the state of the kernel, from the outside in.\<close>

lemma kept_refl [simp]: "kept A k k"
  by (simp add: kept_same)

lemma kept_then:
  "kept A k k' \<Longrightarrow> ptable k'' = ptable k' \<Longrightarrow> kept A k k''"
  "kept A k k' \<Longrightarrow> ptable k'' = (ptable k')[i := p] \<Longrightarrow> i \<in> A \<Longrightarrow> kept A k k''"
  using kept_trans kept_same kept_update by metis+

lemma kept_steps [kept_rules]:
  "kept A k k' \<Longrightarrow> kept A k (k'\<lparr>kmem := st\<rparr>)" "kept A k k' \<Longrightarrow> kept A k (vfs_back k' v)"
  "kept A k (kern s) \<Longrightarrow> kept A k (kern (pty_back s pt))"
  by (erule kept_then(1), simp)+

lemma kept_updates [kept_rules]:
  "i \<in> A \<Longrightarrow> kept A k k' \<Longrightarrow> kept A k (upd_proc k' i f)" "i \<in> A \<Longrightarrow> kept A k k' \<Longrightarrow> kept A k (set_fd k' i j d)"
  by (erule kept_then(2), simp, assumption)+

lemma kept_woken [kept_rules]: "kept A k k' \<Longrightarrow> kept A k (wakeup k' ch)"
  using kept_trans kept_wakeup unfolding wakeup_def by blast

lemma kept_stores:
  "uwrite k1 cur va bs = Ok k' \<Longrightarrow> kept A k k1 \<Longrightarrow> kept A k k'"
  "uwrite_back k1 cur va as bs = Ok k' \<Longrightarrow> kept A k k1 \<Longrightarrow> kept A k k'"
  "ustore_word k1 cur p w = Ok k' \<Longrightarrow> kept A k k1 \<Longrightarrow> kept A k k'"
  using kept_then(1) uwrite_table uwrite_back_table ustore_word_table by metis+

lemma kept_sleep: "sleep k1 ch b = Ok k' \<Longrightarrow> myproc k1 = Some i \<Longrightarrow> i \<in> A \<Longrightarrow> kept A k k1 \<Longrightarrow> kept A k k'"
  by (auto simp: sleep_def intro!: kept_rules split: if_splits)

definition handler_ok :: "('p, 's) handler \<Rightarrow> bool" where
  "handler_ok h \<longleftrightarrow> (\<forall>cur s. myproc (kern s) = Some cur \<longrightarrow> cur < length (ptable (kern s)) \<longrightarrow> rkept cur (kern s) (h cur s))"

lemma handler_okI:
  "(\<And>cur s. myproc (kern s) = Some cur \<Longrightarrow> cur < length (ptable (kern s)) \<Longrightarrow> rkept cur (kern s) (h cur s)) \<Longrightarrow> handler_ok h"
  by (simp add: handler_ok_def)

lemma file_handlers [handler_kept]:
  "handler_ok sys_open" "handler_ok sys_close" "handler_ok sys_lseek" "handler_ok sys_dir_open" "handler_ok sys_dir_close"
  by (rule handler_okI, unfold sys_open_def sys_close_def sys_lseek_def sys_dir_open_def sys_dir_close_def Let_def,
      intro kept_rules; simp; (intro kept_rules kept_refl)?; simp)+

lemma buffer_handlers [handler_kept]:
  "handler_ok sys_dir_read" "handler_ok sys_getcwd" "handler_ok sys_pty_read_output"
  by (rule handler_okI, unfold sys_dir_read_def sys_getcwd_def sys_pty_read_output_def Let_def,
      intro kept_rules; simp; (erule kept_stores)?; (intro kept_rules kept_refl)?; simp)+

lemma name_handlers [handler_kept]:
  "handler_ok sys_unlink" "handler_ok sys_mkdir" "handler_ok sys_file_get_size" "handler_ok sys_file_get_mode"
  by (rule handler_okI, unfold sys_unlink_def sys_mkdir_def sys_file_get_size_def sys_file_get_mode_def sys_name_op_def,
      intro kept_rules; simp; (intro kept_rules kept_refl)?; simp)+

lemma small_handlers [handler_kept]:
  "handler_ok sys_dup" "handler_ok sys_link" "handler_ok sys_mknod" "handler_ok sys_pipe" "handler_ok sys_getpid"
  "handler_ok sys_uptime" "handler_ok sys_getppid" "handler_ok sys_proc_search" "handler_ok sys_pty_create"
  "handler_ok sys_pty_close" "handler_ok sys_pty_switch"
  by (rule handler_okI, unfold sys_dup_def sys_link_def sys_mknod_def sys_pipe_def sys_getpid_def sys_uptime_def
      sys_getppid_def sys_proc_search_def sys_pty_create_def sys_pty_close_def sys_pty_switch_def,
      intro kept_rules; simp; (intro kept_rules kept_refl)?; simp)+

lemma sys_pty_write_input_ok [handler_kept]: "handler_ok sys_pty_write_input"
  by (rule handler_okI, unfold sys_pty_write_input_def Let_def, intro kept_rules; simp; (intro kept_rules kept_refl)?; simp)

lemma console_round_ok: "myproc (kern s) = Some cur \<Longrightarrow> rkept cur (kern s) (console_round target rd p cur s)"
  unfolding console_round_def
  by (cases rd; simp; intro kept_rules; simp; (erule kept_sleep)?; (erule kept_stores)?; (simp add: uwrite_myproc)?)

lemma pty_read_round_ok: "myproc (kern s) = Some cur \<Longrightarrow> rkept cur (kern s) (pty_read_round i p n cur s)"
  unfolding pty_read_round_def Let_def
  by (intro kept_rules; simp; ((erule kept_sleep | erule kept_stores)?; (intro kept_rules)?; simp)?)

lemma sys_read_ok [handler_kept]: "handler_ok sys_read"
  by (rule handler_okI, unfold sys_read_def Let_def, intro kept_rules console_round_ok pty_read_round_ok; simp;
      (erule kept_stores)?; (intro kept_rules kept_refl)?; simp)

lemma sys_write_ok [handler_kept]: "handler_ok (sys_write env)"
  by (rule handler_okI, unfold sys_write_def Let_def, intro kept_rules; simp; (intro kept_rules kept_refl)?; simp)

lemma sys_sleep_ok [handler_kept]: "handler_ok sys_sleep"
  by (rule handler_okI, unfold sys_sleep_def sleep_round_def, intro kept_rules; simp; (erule kept_sleep)?; (intro kept_rules kept_refl)?; simp)

lemma fork_kept: "fork k = Ok (r, k') \<Longrightarrow> kept A k k'"
  by (erule fork_slot) (auto intro: kept_update simp: live_def)

lemma wait_kept:
  assumes "wait k = Ok (r, k')" and "myproc k = Some cur"
  shows "kept {cur} k k'"
  using assms(1)
proof (cases rule: wait_ok)
  case (reap cur' i p)
  then show ?thesis by (intro kept_update) (auto simp: live_def)
next
  case (sleeps cur')
  then show ?thesis using assms(2) by (auto intro!: kept_rules)
qed simp

lemma reparent_kept: "kept A k (exit_reparent cur k i)"
proof -
  have "kept A k (upd_proc k i (\<lambda>p. p\<lparr>parent := initproc k\<rparr>))"
    by (rule kept_public) (simp_all add: live_def private_part_def)
  moreover from kept_trans [OF this kept_wakeup]
  have "kept A k (wakeup1 (upd_proc k i (\<lambda>p. p\<lparr>parent := initproc k\<rparr>)) ch)" for ch .
  ultimately show ?thesis by (simp add: exit_reparent_def Let_def)
qed

lemma reparents_kept: "kept A k (foldl (exit_reparent cur) k is)"
  by (induction "is" arbitrary: k) (auto intro: kept_trans reparent_kept)

lemma exit_close_kept: "exit_close k cur js = Ok k' \<Longrightarrow> kept {cur} k k'"
  by (drule exit_close_frame) (auto simp: kept_def)

lemma exit_kept:
  assumes "exit k status = Ok k'" and cur: "myproc k = Some cur"
  shows "kept {cur} k k'"
proof -
  let ?k = "upd_proc k cur (\<lambda>p. p\<lparr>exit_status := status\<rparr>)"
  obtain k1 ch "is" where c: "exit_close ?k cur [0..<PROC_FILE_MAX] = Ok k1"
    and k': "k' = upd_proc (foldl (exit_reparent cur) (wakeup1 k1 ch) is) cur (\<lambda>p. p\<lparr>pstate := ZOMBIE\<rparr>)"
    using assms by (auto simp: exit_def kbind_Ok_iff Let_def split: if_splits)
  have "kept {cur} k ?k" by (intro kept_rules) simp_all
  then have "kept {cur} k k1" using exit_close_kept [OF c] kept_trans by blast
  then have "kept {cur} k (wakeup1 k1 ch)" using kept_wakeup kept_trans by blast
  then have "kept {cur} k (foldl (exit_reparent cur) (wakeup1 k1 ch) is)" using reparents_kept kept_trans by blast
  then show ?thesis unfolding k' by (intro kept_rules) simp
qed

lemma growproc_kept: "growproc k n = Ok (r, k') \<Longrightarrow> myproc k = Some cur \<Longrightarrow> kept {cur} k k'"
  by (auto simp: growproc_def kbind_Ok_iff Let_def dest!: pids_switch_to intro: kept_same kept_update split: if_splits)

lemma proc_free_kept: "proc_free k i = Ok k' \<Longrightarrow> i < length (ptable k) \<Longrightarrow> \<not> live (proc_at k i) \<Longrightarrow> kept A k k'"
  by (erule proc_free_ok) (auto intro: kept_update)

lemma exec_kept: "exec k fname argv = Ok (r, k') \<Longrightarrow> myproc k = Some cur \<Longrightarrow> cur < length (ptable k) \<Longrightarrow> kept {cur} k k'"
  using exec_ok by (fastforce simp: exec_outcome_def intro: kept_same kept_update split: if_splits)

lemma proc_load_dynamic_kept: "proc_load_dynamic k cur prc name = Ok (b, d, e, k') \<Longrightarrow> kept {cur} k k'"
  by (auto simp: proc_load_dynamic_def Let_def kbind_Ok_iff loaded_def intro: kept_same kept_update split: if_splits)

lemma module_load_kept: "module_load k cur info name = Ok (r, e, info', k') \<Longrightarrow> kept A k k'"
  by (auto simp: module_load_def Let_def kbind_Ok_iff loaded_def intro!: kept_same split: if_splits option.splits)

lemma mail_kept: "kept A k (upd_proc k d (\<lambda>p. p\<lparr>msgqueue := q\<rparr>))"
  by (rule kept_public) (simp_all add: live_def private_part_def)

lemma process_handlers [handler_kept]: "handler_ok sys_fork" "handler_ok sys_wait" "handler_ok sys_exit" "handler_ok sys_sbrk"
  by (rule handler_okI, unfold sys_fork_def sys_wait_def sys_exit_def sys_sbrk_def ret_kern_def Let_def,
      intro kept_rules; simp; blast intro: fork_kept wait_kept exit_kept growproc_kept)+

lemma sys_exec_ok [handler_kept]: "handler_ok sys_exec"
  by (rule handler_okI, unfold sys_exec_def ret_kern_def, intro kept_rules; simp; blast intro: exec_kept)

lemma vfs_get_absolute_path_kept: "vfs_get_absolute_path_k k cur n pb = Ok (n', pb', k') \<Longrightarrow> ptable k' = ptable k"
  by (auto simp: vfs_get_absolute_path_k_def Let_def kbind_Ok_iff)

lemma sys_chdir_ok [handler_kept]: "handler_ok sys_chdir"
  by (rule handler_okI, unfold sys_chdir_def sys_chdir_absolute_def sys_chdir_relative_def Let_def, intro kept_rules; simp;
      (intro kept_rules; simp?)?; (drule vfs_get_absolute_path_kept)?; simp add: kept_same)

lemma sys_dynamic_load_ok [handler_kept]: "handler_ok sys_dynamic_load"
  by (rule handler_okI, unfold sys_dynamic_load_def, intro kept_rules; simp; (erule kept_stores)+; blast intro: proc_load_dynamic_kept)

lemma message_deliver_ok: "rkept cur (kern s) (message_deliver data cur s)"
  unfolding message_deliver_def Let_def by (intro kept_rules; simp; (intro kept_rules; simp?)?; (erule kept_stores)?; simp)

lemma message_handlers [handler_kept]: "handler_ok sys_message_receive" "handler_ok sys_message_wait"
  by (rule handler_okI, unfold sys_message_receive_def sys_message_wait_def message_wait_round_def Let_def,
      intro kept_rules message_deliver_ok; simp; (erule kept_sleep)?; simp)+

lemma sys_message_send_kept [handler_kept]: "handler_ok sys_message_send"
proof (rule handler_okI)
  fix cur and s :: "('a, 'b) sys"
  have "kept {cur} (kern s) (upd_proc ((kern s)\<lparr>kmem := st\<rparr>) d (\<lambda>p. p\<lparr>msgqueue := q\<rparr>))" for st d q
    by (rule kept_trans [OF _ mail_kept]) (intro kept_rules kept_refl)
  then show "rkept cur (kern s) (sys_message_send cur s)"
    unfolding sys_message_send_def Let_def
    by (intro rkept_shape rkept_bind rkept_args rkept_option rkept_prod; simp; (intro kept_woken; simp)?)
qed

lemma sys_proc_status_ok [handler_kept]: "handler_ok sys_proc_status"
proof (rule handler_okI)
  fix cur and s :: "('a, 'b) sys"
  have "kept {cur} (kern s) k'" if "uwrite (kern s) cur st bs = Ok k" "proc_free k i = Ok k'"
    "proc_search_pid (kern s) target = Some i" "pstate (proc_at (kern s) i) = ZOMBIE" for st bs k i k' target
  proof -
    have "i < length (ptable k)" "\<not> live (proc_at k i)"
      using that(3,4) first_proc_at uwrite_table [OF that(1)] by (auto simp: proc_search_pid_def live_def)
    from proc_free_kept [OF that(2) this] show ?thesis using kept_stores(1) [OF that(1) kept_refl] kept_trans by blast
  qed
  then show "rkept cur (kern s) (sys_proc_status cur s)"
    unfolding sys_proc_status_def Let_def by (intro kept_rules; simp; blast)
qed

text \<open>Code outside the model, kernel calls and the entry points of modules, is assumed to do as much.\<close>

definition env_ok :: "('p, 's) sysenv \<Rightarrow> bool" where
  "env_ok env \<longleftrightarrow>
     (\<forall>e \<in> set (sys_kcalls env). \<forall>h. khandler e = Some h \<longrightarrow> (\<forall>arg s. kept {} (kern s) (kern (snd (h arg s)))))
     \<and> (\<forall>a s s'. sys_module_entry env a s = Ok s' \<longrightarrow> kept {} (kern s) (kern s'))"

lemma kept_mono: "kept A k k' \<Longrightarrow> A \<subseteq> B \<Longrightarrow> kept B k k'"
  by (auto simp: kept_def)

lemma kcall_find_in: "kcall_find tbl name = Some e \<Longrightarrow> e \<in> set tbl"
  by (induction tbl) (auto split: if_splits)

lemma sys_kcall_ok:
  assumes "env_ok env"
  shows "handler_ok (sys_kcall env)"
proof (rule handler_okI)
  fix cur and s :: "('a, 'b) sys"
  have "kept {cur} (kern s) (kern s')" if kc: "kcall (sys_kcalls env) name arg s = Ok (r, s')" for name arg r s'
  proof -
    have "kept {} (kern s) (kern s')"
    proof (cases "kcall_find (sys_kcalls env) name")
      case (Some e)
      then obtain h where h: "khandler e = Some h" "h arg s = (r, s')"
        using kc by (auto simp: kcall_def split: option.splits)
      then have "kept {} (kern s) (kern (snd (h arg s)))"
        using assms kcall_find_in [OF Some] unfolding env_ok_def by blast
      then show ?thesis using h(2) by simp
    qed (use kc in \<open>simp add: kcall_def\<close>)
    then show ?thesis by (rule kept_mono) simp
  qed
  then show "rkept cur (kern s) (sys_kcall env cur s)"
    unfolding sys_kcall_def by (intro kept_rules; simp)
qed

lemma sys_module_load_ok:
  assumes "env_ok env"
  shows "handler_ok (sys_module_load env)"
proof (rule handler_okI)
  fix cur and s :: "('a, 'b) sys"
  have "kept {cur} (kern s) (kern s')" if "module_load (kern s) cur (modules s) name = Ok (r, e, info, k)"
    "sys_module_entry env e (s\<lparr>kern := k, modules := info\<rparr>) = Ok s'" for name r e info k s'
  proof -
    have "kept {} (kern (s\<lparr>kern := k, modules := info\<rparr>)) (kern s')" using that(2) assms unfolding env_ok_def by blast
    then have "kept {} k (kern s')" by simp
    from kept_mono [OF this] show ?thesis using module_load_kept [OF that(1)] kept_trans by blast
  qed
  then show "rkept cur (kern s) (sys_module_load env cur s)"
    unfolding sys_module_load_def Let_def by (intro kept_rules; simp add: module_load_kept; blast?)
qed

lemma syscalls_ok:
  assumes "env_ok env" and "Some h \<in> set (syscalls env)"
  shows "h = sys_kill \<or> handler_ok h"
  using assms by (auto simp: syscalls_def handler_kept sys_kcall_ok sys_module_load_ok)

lemma sys_kill_private:
  assumes "sys_kill cur s = Ok (r, s')" and "j < length (ptable (kern s))"
  shows "private_part (proc_at (kern s') j) = private_part (proc_at (kern s) j)"
proof -
  have "kern s' = kern s \<or> (\<exists>i. kern s' = upd_proc (kern s) i (\<lambda>p. p\<lparr>killed := True, pstate := ZOMBIE\<rparr>))"
    using assms(1) by (auto simp: sys_kill_def with_int_def ret_kern_def kill_def kbind_Ok_iff split: if_splits option.splits)
  then show ?thesis
  proof
    assume "\<exists>i. kern s' = upd_proc (kern s) i (\<lambda>p. p\<lparr>killed := True, pstate := ZOMBIE\<rparr>)"
    then obtain i where "kern s' = upd_proc (kern s) i (\<lambda>p. p\<lparr>killed := True, pstate := ZOMBIE\<rparr>)" by blast
    then show ?thesis using assms(2) by (cases "j = i") (simp_all add: private_part_def)
  qed simp
qed


section \<open>Arguments on an unmapped stack\<close>

text \<open>The calls that fetch an argument; the others ignore the stack.\<close>

definition arg_calls :: "nat list" where
  "arg_calls = [2, 5, 6, 7, 8, 9, 12, 13, 15, 16, 18, 20, 21, 22, 23, 24, 25, 26, 27, 28, 29, 30, 31, 32, 34, 36, 37, 38, 39, 40, 41]"

lemma argint_unmapped:
  assumes "\<not> present (pmap (ram (kmem k)) (pgdir (proc_at k cur)) (load32 (ram (kmem k)) (ptf (proc_at k cur) + 68) + 4))"
  shows "argint k cur 0 = Panic ''trap''"
  using assms by (simp add: argint_def fetchint_def uword_def ufetch_def numeral_eq_Suc)

lemma with_unmapped:
  assumes "argint (kern s) cur 0 = Panic ''trap''"
  shows "with_int 0 cur s f = Panic ''trap''" "with_ptr 0 z cur s g = Panic ''trap''" "with_str 0 cur s h = Panic ''trap''"
  using assms by (simp_all add: with_int_def with_ptr_def with_str_def argptr_def argstr_def)

lemma arg_call_unmapped:
  assumes "argint (kern s) cur 0 = Panic ''trap''" and "n \<in> set arg_calls"
  shows "n < length (syscalls env) \<and> n > 0 \<and> (\<exists>h. syscalls env ! n = Some h \<and> h cur s = Panic ''trap'')"
proof -
  note d = sys_exit_def sys_read_def sys_kill_def sys_exec_def sys_getcwd_def sys_chdir_def sys_sbrk_def sys_sleep_def
    sys_open_def sys_write_def sys_unlink_def sys_mkdir_def sys_close_def sys_dir_open_def sys_dir_read_def sys_dir_close_def
    sys_file_get_size_def sys_file_get_mode_def sys_name_op_def sys_lseek_def sys_dynamic_load_def sys_kcall_def
    sys_message_send_def sys_message_receive_def sys_message_wait_def sys_proc_search_def sys_pty_read_output_def
    sys_pty_write_input_def sys_pty_close_def sys_pty_switch_def sys_proc_status_def sys_module_load_def
  show ?thesis
    using assms(2) unfolding arg_calls_def
    by (simp only: list.set insert_iff empty_iff simp_thms)
      (elim disjE; simp add: syscalls_def d with_unmapped [OF assms(1)] assms(1))
qed

text \<open>
  C37. A system call made with a bad stack pointer takes the machine down. The arguments are read
  through the stack pointer of the process without any check, so for each of the 31 calls that have
  arguments, a process whose stack page is not mapped makes the kernel fault, which panics.
\<close>

theorem syscall_unmapped_stack_panics:
  assumes "myproc (kern s) = Some cur" and "m = ram (kmem (kern s))" and "p = proc_at (kern s) cur"
    and "unat (load32 m (ptf p + 28)) \<in> set arg_calls"
    and "\<not> present (pmap m (pgdir p) (load32 m (ptf p + 68) + 4))"
  shows "syscall env s = Panic ''trap''"
proof -
  let ?num = "load32 m (ptf p + 28)"
  have a: "argint (kern s) cur 0 = Panic ''trap''" using argint_unmapped assms(2,3,5) by metis
  obtain h where h: "unat ?num < length (syscalls env)" "unat ?num > 0" "syscalls env ! unat ?num = Some h" "h cur s = Panic ''trap''"
    using arg_call_unmapped [OF a assms(4), of env] by blast
  then show ?thesis using assms(1-3) by (simp add: syscall_def Let_def word_gt_0 unat_gt_0)
qed

section \<open>Traps\<close>

text \<open>Trap numbers without a handler: processor exceptions and stray vectors.\<close>

definition unexpected :: "u32 \<Rightarrow> bool" where
  "unexpected no \<longleftrightarrow> no \<noteq> T_SYSCALL \<and> no \<noteq> T_IRQ0 \<and> \<not> device_trap no \<and> no \<noteq> T_IRQ0 + 7 \<and> no \<noteq> T_IRQ0 + 31"

lemma trap_event_myproc:
  assumes "trap_event env tf s = Ok s1"
    and "\<And>no s s'. sys_device_intr env no s = Ok s' \<Longrightarrow> myproc (kern s') = myproc (kern s)"
  shows "myproc (kern s1) = myproc (kern s)"
  using assms(1) assms(2) [of "tf_trapno s tf" s s1]
  by (auto simp: trap_event_def trap_default_def Let_def kbind_Ok_iff myproc_def wakeup_def split: if_splits option.splits)

lemma unexpected_killed:
  assumes "unexpected (tf_trapno s tf)" and "tf_ring s tf = 3" and "myproc (kern s) = Some cur" and "cur < length (ptable (kern s))"
    and "trap_event env tf s = Ok s1"
  shows "kern s1 = upd_proc (kern s) cur (\<lambda>p. p\<lparr>killed := True\<rparr>)"
  using assms by (auto simp: unexpected_def trap_event_def trap_default_def Let_def kbind_Ok_iff)


section \<open>Examples\<close>

text \<open>The running child of the example table, with \<open>w\<close> in the word at \<open>off\<close> of its trap frame.\<close>

definition call_kern :: "u32 \<Rightarrow> u32 \<Rightarrow> (nat, nat) kernel" where
  "call_kern off w = (two_procs (Some 1))\<lparr>kmem := \<lparr>use_lock = True, freelist = 0, ram = store32 (\<lambda>_. 0) off w\<rparr>\<rparr>"

lemma call_kern_simps [simp]:
  "myproc (call_kern off w) = Some 1" "proc_at (call_kern off w) 0 = init_waits" "proc_at (call_kern off w) 1 = child_runs"
  "proc_at (call_kern off w) (Suc 0) = child_runs"
  "length (ptable (call_kern off w)) = 64" "ram (kmem (call_kern off w)) = store32 (\<lambda>_. 0) off w"
  by (simp_all add: call_kern_def myproc_def)

lemma idle_env_ok: "env_ok idle_env"
  by (simp add: env_ok_def idle_env_def)


theorem syscall_unmapped_stack_panics_witness:
  "syscall idle_env (idle_sys (call_kern 28 6)) = Panic ''trap''"
proof (rule syscall_unmapped_stack_panics [OF _ refl refl])
  have l: "load32 (store32 (\<lambda>_. 0) 28 6) 28 = 6" "load32 (store32 (\<lambda>_. 0) 28 6) 68 = 0"
    by (simp add: load32_store32_same, simp add: load32_def store32_def)
  show "unat (load32 (ram (kmem (kern (idle_sys (call_kern 28 6))))) (ptf (proc_at (kern (idle_sys (call_kern 28 6))) 1) + 28)) \<in> set arg_calls"
    by (simp add: child_runs_def no_proc_def l arg_calls_def)
  show "\<not> present (pmap (ram (kmem (kern (idle_sys (call_kern 28 6))))) (pgdir (proc_at (kern (idle_sys (call_kern 28 6))) 1))
      (load32 (ram (kmem (kern (idle_sys (call_kern 28 6))))) (ptf (proc_at (kern (idle_sys (call_kern 28 6))) 1) + 68) + 4))"
    by (simp add: child_runs_def no_proc_def l pmap_def node.simps tab_of_def present_def PDPTX_def load64_def load32_def store32_def)
qed simp


end
