(* ===== verification/Spec2Isabelle.thy ===== *)
theory Spec2Isabelle
  imports Kernel_Prelude Kernel_String Page_Alloc Spinlock Kcall Hid Pty Hal_Block Vfs Exec Console Initramfs
    Sysargs Sysproc Sysfile Messages Syscall
begin

text \<open>
  PanicOS: verification of the kernel's core.
\<close>

end
